(* ===== verification/Ring_Buffer.thy ===== *)
theory Ring_Buffer
  imports Prelude
begin

text \<open>
  The generic ring buffer (\<^verbatim>\<open>kernel/src/libs/ring_buffer/mod.rs\<close>) and the kernel FIFO built on it
  (\<^verbatim>\<open>kernel/src/libs/kfifo/mod.rs\<close>). The record below is the struct: a vector of optional slots,
  two cursors and a length. The locale \<open>bounded_fifo\<close> is the contract of a bounded queue; the
  slice transfers are proved once inside it, and it is interpreted on the ring buffer and on
  the FIFO. The trace refinement shows that no sequence of operations panics and that every
  sequence returns what a bounded list returns.
\<close>

section \<open>The ring buffer\<close>

datatype RingBufferError = RingCapacityZero | RingFull

record 'a RingBuffer =
  slots :: "'a option list"
  read_index :: nat
  write_index :: nat
  ring_len :: nat

definition ring_with_capacity :: "nat \<Rightarrow> RingBufferError + 'a RingBuffer" where
  "ring_with_capacity capacity =
     (if capacity = 0 then Inl RingCapacityZero
      else Inr \<lparr>slots = replicate capacity None, read_index = 0, write_index = 0, ring_len = 0\<rparr>)"

definition ring_capacity :: "'a RingBuffer \<Rightarrow> nat" where
  "ring_capacity rb = length (slots rb)"

definition ring_is_empty :: "'a RingBuffer \<Rightarrow> bool" where
  "ring_is_empty rb \<longleftrightarrow> ring_len rb = 0"

definition ring_is_full :: "'a RingBuffer \<Rightarrow> bool" where
  "ring_is_full rb \<longleftrightarrow> ring_len rb = ring_capacity rb"

definition ring_available_read :: "'a RingBuffer \<Rightarrow> nat" where
  "ring_available_read rb = ring_len rb"

definition ring_available_write :: "'a RingBuffer \<Rightarrow> nat" where
  "ring_available_write rb = ring_capacity rb - ring_len rb"

definition ring_is_half_full :: "'a RingBuffer \<Rightarrow> bool" where
  "ring_is_half_full rb \<longleftrightarrow> ring_capacity rb \<le> ring_len rb * 2"

definition ring_push :: "'a RingBuffer \<Rightarrow> 'a \<Rightarrow> ((RingBufferError + unit) \<times> 'a RingBuffer) option" where
  "ring_push rb value =
     (if ring_is_full rb then Some (Inl RingFull, rb)
      else do {
        s \<leftarrow> vec_set (slots rb) (write_index rb) (Some value);
        w \<leftarrow> usize_rem (write_index rb + 1) (ring_capacity rb);
        Some (Inr (), rb\<lparr>slots := s, write_index := w, ring_len := ring_len rb + 1\<rparr>)
      })"

definition ring_pop :: "'a RingBuffer \<Rightarrow> ('a option \<times> 'a RingBuffer) option" where
  "ring_pop rb =
     (if ring_is_empty rb then Some (None, rb)
      else do {
        value \<leftarrow> vec_get (slots rb) (read_index rb);
        s \<leftarrow> vec_set (slots rb) (read_index rb) None;
        r \<leftarrow> usize_rem (read_index rb + 1) (ring_capacity rb);
        Some (value, rb\<lparr>slots := s, read_index := r, ring_len := ring_len rb - 1\<rparr>)
      })"

definition ring_peek :: "'a RingBuffer \<Rightarrow> 'a option option" where
  "ring_peek rb = (if ring_is_empty rb then Some None else vec_get (slots rb) (read_index rb))"

text \<open>\<^verbatim>\<open>peek_mut\<close> hands out a reference; \<open>f\<close> is what the caller does through it.\<close>

definition ring_peek_mut :: "'a RingBuffer \<Rightarrow> ('a \<Rightarrow> 'a) \<Rightarrow> ('a option \<times> 'a RingBuffer) option" where
  "ring_peek_mut rb f =
     (if ring_is_empty rb then Some (None, rb)
      else do {
        value \<leftarrow> vec_get (slots rb) (read_index rb);
        s \<leftarrow> vec_set (slots rb) (read_index rb) (map_option f value);
        Some (value, rb\<lparr>slots := s\<rparr>)
      })"

definition ring_pop_back :: "'a RingBuffer \<Rightarrow> ('a option \<times> 'a RingBuffer) option" where
  "ring_pop_back rb =
     (if ring_is_empty rb then Some (None, rb)
      else do {
        w \<leftarrow> usize_rem (write_index rb + ring_capacity rb - 1) (ring_capacity rb);
        value \<leftarrow> vec_get (slots rb) w;
        s \<leftarrow> vec_set (slots rb) w None;
        Some (value, rb\<lparr>slots := s, write_index := w, ring_len := ring_len rb - 1\<rparr>)
      })"

definition ring_push_overwrite :: "'a RingBuffer \<Rightarrow> 'a \<Rightarrow> ('a option \<times> 'a RingBuffer) option" where
  "ring_push_overwrite rb value =
     (if ring_is_full rb then do {
        (dropped, rb1) \<leftarrow> ring_pop rb;
        (_, rb2) \<leftarrow> ring_push rb1 value;
        Some (dropped, rb2)
      } else do {
        (_, rb1) \<leftarrow> ring_push rb value;
        Some (None, rb1)
      })"

lemma ring_pop_shrinks: "ring_pop rb = Some (Some v, rb') \<Longrightarrow> ring_len rb' < ring_len rb"
  by (auto simp: ring_pop_def ring_is_empty_def vec_simps usize_rem_def
        split: if_splits Option.bind_splits)

text \<open>\<^verbatim>\<open>while self.pop().is_some() {}\<close>, then the cursors are reset.\<close>

function ring_drain :: "'a RingBuffer \<Rightarrow> 'a RingBuffer option" where
  "ring_drain rb =
     (case ring_pop rb of
        None \<Rightarrow> None
      | Some (None, rb') \<Rightarrow> Some rb'
      | Some (Some _, rb') \<Rightarrow> ring_drain rb')"
  by pat_completeness auto
termination
  by (relation "measure ring_len") (auto dest: ring_pop_shrinks)

declare ring_drain.simps [simp del]

definition ring_clear :: "'a RingBuffer \<Rightarrow> 'a RingBuffer option" where
  "ring_clear rb = do {
     rb' \<leftarrow> ring_drain rb;
     Some (rb'\<lparr>read_index := 0, write_index := 0\<rparr>)
   }"

definition ring_as_slices :: "'a RingBuffer \<Rightarrow> ('a option list \<times> 'a option list) option" where
  "ring_as_slices rb =
     (let cap = ring_capacity rb in
      if ring_len rb = 0 then Some ([], [])
      else
        let first_len = min (ring_len rb) (cap - read_index rb);
            second_len = ring_len rb - first_len
        in do {
          first \<leftarrow> vec_slice (slots rb) (read_index rb) (read_index rb + first_len);
          second \<leftarrow> (if second_len = 0 then Some [] else vec_slice (slots rb) 0 second_len);
          Some (first, second)
        })"

text \<open>
  The copying loops, over the queue operation they call: \<open>write_loop\<close> stops at the first
  rejected element, \<open>read_loop\<close> fills the output up to the first empty answer.
\<close>

fun write_loop :: "('q \<Rightarrow> 'a \<Rightarrow> (('e + unit) \<times> 'q) option) \<Rightarrow> 'q \<Rightarrow> 'a list \<Rightarrow> (nat \<times> 'q) option" where
  "write_loop push q [] = Some (0, q)"
| "write_loop push q (item # source) =
     (case push q item of
        None \<Rightarrow> None
      | Some (Inl _, q') \<Rightarrow> Some (0, q')
      | Some (Inr _, q') \<Rightarrow> do { (written, q'') \<leftarrow> write_loop push q' source; Some (written + 1, q'') })"

fun read_loop :: "('q \<Rightarrow> ('a option \<times> 'q) option) \<Rightarrow> 'q \<Rightarrow> 'a list \<Rightarrow> (nat \<times> 'a list \<times> 'q) option" where
  "read_loop pop q [] = Some (0, [], q)"
| "read_loop pop q (slot # output) =
     (case pop q of
        None \<Rightarrow> None
      | Some (None, q') \<Rightarrow> Some (0, slot # output, q')
      | Some (Some value, q') \<Rightarrow>
          do { (n, out, q'') \<leftarrow> read_loop pop q' output; Some (n + 1, value # out, q'') })"

definition ring_write_slice :: "'a RingBuffer \<Rightarrow> 'a list \<Rightarrow> (nat \<times> 'a RingBuffer) option" where
  "ring_write_slice rb source = write_loop ring_push rb source"

definition ring_read_slice :: "'a RingBuffer \<Rightarrow> 'a list \<Rightarrow> (nat \<times> 'a list \<times> 'a RingBuffer) option" where
  "ring_read_slice rb output = read_loop ring_pop rb output"

section \<open>The kernel FIFO\<close>

datatype KfifoError = KfifoCapacityZero | KfifoFull

fun kfifo_error_from :: "RingBufferError \<Rightarrow> KfifoError" where
  "kfifo_error_from RingCapacityZero = KfifoCapacityZero"
| "kfifo_error_from RingFull = KfifoFull"

record 'a KFifo =
  inner :: "'a RingBuffer"

definition kfifo_with_capacity :: "nat \<Rightarrow> KfifoError + 'a KFifo" where
  "kfifo_with_capacity capacity =
     (case ring_with_capacity capacity of
        Inl e \<Rightarrow> Inl (kfifo_error_from e)
      | Inr rb \<Rightarrow> Inr \<lparr>inner = rb\<rparr>)"

definition kfifo_capacity :: "'a KFifo \<Rightarrow> nat" where
  "kfifo_capacity f = ring_capacity (inner f)"

definition kfifo_len :: "'a KFifo \<Rightarrow> nat" where
  "kfifo_len f = ring_len (inner f)"

definition kfifo_is_empty :: "'a KFifo \<Rightarrow> bool" where
  "kfifo_is_empty f \<longleftrightarrow> ring_is_empty (inner f)"

definition kfifo_is_full :: "'a KFifo \<Rightarrow> bool" where
  "kfifo_is_full f \<longleftrightarrow> ring_is_full (inner f)"

definition kfifo_avail :: "'a KFifo \<Rightarrow> nat" where
  "kfifo_avail f = ring_available_read (inner f)"

definition kfifo_unused :: "'a KFifo \<Rightarrow> nat" where
  "kfifo_unused f = ring_available_write (inner f)"

definition kfifo_clear :: "'a KFifo \<Rightarrow> 'a KFifo option" where
  "kfifo_clear f = do { rb \<leftarrow> ring_clear (inner f); Some (f\<lparr>inner := rb\<rparr>) }"

definition kfifo_reset :: "'a KFifo \<Rightarrow> 'a KFifo option" where
  "kfifo_reset f = kfifo_clear f"

definition kfifo_push :: "'a KFifo \<Rightarrow> 'a \<Rightarrow> ((KfifoError + unit) \<times> 'a KFifo) option" where
  "kfifo_push f value = do {
     (r, rb) \<leftarrow> ring_push (inner f) value;
     Some (map_sum kfifo_error_from id r, f\<lparr>inner := rb\<rparr>)
   }"

definition kfifo_pop :: "'a KFifo \<Rightarrow> ('a option \<times> 'a KFifo) option" where
  "kfifo_pop f = do { (v, rb) \<leftarrow> ring_pop (inner f); Some (v, f\<lparr>inner := rb\<rparr>) }"

definition kfifo_push_overwrite :: "'a KFifo \<Rightarrow> 'a \<Rightarrow> ('a option \<times> 'a KFifo) option" where
  "kfifo_push_overwrite f value =
     do { (v, rb) \<leftarrow> ring_push_overwrite (inner f) value; Some (v, f\<lparr>inner := rb\<rparr>) }"

definition kfifo_peek :: "'a KFifo \<Rightarrow> 'a option option" where
  "kfifo_peek f = ring_peek (inner f)"

definition kfifo_peek_mut :: "'a KFifo \<Rightarrow> ('a \<Rightarrow> 'a) \<Rightarrow> ('a option \<times> 'a KFifo) option" where
  "kfifo_peek_mut f g = do { (v, rb) \<leftarrow> ring_peek_mut (inner f) g; Some (v, f\<lparr>inner := rb\<rparr>) }"

definition kfifo_pop_back :: "'a KFifo \<Rightarrow> ('a option \<times> 'a KFifo) option" where
  "kfifo_pop_back f = do { (v, rb) \<leftarrow> ring_pop_back (inner f); Some (v, f\<lparr>inner := rb\<rparr>) }"

definition kfifo_in_slice :: "'a KFifo \<Rightarrow> 'a list \<Rightarrow> (nat \<times> 'a KFifo) option" where
  "kfifo_in_slice f source =
     do { (n, rb) \<leftarrow> ring_write_slice (inner f) source; Some (n, f\<lparr>inner := rb\<rparr>) }"

definition kfifo_out_slice :: "'a KFifo \<Rightarrow> 'a list \<Rightarrow> (nat \<times> 'a list \<times> 'a KFifo) option" where
  "kfifo_out_slice f output =
     do { (n, out, rb) \<leftarrow> ring_read_slice (inner f) output; Some (n, out, f\<lparr>inner := rb\<rparr>) }"

section \<open>Invariant and contents\<close>

text \<open>
  The occupied slots are the \<open>ring_len\<close> slots from \<open>read_index\<close> on, modulo the capacity, and
  they are the only ones that hold a value.
\<close>

definition ring_at :: "'a RingBuffer \<Rightarrow> nat \<Rightarrow> 'a option" where
  "ring_at rb i = slots rb ! ((read_index rb + i) mod ring_capacity rb)"

definition ring_invar :: "'a RingBuffer \<Rightarrow> bool" where
  "ring_invar rb \<longleftrightarrow>
     0 < ring_capacity rb \<and> ring_len rb \<le> ring_capacity rb \<and> read_index rb < ring_capacity rb \<and>
     write_index rb = (read_index rb + ring_len rb) mod ring_capacity rb \<and>
     (\<forall>i < ring_capacity rb. ring_at rb i \<noteq> None \<longleftrightarrow> i < ring_len rb)"

definition ring_list :: "'a RingBuffer \<Rightarrow> 'a list" where
  "ring_list rb = map (\<lambda>i. the (ring_at rb i)) [0..<ring_len rb]"

lemma length_ring_list [simp]: "length (ring_list rb) = ring_len rb"
  by (simp add: ring_list_def)

lemma mod_window_inj:
  fixes c :: nat
  assumes "(r + i) mod c = (r + j) mod c" "i < c" "j < c"
  shows "i = j"
proof -
  have *: "k = l" if "(r + k) mod c = (r + l) mod c" "k < c" "k \<ge> l" for k l
  proof -
    have "c dvd k - l"
      using that mod_eq_dvd_iff_nat [of "r + l" "r + k" c] by simp
    then show ?thesis
      using that nat_dvd_not_less [of "k - l" c] by (cases "k = l") auto
  qed
  show ?thesis
    using *[of i j] *[of j i] assms by (cases "i \<ge> j") auto
qed

text \<open>What an operation leaves of the occupied window, seen through \<^const>\<open>ring_at\<close>.\<close>

lemma ring_at_write:
  assumes "ring_invar rb" "i < ring_capacity rb" "j < ring_capacity rb"
    and "w = (read_index rb + j) mod ring_capacity rb"
  shows "(slots rb)[w := x] ! ((read_index rb + i) mod ring_capacity rb) =
         (if i = j then x else ring_at rb i)"
proof -
  have "w = (read_index rb + i) mod ring_capacity rb \<longleftrightarrow> i = j"
    using assms mod_window_inj by blast
  moreover have "w < length (slots rb)"
    using assms by (metis ring_capacity_def mod_less_divisor ring_invar_def)
  ultimately show ?thesis
    by (auto simp: ring_at_def nth_list_update)
qed

lemma ring_with_capacity_invar:
  "ring_with_capacity n = Inr rb \<Longrightarrow> ring_invar rb \<and> ring_list rb = [] \<and> ring_capacity rb = n"
  by (auto simp: ring_with_capacity_def ring_invar_def ring_list_def ring_at_def ring_capacity_def
        split: if_splits)

lemma ring_list_nth: "i < ring_len rb \<Longrightarrow> ring_list rb ! i = the (ring_at rb i)"
  by (simp add: ring_list_def)

lemma ring_push_full: "ring_len rb = ring_capacity rb \<Longrightarrow> ring_push rb x = Some (Inl RingFull, rb)"
  by (simp add: ring_push_def ring_is_full_def)

lemma ring_push_ok:
  assumes inv: "ring_invar rb" and room: "ring_len rb < ring_capacity rb"
  shows "\<exists>rb'. ring_push rb x = Some (Inr (), rb') \<and> ring_invar rb' \<and>
               ring_list rb' = ring_list rb @ [x] \<and> ring_capacity rb' = ring_capacity rb"
proof -
  let ?c = "ring_capacity rb" and ?w = "write_index rb"
  let ?rb = "rb\<lparr>slots := (slots rb)[?w := Some x], write_index := (?w + 1) mod ?c,
                 ring_len := ring_len rb + 1\<rparr>"
  have c: "ring_capacity ?rb = ?c"
    by (simp add: ring_capacity_def)
  have w: "?w = (read_index rb + ring_len rb) mod ?c" "?w < length (slots rb)"
    using inv by (auto simp: ring_invar_def ring_capacity_def)
  have at: "ring_at ?rb i = (if i = ring_len rb then Some x else ring_at rb i)" if "i < ?c" for i
    using ring_at_write [OF inv that room w(1), of "Some x"] c by (simp add: ring_at_def)
  have "ring_push rb x = Some (Inr (), ?rb)"
    using w(2) room by (auto simp: ring_push_def ring_is_full_def vec_simps usize_rem_def ring_capacity_def)
  moreover have "ring_invar ?rb"
    using inv room at c by (auto simp: ring_invar_def mod_Suc_eq)
  moreover have "ring_list ?rb = ring_list rb @ [x]"
    using at room by (auto simp: ring_list_def)
  ultimately show ?thesis
    using c by blast
qed

lemma ring_pop_empty: "ring_len rb = 0 \<Longrightarrow> ring_pop rb = Some (None, rb)"
  by (simp add: ring_pop_def ring_is_empty_def)

lemma ring_pop_ok:
  assumes inv: "ring_invar rb" and "0 < ring_len rb"
  shows "\<exists>rb'. ring_pop rb = Some (Some (hd (ring_list rb)), rb') \<and> ring_invar rb' \<and>
               ring_list rb' = tl (ring_list rb) \<and> ring_capacity rb' = ring_capacity rb"
proof -
  let ?c = "ring_capacity rb" and ?r = "read_index rb"
  let ?rb = "rb\<lparr>slots := (slots rb)[?r := None], read_index := (?r + 1) mod ?c,
                 ring_len := ring_len rb - 1\<rparr>"
  have c: "ring_capacity ?rb = ?c"
    by (simp add: ring_capacity_def)
  have r: "?r < ?c" "?r = (?r + 0) mod ?c" "?r < length (slots rb)" "0 < ?c"
    using inv by (auto simp: ring_invar_def ring_capacity_def)
  have shift: "((?r + 1) mod ?c + i) mod ?c = (?r + Suc i) mod ?c" for i
    by (simp add: mod_add_left_eq)
  have at: "ring_at ?rb i = (if Suc i = ?c then None else ring_at rb (Suc i))" if "i < ?c" for i
  proof (cases "Suc i = ?c")
    case True
    then have "(?r + Suc i) mod ?c = ?r" using r by simp
    then show ?thesis using True shift [of i] r c by (simp add: ring_at_def)
  next
    case False
    then show ?thesis
      using ring_at_write [OF inv _ r(4) r(2), of "Suc i" None] that shift [of i] c
      by (simp add: ring_at_def)
  qed
  have "hd (ring_list rb) = the (ring_at rb 0)"
    using assms(2) by (simp add: ring_list_def hd_map)
  moreover have "ring_at rb 0 \<noteq> None"
    using inv assms(2) unfolding ring_invar_def by blast
  moreover have "ring_at rb 0 = slots rb ! ?r"
    using r(1) by (simp add: ring_at_def)
  ultimately have "ring_pop rb = Some (Some (hd (ring_list rb)), ?rb)"
    using r assms(2) by (auto simp: ring_pop_def ring_is_empty_def vec_simps usize_rem_def ring_capacity_def)
  moreover have "write_index rb = ((?r + 1) mod ?c + (ring_len rb - 1)) mod ?c"
    using inv assms(2) shift [of "ring_len rb - 1"] by (simp add: ring_invar_def del: mod_add_left_eq)
  then have "ring_invar ?rb"
    using inv assms(2) at c unfolding ring_invar_def by auto
  moreover have "ring_list ?rb = tl (ring_list rb)"
    using at inv assms(2) by (auto simp: ring_list_def ring_invar_def nth_tl intro!: nth_equalityI)
  ultimately show ?thesis
    using c by blast
qed

lemma ring_pop_back_empty: "ring_len rb = 0 \<Longrightarrow> ring_pop_back rb = Some (None, rb)"
  by (simp add: ring_pop_back_def ring_is_empty_def)

lemma ring_pop_back_ok:
  assumes inv: "ring_invar rb" and "0 < ring_len rb"
  shows "\<exists>rb'. ring_pop_back rb = Some (Some (last (ring_list rb)), rb') \<and> ring_invar rb' \<and>
               ring_list rb' = butlast (ring_list rb) \<and> ring_capacity rb' = ring_capacity rb"
proof -
  let ?c = "ring_capacity rb" and ?n = "ring_len rb - 1"
  define w where "w = (write_index rb + ?c - 1) mod ?c"
  let ?rb = "rb\<lparr>slots := (slots rb)[w := None], write_index := w, ring_len := ?n\<rparr>"
  have pos: "0 < ?c" "?n < ?c" "ring_len rb = Suc ?n"
    using inv assms(2) by (auto simp: ring_invar_def)
  have "w = (read_index rb + ring_len rb + (?c - 1)) mod ?c"
    using inv pos unfolding w_def ring_invar_def
    by (metis (no_types) Nat.add_diff_assoc Suc_leI One_nat_def mod_add_left_eq)
  also have "read_index rb + ring_len rb + (?c - 1) = read_index rb + ?n + ?c"
    using pos by simp
  finally have w: "w = (read_index rb + ?n) mod ?c"
    by (simp only: mod_add_self2)
  then have w_less: "w < length (slots rb)"
    using pos(1) by (simp add: ring_capacity_def)
  have c: "ring_capacity ?rb = ?c"
    by (simp add: ring_capacity_def)
  have at: "ring_at ?rb i = (if i = ?n then None else ring_at rb i)" if "i < ?c" for i
    using ring_at_write [OF inv that pos(2) w, of None] c by (simp add: ring_at_def)
  have split: "[0..<ring_len rb] = [0..<?n] @ [?n]"
    using pos(3) by (metis upt_Suc_append le0)
  have "ring_at rb ?n \<noteq> None"
    using inv pos unfolding ring_invar_def by (metis lessI)
  then have last: "slots rb ! w = Some (last (ring_list rb))"
    using w by (simp add: ring_list_def split ring_at_def)
  have "usize_rem (write_index rb + ?c - 1) ?c = Some w"
    using pos(1) by (simp add: usize_rem_def w_def)
  then have "ring_pop_back rb = Some (Some (last (ring_list rb)), ?rb)"
    using w_less last assms(2) by (simp add: ring_pop_back_def ring_is_empty_def vec_simps)
  moreover have "ring_invar ?rb"
    using inv pos at c w by (auto simp: ring_invar_def)
  moreover have "ring_list ?rb = butlast (ring_list rb)"
    using at pos(2) by (simp add: ring_list_def split)
  ultimately show ?thesis
    using c by blast
qed

lemma ring_peek_ok:
  assumes "ring_invar rb"
  shows "ring_peek rb = Some (if ring_list rb = [] then None else Some (hd (ring_list rb)))"
proof (cases "ring_len rb = 0")
  case True
  then show ?thesis by (simp add: ring_peek_def ring_is_empty_def ring_list_def)
next
  case False
  have "ring_at rb 0 \<noteq> None" "read_index rb < ring_capacity rb"
    using assms False unfolding ring_invar_def by blast+
  then show ?thesis
    using False
    by (auto simp: ring_peek_def ring_is_empty_def vec_simps ring_list_def hd_map ring_at_def ring_capacity_def)
qed

lemma ring_push_overwrite_ok:
  assumes inv: "ring_invar rb"
  shows "\<exists>rb'. ring_push_overwrite rb x =
           Some (if ring_len rb = ring_capacity rb then Some (hd (ring_list rb)) else None, rb') \<and>
         ring_invar rb' \<and> ring_capacity rb' = ring_capacity rb \<and>
         ring_list rb' = (if ring_len rb = ring_capacity rb then tl (ring_list rb) else ring_list rb) @ [x]"
proof (cases "ring_len rb = ring_capacity rb")
  case True
  have pos: "0 < ring_len rb"
    using inv True by (simp add: ring_invar_def)
  obtain rb1 where 1: "ring_pop rb = Some (Some (hd (ring_list rb)), rb1)" "ring_invar rb1"
      "ring_list rb1 = tl (ring_list rb)" "ring_capacity rb1 = ring_capacity rb"
    using ring_pop_ok [OF inv pos] by blast
  have "ring_len rb1 = ring_len rb - 1"
    using 1(3) length_ring_list [of rb1] by (simp del: length_ring_list add: length_ring_list [of rb])
  then have room: "ring_len rb1 < ring_capacity rb1"
    using True pos 1(4) by linarith
  obtain rb2 where "ring_push rb1 x = Some (Inr (), rb2)" "ring_invar rb2"
      "ring_list rb2 = ring_list rb1 @ [x]" "ring_capacity rb2 = ring_capacity rb1"
    using ring_push_ok [OF 1(2) room] by blast
  then show ?thesis
    using 1 True by (simp add: ring_push_overwrite_def ring_is_full_def)
next
  case False
  then have room: "ring_len rb < ring_capacity rb"
    using inv by (simp add: ring_invar_def)
  obtain rb2 where "ring_push rb x = Some (Inr (), rb2)" "ring_invar rb2"
      "ring_list rb2 = ring_list rb @ [x]" "ring_capacity rb2 = ring_capacity rb"
    using ring_push_ok [OF inv room] by blast
  then show ?thesis
    using False by (simp add: ring_push_overwrite_def ring_is_full_def)
qed

lemma ring_drain_ok:
  "ring_invar rb \<Longrightarrow> \<exists>rb'. ring_drain rb = Some rb' \<and> ring_invar rb' \<and> ring_list rb' = [] \<and>
     ring_capacity rb' = ring_capacity rb"
proof (induction "ring_len rb" arbitrary: rb rule: less_induct)
  case less
  show ?case
  proof (cases "ring_len rb = 0")
    case True
    then show ?thesis
      using less.prems by (subst ring_drain.simps) (simp add: ring_pop_empty ring_list_def)
  next
    case False
    with less.prems obtain rb' where r: "ring_pop rb = Some (Some (hd (ring_list rb)), rb')"
        "ring_invar rb'" "ring_capacity rb' = ring_capacity rb"
      using ring_pop_ok by blast
    show ?thesis
      using less.hyps [OF ring_pop_shrinks [OF r(1)] r(2)] r by (subst ring_drain.simps) simp
  qed
qed

lemma ring_clear_ok:
  assumes "ring_invar rb"
  shows "\<exists>rb'. ring_clear rb = Some rb' \<and> ring_invar rb' \<and> ring_list rb' = [] \<and>
     ring_capacity rb' = ring_capacity rb"
proof -
  obtain r where r: "ring_drain rb = Some r" "ring_invar r" "ring_list r = []"
      "ring_capacity r = ring_capacity rb"
    using ring_drain_ok assms by blast
  have len: "ring_len r = 0"
    using r(3) by (simp add: ring_list_def)
  have "slots r ! j = None" if "j < ring_capacity r" for j
  proof -
    let ?i = "(j + ring_capacity r - read_index r) mod ring_capacity r"
    have "(read_index r + ?i) mod ring_capacity r = j"
      using r(2) that by (simp add: ring_invar_def mod_add_right_eq)
    then have "slots r ! j = ring_at r ?i"
      by (simp add: ring_at_def)
    then show ?thesis
      using r(2) len that by (auto simp: ring_invar_def)
  qed
  then show ?thesis
    using r len by (auto simp: ring_clear_def ring_invar_def ring_list_def ring_at_def ring_capacity_def)
qed

lemma ring_as_slices_ok:
  assumes inv: "ring_invar rb"
  shows "\<exists>a b. ring_as_slices rb = Some (a, b) \<and> a @ b = map Some (ring_list rb)"
proof -
  let ?c = "ring_capacity rb" and ?r = "read_index rb"
  define n where "n = min (ring_len rb) (?c - ?r)"
  define a where "a = take n (drop ?r (slots rb))"
  define b where "b = take (ring_len rb - n) (slots rb)"
  have bounds: "?r + n \<le> length (slots rb)" "ring_len rb - n \<le> length (slots rb)"
      "?c = length (slots rb)" "ring_len rb \<le> ?c" "?r < ?c" "n \<le> ring_len rb"
    using inv by (auto simp: ring_invar_def n_def ring_capacity_def)
  have some: "ring_at rb i = Some (ring_list rb ! i)" if "i < ring_len rb" for i
    using inv that bounds(4) by (auto simp: ring_invar_def ring_list_def)
  have "(a @ b) ! i = Some (ring_list rb ! i)" if "i < ring_len rb" for i
  proof (cases "i < n")
    case True
    then have "?r + i < ?c" using bounds by simp
    then show ?thesis
      using True bounds some [OF that] by (simp add: a_def nth_append ring_at_def)
  next
    case False
    then have "?c \<le> ?r + i" "?r + i - ?c < ?c" "n = ?c - ?r"
      using that bounds by (auto simp: n_def split: if_splits)
    then have "(?r + i) mod ?c = i - n"
      using bounds by (simp add: mod_if)
    then show ?thesis
      using False that bounds some [OF that] by (simp add: a_def b_def nth_append ring_at_def)
  qed
  moreover have "length (a @ b) = ring_len rb"
    using bounds by (simp add: a_def b_def)
  ultimately have "a @ b = map Some (ring_list rb)"
    by (intro nth_equalityI) simp_all
  moreover have "ring_as_slices rb = Some (a, b)"
    using bounds unfolding ring_as_slices_def Let_def n_def [symmetric]
    by (auto simp: vec_simps a_def b_def)
  ultimately show ?thesis by blast
qed

section \<open>The bounded queue contract\<close>

locale bounded_fifo =
  fixes invar :: "'q \<Rightarrow> bool"
    and contents :: "'q \<Rightarrow> 'a list"
    and cap :: "'q \<Rightarrow> nat"
    and push :: "'q \<Rightarrow> 'a \<Rightarrow> (('e + unit) \<times> 'q) option"
    and pop :: "'q \<Rightarrow> ('a option \<times> 'q) option"
    and full :: 'e
  assumes within: "invar q \<Longrightarrow> length (contents q) \<le> cap q"
    and push_full: "invar q \<Longrightarrow> length (contents q) = cap q \<Longrightarrow> push q x = Some (Inl full, q)"
    and push_ok: "invar q \<Longrightarrow> length (contents q) < cap q \<Longrightarrow>
      \<exists>q'. push q x = Some (Inr (), q') \<and> invar q' \<and> contents q' = contents q @ [x] \<and> cap q' = cap q"
    and pop_empty: "invar q \<Longrightarrow> contents q = [] \<Longrightarrow> pop q = Some (None, q)"
    and pop_ok: "invar q \<Longrightarrow> contents q = x # xs \<Longrightarrow>
      \<exists>q'. pop q = Some (Some x, q') \<and> invar q' \<and> contents q' = xs \<and> cap q' = cap q"
begin

lemma write_loop_ok:
  "invar q \<Longrightarrow> \<exists>q'. write_loop push q xs = Some (min (length xs) (cap q - length (contents q)), q') \<and>
     invar q' \<and> cap q' = cap q \<and> contents q' = contents q @ take (cap q - length (contents q)) xs"
proof (induction xs arbitrary: q)
  case (Cons x xs)
  show ?case
  proof (cases "length (contents q) = cap q")
    case True
    then show ?thesis using Cons.prems by (simp add: push_full)
  next
    case False
    then have less: "length (contents q) < cap q"
      using within [OF Cons.prems] by simp
    obtain q1 where q1: "push q x = Some (Inr (), q1)" "invar q1" "contents q1 = contents q @ [x]"
        "cap q1 = cap q"
      using push_ok [OF Cons.prems less] by blast
    then obtain q2 where "write_loop push q1 xs =
        Some (min (length xs) (cap q - length (contents q) - 1), q2)" "invar q2" "cap q2 = cap q"
        "contents q2 = contents q @ x # take (cap q - length (contents q) - 1) xs"
      using Cons.IH [OF q1(2)] by auto
    moreover obtain k where "cap q - length (contents q) = Suc k"
      using less by (metis Suc_diff_Suc)
    ultimately show ?thesis
      using q1 by simp
  qed
qed simp

lemma read_loop_ok:
  "invar q \<Longrightarrow> n = min (length out) (length (contents q)) \<Longrightarrow>
   \<exists>q'. read_loop pop q out = Some (n, take n (contents q) @ drop n out, q') \<and>
     invar q' \<and> cap q' = cap q \<and> contents q' = drop n (contents q)"
proof (induction out arbitrary: q n)
  case (Cons slot out)
  show ?case
  proof (cases "contents q")
    case Nil
    then show ?thesis using Cons.prems by (simp add: pop_empty)
  next
    case (Cons x xs)
    obtain q1 where q1: "pop q = Some (Some x, q1)" "invar q1" "contents q1 = xs" "cap q1 = cap q"
      using pop_ok [OF Cons.prems(1) Cons] by blast
    obtain m where m: "n = Suc m" "m = min (length out) (length (contents q1))"
      using Cons.prems(2) Cons q1(3) by simp
    show ?thesis
      using Cons.IH [OF q1(2) m(2)] q1 m(1) Cons by auto
  qed
qed simp

lemma write_then_read:
  assumes "invar q" "length xs \<le> cap q - length (contents q)"
    and "length out = length (contents q) + length xs"
  shows "\<exists>q1 q2. write_loop push q xs = Some (length xs, q1) \<and>
     read_loop pop q1 out = Some (length out, contents q @ xs, q2) \<and> invar q2 \<and> contents q2 = []"
proof -
  obtain q1 where q1: "write_loop push q xs = Some (length xs, q1)" "invar q1" "contents q1 = contents q @ xs"
    using write_loop_ok [OF assms(1), of xs] assms(2) by (auto simp: min_def)
  then show ?thesis
    using read_loop_ok [OF q1(2), of "length out" out] assms(3) by auto
qed

end

interpretation ring: bounded_fifo ring_invar ring_list ring_capacity ring_push ring_pop RingFull
proof
  fix rb :: "'a RingBuffer" and x :: 'a and xs
  assume inv: "ring_invar rb"
  then show "length (ring_list rb) \<le> ring_capacity rb"
    by (simp add: ring_invar_def)
  show "length (ring_list rb) = ring_capacity rb \<Longrightarrow> ring_push rb x = Some (Inl RingFull, rb)"
    by (simp add: ring_push_full)
  show "ring_list rb = [] \<Longrightarrow> ring_pop rb = Some (None, rb)"
    by (simp add: ring_pop_empty ring_list_def)
  show "length (ring_list rb) < ring_capacity rb \<Longrightarrow> \<exists>q'. ring_push rb x = Some (Inr (), q') \<and>
      ring_invar q' \<and> ring_list q' = ring_list rb @ [x] \<and> ring_capacity q' = ring_capacity rb"
    using ring_push_ok [OF inv] by simp
  show "\<exists>q'. ring_pop rb = Some (Some x, q') \<and> ring_invar q' \<and> ring_list q' = xs \<and>
      ring_capacity q' = ring_capacity rb" if "ring_list rb = x # xs"
    using ring_pop_ok [OF inv] that length_ring_list [of rb] by (simp del: length_ring_list)
qed

abbreviation "kfifo_invar f \<equiv> ring_invar (inner f)"

abbreviation "kfifo_list f \<equiv> ring_list (inner f)"

interpretation kfifo: bounded_fifo kfifo_invar kfifo_list kfifo_capacity kfifo_push kfifo_pop KfifoFull
proof
  fix f :: "'a KFifo" and x :: 'a and xs
  assume inv: "kfifo_invar f"
  then show "length (kfifo_list f) \<le> kfifo_capacity f"
    using ring.within by (simp add: kfifo_capacity_def)
  show "length (kfifo_list f) = kfifo_capacity f \<Longrightarrow> kfifo_push f x = Some (Inl KfifoFull, f)"
    by (simp add: ring.push_full [OF inv] kfifo_capacity_def kfifo_push_def)
  show "kfifo_list f = [] \<Longrightarrow> kfifo_pop f = Some (None, f)"
    by (simp add: ring.pop_empty [OF inv] kfifo_pop_def)
  show "length (kfifo_list f) < kfifo_capacity f \<Longrightarrow> \<exists>q'. kfifo_push f x = Some (Inr (), q') \<and>
      kfifo_invar q' \<and> kfifo_list q' = kfifo_list f @ [x] \<and> kfifo_capacity q' = kfifo_capacity f"
    using ring.push_ok [OF inv, of x] by (auto simp: kfifo_push_def kfifo_capacity_def)
  show "kfifo_list f = x # xs \<Longrightarrow> \<exists>q'. kfifo_pop f = Some (Some x, q') \<and> kfifo_invar q' \<and>
      kfifo_list q' = xs \<and> kfifo_capacity q' = kfifo_capacity f"
    using ring.pop_ok [OF inv, of x xs] by (auto simp: kfifo_pop_def kfifo_capacity_def)
qed

section \<open>Trace refinement\<close>

datatype 'a fifo_op = OpPush 'a | OpPop | OpPopBack | OpPushOverwrite 'a | OpPeek | OpClear

datatype 'a fifo_out = OutResult "RingBufferError + unit" | OutValue "'a option" | OutDone

text \<open>A public operation of the ring buffer, with what it returns.\<close>

fun ring_step :: "'a fifo_op \<Rightarrow> 'a RingBuffer \<Rightarrow> ('a fifo_out \<times> 'a RingBuffer) option" where
  "ring_step (OpPush v) rb = do { (r, rb') \<leftarrow> ring_push rb v; Some (OutResult r, rb') }"
| "ring_step OpPop rb = do { (r, rb') \<leftarrow> ring_pop rb; Some (OutValue r, rb') }"
| "ring_step OpPopBack rb = do { (r, rb') \<leftarrow> ring_pop_back rb; Some (OutValue r, rb') }"
| "ring_step (OpPushOverwrite v) rb = do { (r, rb') \<leftarrow> ring_push_overwrite rb v; Some (OutValue r, rb') }"
| "ring_step OpPeek rb = do { r \<leftarrow> ring_peek rb; Some (OutValue r, rb) }"
| "ring_step OpClear rb = do { rb' \<leftarrow> ring_clear rb; Some (OutDone, rb') }"

text \<open>The same operations on a list of at most \<open>n\<close> elements, the specification.\<close>

fun list_step :: "nat \<Rightarrow> 'a fifo_op \<Rightarrow> 'a list \<Rightarrow> 'a fifo_out \<times> 'a list" where
  "list_step n (OpPush v) xs =
     (if length xs = n then (OutResult (Inl RingFull), xs) else (OutResult (Inr ()), xs @ [v]))"
| "list_step n OpPop xs = (if xs = [] then (OutValue None, xs) else (OutValue (Some (hd xs)), tl xs))"
| "list_step n OpPopBack xs =
     (if xs = [] then (OutValue None, xs) else (OutValue (Some (last xs)), butlast xs))"
| "list_step n (OpPushOverwrite v) xs =
     (if length xs = n then (OutValue (Some (hd xs)), tl xs @ [v]) else (OutValue None, xs @ [v]))"
| "list_step n OpPeek xs = (OutValue (if xs = [] then None else Some (hd xs)), xs)"
| "list_step n OpClear xs = (OutDone, [])"

fun ring_run :: "'a fifo_op list \<Rightarrow> 'a RingBuffer \<Rightarrow> ('a fifo_out list \<times> 'a RingBuffer) option" where
  "ring_run [] rb = Some ([], rb)"
| "ring_run (op # ops) rb = do {
     (out, rb1) \<leftarrow> ring_step op rb;
     (outs, rb2) \<leftarrow> ring_run ops rb1;
     Some (out # outs, rb2)
   }"

fun list_run :: "nat \<Rightarrow> 'a fifo_op list \<Rightarrow> 'a list \<Rightarrow> 'a fifo_out list \<times> 'a list" where
  "list_run n [] xs = ([], xs)"
| "list_run n (op # ops) xs =
     (let (out, ys) = list_step n op xs; (outs, zs) = list_run n ops ys in (out # outs, zs))"

lemma ring_list_Nil_iff: "ring_list rb = [] \<longleftrightarrow> ring_len rb = 0"
  by (metis length_ring_list length_0_conv)

lemma ring_step_refines:
  assumes inv: "ring_invar rb"
  shows "\<exists>out rb'. ring_step op rb = Some (out, rb') \<and> ring_invar rb' \<and>
           ring_capacity rb' = ring_capacity rb \<and>
           list_step (ring_capacity rb) op (ring_list rb) = (out, ring_list rb')"
proof (cases op)
  case (OpPush v)
  show ?thesis
  proof (cases "length (ring_list rb) = ring_capacity rb")
    case True
    then show ?thesis using ring.push_full [OF inv True] inv OpPush by simp
  next
    case False
    then have "length (ring_list rb) < ring_capacity rb"
      using ring.within [OF inv] by simp
    then show ?thesis using ring.push_ok [OF inv, of v] OpPush False by auto
  qed
next
  case OpPop
  show ?thesis
  proof (cases "ring_len rb = 0")
    case True
    then show ?thesis using inv OpPop by (simp add: ring_pop_empty ring_list_Nil_iff)
  next
    case False
    then show ?thesis using ring_pop_ok [OF inv] OpPop by (auto simp: ring_list_Nil_iff)
  qed
next
  case OpPopBack
  show ?thesis
  proof (cases "ring_len rb = 0")
    case True
    then show ?thesis using inv OpPopBack by (simp add: ring_pop_back_empty ring_list_Nil_iff)
  next
    case False
    then show ?thesis using ring_pop_back_ok [OF inv] OpPopBack by (auto simp: ring_list_Nil_iff)
  qed
next
  case (OpPushOverwrite v)
  then show ?thesis
    using ring_push_overwrite_ok [OF inv, of v] by (auto split: if_splits)
next
  case OpPeek
  then show ?thesis
    using ring_peek_ok [OF inv] inv by simp
next
  case OpClear
  then show ?thesis
    using ring_clear_ok [OF inv] by auto
qed

lemma ring_run_refines:
  "ring_invar rb \<Longrightarrow> \<exists>outs rb'. ring_run ops rb = Some (outs, rb') \<and> ring_invar rb' \<and>
     ring_capacity rb' = ring_capacity rb \<and>
     list_run (ring_capacity rb) ops (ring_list rb) = (outs, ring_list rb')"
proof (induction ops arbitrary: rb)
  case (Cons op ops)
  obtain out rb1 where s: "ring_step op rb = Some (out, rb1)" "ring_invar rb1"
      "ring_capacity rb1 = ring_capacity rb"
      "list_step (ring_capacity rb) op (ring_list rb) = (out, ring_list rb1)"
    using ring_step_refines [OF Cons.prems] by blast
  show ?case
    using Cons.IH [OF s(2)] s by auto
qed simp

text \<open>
  C13: a ring buffer created with any non-zero capacity runs every sequence of push, pop, pop_back,
  push_overwrite, peek and clear without a panic, and returns on each call what a list bounded by
  that capacity returns.
\<close>

theorem ring_trace_refinement:
  assumes "ring_with_capacity n = Inr rb"
  shows "\<exists>rb'. ring_run ops rb = Some (fst (list_run n ops []), rb') \<and>
           ring_list rb' = snd (list_run n ops []) \<and> ring_len rb' \<le> n"
proof -
  have init: "ring_invar rb" "ring_list rb = []" "ring_capacity rb = n"
    using ring_with_capacity_invar [OF assms] by auto
  obtain outs rb' where "ring_run ops rb = Some (outs, rb')" "ring_invar rb'"
      "list_run n ops [] = (outs, ring_list rb')" "ring_capacity rb' = n"
    using ring_run_refines [OF init(1), of ops] init by auto
  then show ?thesis
    using ring.within [of rb'] by auto
qed

lemma ring_trace_refinement_witness:
  "\<exists>rb'. ring_run [OpPush 1, OpPush 2, OpPush 3, OpPushOverwrite 4, OpPopBack, OpPop]
       \<lparr>slots = [None, None], read_index = 0, write_index = 0, ring_len = 0\<rparr> =
     Some ([OutResult (Inr ()), OutResult (Inr ()), OutResult (Inl RingFull), OutValue (Some 1),
            OutValue (Some 4), OutValue (Some (2 :: nat))], rb') \<and> ring_list rb' = []"
proof -
  let ?rb = "\<lparr>slots = [None, None], read_index = 0, write_index = 0, ring_len = 0\<rparr>"
  let ?ops = "[OpPush (1 :: nat), OpPush 2, OpPush 3, OpPushOverwrite 4, OpPopBack, OpPop]"
  have init: "ring_with_capacity 2 = Inr (?rb :: nat RingBuffer)"
    by code_simp
  have "list_run 2 ?ops [] = ([OutResult (Inr ()), OutResult (Inr ()), OutResult (Inl RingFull),
      OutValue (Some 1), OutValue (Some 4), OutValue (Some 2)], [])"
    by code_simp
  then show ?thesis
    using ring_trace_refinement [OF init, of ?ops] by (simp only: fst_conv snd_conv) blast
qed

text \<open>
  C14: what \<^verbatim>\<open>in_slice\<close> accepts comes out of \<^verbatim>\<open>out_slice\<close> behind the earlier contents and in order: if the
  source fits in the unused space, all of it is written, and an output buffer as long as the whole
  contents receives the old contents followed by the source and leaves the FIFO empty.
\<close>

theorem kfifo_slice_roundtrip:
  assumes "kfifo_invar f" "length xs \<le> kfifo_unused f" "length out = kfifo_len f + length xs"
  shows "\<exists>f1 f2. kfifo_in_slice f xs = Some (length xs, f1) \<and>
           kfifo_out_slice f1 out = Some (length out, kfifo_list f @ xs, f2) \<and>
           kfifo_invar f2 \<and> kfifo_is_empty f2"
proof -
  have "length xs \<le> ring_capacity (inner f) - length (kfifo_list f)"
    using assms(2) by (simp add: kfifo_unused_def ring_available_write_def)
  moreover have "length out = length (kfifo_list f) + length xs"
    using assms(3) by (simp add: kfifo_len_def)
  ultimately obtain r1 r2 where "write_loop ring_push (inner f) xs = Some (length xs, r1)"
      "read_loop ring_pop r1 out = Some (length out, kfifo_list f @ xs, r2)"
      "ring_invar r2" "ring_list r2 = []"
    using ring.write_then_read [OF assms(1), of xs out] by blast
  then show ?thesis
    by (simp add: kfifo_in_slice_def kfifo_out_slice_def ring_write_slice_def ring_read_slice_def
        kfifo_is_empty_def ring_is_empty_def ring_list_Nil_iff)
qed

lemma kfifo_slice_roundtrip_witness:
  "\<exists>f1 f2. kfifo_in_slice \<lparr>inner = \<lparr>slots = [None, None, Some (7 :: nat)], read_index = 2,
       write_index = 0, ring_len = 1\<rparr>\<rparr> [8, 9] = Some (2, f1) \<and>
     kfifo_out_slice f1 [0, 0, 0] = Some (3, [7, 8, 9], f2) \<and> kfifo_invar f2 \<and> kfifo_is_empty f2"
proof -
  let ?f = "\<lparr>inner = \<lparr>slots = [None, None, Some (7 :: nat)], read_index = 2, write_index = 0, ring_len = 1\<rparr>\<rparr>"
  have "kfifo_invar ?f"
    by code_simp
  moreover have "kfifo_list ?f = [7]"
    by code_simp
  ultimately show ?thesis
    using kfifo_slice_roundtrip [of ?f "[8, 9]" "[0, 0, 0]"]
    by (simp add: kfifo_unused_def kfifo_len_def ring_available_write_def ring_capacity_def
        numeral_2_eq_2 numeral_3_eq_3)
qed

end
