(* ===== verification/Bitmap.thy ===== *)
theory Bitmap
  imports Prelude
begin

text \<open>
  The bitmap of \<^verbatim>\<open>kernel/src/libs/bitmap/mod.rs\<close>: a vector of 64-bit words and the number of
  bits in use. Its contents are the set \<open>bitmap_bits\<close>; the invariant says that the vector has
  exactly the words needed and that the bits behind \<open>nbits\<close> are zero. The locale \<open>bitset\<close> is the
  contract the identifier allocator relies on.
\<close>

unbundle bit_operations_syntax

section \<open>Word scans\<close>

text \<open>\<^verbatim>\<open>usize::trailing_zeros\<close> and \<^verbatim>\<open>usize::count_ones\<close>.\<close>

definition trailing_zeros :: "u64 \<Rightarrow> nat" where
  "trailing_zeros w = (case position (bit w) [0..<64] of Some i \<Rightarrow> i | None \<Rightarrow> 64)"

definition word_count_ones :: "u64 \<Rightarrow> nat" where
  "word_count_ones w = length (filter (bit w) [0..<64])"

section \<open>The bitmap\<close>

record Bitmap =
  bits :: "u64 list"
  nbits :: nat

text \<open>The sum \<^verbatim>\<open>nbits + word_bits - 1\<close> is taken at 64 bits.\<close>

definition bitmap_new :: "nat \<Rightarrow> Bitmap" where
  "bitmap_new n =
     (let words = (if n = 0 then 0 else ((n + 64 - 1) mod 2 ^ 64) div 64)
      in \<lparr>bits = replicate words 0, nbits = n\<rparr>)"

definition bitmap_is_empty :: "Bitmap \<Rightarrow> bool" where
  "bitmap_is_empty b \<longleftrightarrow> nbits b = 0"

definition bitmap_clear_all :: "Bitmap \<Rightarrow> Bitmap" where
  "bitmap_clear_all b = b\<lparr>bits := map (\<lambda>_. 0) (bits b)\<rparr>"

definition mask_tail_bits :: "Bitmap \<Rightarrow> Bitmap" where
  "mask_tail_bits b =
     (if nbits b = 0 then b
      else let used = nbits b mod 64 in
        if used = 0 then b
        else let m = push_bit used 1 - 1 in
          if bits b = [] then b
          else b\<lparr>bits := butlast (bits b) @ [last (bits b) AND m]\<rparr>)"

definition bitmap_set_all :: "Bitmap \<Rightarrow> Bitmap" where
  "bitmap_set_all b = mask_tail_bits (b\<lparr>bits := map (\<lambda>_. - 1) (bits b)\<rparr>)"

definition word_mask :: "Bitmap \<Rightarrow> nat \<Rightarrow> (nat \<times> u64) option" where
  "word_mask b bt =
     (if nbits b \<le> bt then None else Some (bt div 64, push_bit (bt mod 64) 1))"

definition bitmap_set :: "Bitmap \<Rightarrow> nat \<Rightarrow> (bool \<times> Bitmap) option" where
  "bitmap_set b bt =
     (case word_mask b bt of
        None \<Rightarrow> Some (False, b)
      | Some (word, m) \<Rightarrow> do {
          w \<leftarrow> vec_get (bits b) word;
          ws \<leftarrow> vec_set (bits b) word (w OR m);
          Some (True, b\<lparr>bits := ws\<rparr>)
        })"

definition bitmap_clear :: "Bitmap \<Rightarrow> nat \<Rightarrow> (bool \<times> Bitmap) option" where
  "bitmap_clear b bt =
     (case word_mask b bt of
        None \<Rightarrow> Some (False, b)
      | Some (word, m) \<Rightarrow> do {
          w \<leftarrow> vec_get (bits b) word;
          ws \<leftarrow> vec_set (bits b) word (w AND NOT m);
          Some (True, b\<lparr>bits := ws\<rparr>)
        })"

definition bitmap_test :: "Bitmap \<Rightarrow> nat \<Rightarrow> bool option" where
  "bitmap_test b bt =
     (case word_mask b bt of
        None \<Rightarrow> Some False
      | Some (word, m) \<Rightarrow> do {
          w \<leftarrow> vec_get (bits b) word;
          Some (w AND m \<noteq> 0)
        })"

fun find_first_set_from :: "nat \<Rightarrow> nat \<Rightarrow> u64 list \<Rightarrow> nat option" where
  "find_first_set_from n word_index [] = None"
| "find_first_set_from n word_index (word # words) =
     (if word = 0 then find_first_set_from n (word_index + 1) words
      else let bt = word_index * 64 + trailing_zeros word in
        if bt < n then Some bt else find_first_set_from n (word_index + 1) words)"

definition bitmap_find_first_set :: "Bitmap \<Rightarrow> nat option" where
  "bitmap_find_first_set b = find_first_set_from (nbits b) 0 (bits b)"

fun find_first_zero_from :: "nat \<Rightarrow> nat \<Rightarrow> u64 list \<Rightarrow> nat option" where
  "find_first_zero_from n word_index [] = None"
| "find_first_zero_from n word_index (word # words) =
     (if word = - 1 then find_first_zero_from n (word_index + 1) words
      else let bt = word_index * 64 + trailing_zeros (NOT word) in
        if bt < n then Some bt else find_first_zero_from n (word_index + 1) words)"

definition bitmap_find_first_zero :: "Bitmap \<Rightarrow> nat option" where
  "bitmap_find_first_zero b = find_first_zero_from (nbits b) 0 (bits b)"

definition bitmap_count_ones :: "Bitmap \<Rightarrow> nat" where
  "bitmap_count_ones b = sum_list (map word_count_ones (bits b))"

definition bitmap_count_zeros :: "Bitmap \<Rightarrow> nat" where
  "bitmap_count_zeros b = nbits b - bitmap_count_ones b"

definition valid_range :: "Bitmap \<Rightarrow> nat \<Rightarrow> nat \<Rightarrow> bool" where
  "valid_range b start len =
     (if len = 0 \<or> nbits b \<le> start then False
      else case usize_checked_add start len of Some e \<Rightarrow> e \<le> nbits b | None \<Rightarrow> False)"

text \<open>
  The loops over a range of bits. Each takes the bits still to visit; \<open>search\<close> is the loop that
  returns the first bit whose test has the wanted value, \<open>find_run\<close> the one that counts a run
  of clear bits.
\<close>

fun update_bits :: "(Bitmap \<Rightarrow> nat \<Rightarrow> (bool \<times> Bitmap) option) \<Rightarrow> nat list \<Rightarrow> Bitmap \<Rightarrow> Bitmap option" where
  "update_bits f [] b = Some b"
| "update_bits f (bt # rest) b = do { (_, b') \<leftarrow> f b bt; update_bits f rest b' }"

fun search :: "(nat \<Rightarrow> bool option) \<Rightarrow> bool \<Rightarrow> nat list \<Rightarrow> nat option option" where
  "search test wanted [] = Some None"
| "search test wanted (bt # rest) = do {
     t \<leftarrow> test bt;
     if t = wanted then Some (Some bt) else search test wanted rest
   }"

fun find_run :: "(nat \<Rightarrow> bool option) \<Rightarrow> nat \<Rightarrow> nat list \<Rightarrow> nat \<Rightarrow> nat \<Rightarrow> nat option option" where
  "find_run test len [] run run_start = Some None"
| "find_run test len (bt # rest) run run_start = do {
     t \<leftarrow> test bt;
     if \<not> t then
       let run_start' = (if run = 0 then bt else run_start) in
       if run + 1 = len then Some (Some run_start') else find_run test len rest (run + 1) run_start'
     else find_run test len rest 0 run_start
   }"

definition update_range :: "Bitmap \<Rightarrow> nat \<Rightarrow> nat \<Rightarrow> bool \<Rightarrow> (bool \<times> Bitmap) option" where
  "update_range b start len st =
     (if \<not> valid_range b start len then Some (False, b)
      else do {
        b' \<leftarrow> update_bits (if st then bitmap_set else bitmap_clear) [start..<start + len] b;
        Some (True, b')
      })"

definition bitmap_set_range :: "Bitmap \<Rightarrow> nat \<Rightarrow> nat \<Rightarrow> (bool \<times> Bitmap) option" where
  "bitmap_set_range b start len = update_range b start len True"

definition bitmap_clear_range :: "Bitmap \<Rightarrow> nat \<Rightarrow> nat \<Rightarrow> (bool \<times> Bitmap) option" where
  "bitmap_clear_range b start len = update_range b start len False"

definition bitmap_test_all_set :: "Bitmap \<Rightarrow> nat \<Rightarrow> nat \<Rightarrow> bool option" where
  "bitmap_test_all_set b start len =
     (if \<not> valid_range b start len then Some False
      else do { r \<leftarrow> search (bitmap_test b) False [start..<start + len]; Some (r = None) })"

definition bitmap_test_all_clear :: "Bitmap \<Rightarrow> nat \<Rightarrow> nat \<Rightarrow> bool option" where
  "bitmap_test_all_clear b start len =
     (if \<not> valid_range b start len then Some False
      else do { r \<leftarrow> search (bitmap_test b) True [start..<start + len]; Some (r = None) })"

definition bitmap_find_next_set :: "Bitmap \<Rightarrow> nat \<Rightarrow> nat option option" where
  "bitmap_find_next_set b from =
     (if nbits b \<le> from then Some None else search (bitmap_test b) True [from..<nbits b])"

definition bitmap_find_next_zero :: "Bitmap \<Rightarrow> nat \<Rightarrow> nat option option" where
  "bitmap_find_next_zero b from =
     (if nbits b \<le> from then Some None else search (bitmap_test b) False [from..<nbits b])"

definition bitmap_find_contiguous_zeros_from :: "Bitmap \<Rightarrow> nat \<Rightarrow> nat \<Rightarrow> nat option option" where
  "bitmap_find_contiguous_zeros_from b from len =
     (if len = 0 \<or> nbits b = 0 \<or> nbits b \<le> from then Some None
      else find_run (bitmap_test b) len [from..<nbits b] 0 from)"

definition bitmap_find_contiguous_zeros :: "Bitmap \<Rightarrow> nat \<Rightarrow> nat option option" where
  "bitmap_find_contiguous_zeros b len = bitmap_find_contiguous_zeros_from b 0 len"

section \<open>Contents and invariant\<close>

text \<open>Bit \<open>i\<close> of a vector of words.\<close>

definition words_bit :: "u64 list \<Rightarrow> nat \<Rightarrow> bool" where
  "words_bit ws i = bit (ws ! (i div 64)) (i mod 64)"

definition bitmap_bits :: "Bitmap \<Rightarrow> nat set" where
  "bitmap_bits b = {i. i < nbits b \<and> words_bit (bits b) i}"

definition bitmap_invar :: "Bitmap \<Rightarrow> bool" where
  "bitmap_invar b \<longleftrightarrow>
     nbits b + 63 < 2 ^ 64 \<and> length (bits b) = (nbits b + 63) div 64 \<and>
     (\<forall>i < 64 * length (bits b). nbits b \<le> i \<longrightarrow> \<not> words_bit (bits b) i)"

lemma bitmap_index: "bitmap_invar b \<Longrightarrow> i < nbits b \<Longrightarrow> i div 64 < length (bits b)"
  by (auto simp: bitmap_invar_def)

lemma bitmap_bits_less [dest]: "i \<in> bitmap_bits b \<Longrightarrow> i < nbits b"
  by (simp add: bitmap_bits_def)

lemma bitmap_bits_subset: "bitmap_bits b \<subseteq> {..<nbits b}"
  by auto

lemma words_bit_update:
  assumes "i < nbits b" "bitmap_invar b" "j < 64 * length (bits b)"
  shows "words_bit ((bits b)[i div 64 := f (bits b ! (i div 64))]) j =
    (if j div 64 = i div 64 then bit (f (bits b ! (j div 64))) (j mod 64) else words_bit (bits b) j)"
  using bitmap_index [OF assms(2,1)] by (auto simp: words_bit_def)

lemma bit_set_mask: "k < 64 \<Longrightarrow> bit (w OR 2 ^ k :: u64) j \<longleftrightarrow> bit w j \<or> j = k"
  by (auto simp: bit_simps)

lemma bit_clear_mask: "j < 64 \<Longrightarrow> bit (w AND NOT (2 ^ k) :: u64) j \<longleftrightarrow> bit w j \<and> j \<noteq> k"
  by (auto simp: bit_simps)

lemma bit_test_mask: "w AND 2 ^ k = 0 \<longleftrightarrow> \<not> bit (w :: u64) k"
  using bit_iff_and_push_bit_not_eq_0 [of w k] by simp

lemma div_mod_eq_iff: "i div 64 = j div 64 \<and> i mod 64 = j mod 64 \<longleftrightarrow> i = (j :: nat)"
  by (metis div_mult_mod_eq)

lemma bitmap_test_eq:
  assumes "bitmap_invar b"
  shows "bitmap_test b i = Some (i \<in> bitmap_bits b)"
proof (cases "i < nbits b")
  case True
  then show ?thesis
    using bitmap_index [OF assms True]
    by (simp add: bitmap_test_def word_mask_def vec_get_def bitmap_bits_def words_bit_def bit_test_mask)
qed (simp add: bitmap_test_def word_mask_def bitmap_bits_def)

lemma bitmap_set_out: "nbits b \<le> i \<Longrightarrow> bitmap_set b i = Some (False, b)"
  by (simp add: bitmap_set_def word_mask_def)

lemma bitmap_clear_out: "nbits b \<le> i \<Longrightarrow> bitmap_clear b i = Some (False, b)"
  by (simp add: bitmap_clear_def word_mask_def)

lemma bitmap_set_ok:
  assumes inv: "bitmap_invar b" and i: "i < nbits b"
  shows "\<exists>b'. bitmap_set b i = Some (True, b') \<and> bitmap_invar b' \<and> nbits b' = nbits b \<and>
           bitmap_bits b' = insert i (bitmap_bits b)"
proof -
  let ?ws = "(bits b)[i div 64 := bits b ! (i div 64) OR push_bit (i mod 64) 1]"
  have wb: "words_bit ?ws j \<longleftrightarrow> words_bit (bits b) j \<or> j = i" if "j < 64 * length (bits b)" for j
    using words_bit_update [OF i inv that, of "\<lambda>w. w OR push_bit (i mod 64) 1"] div_mod_eq_iff [of j i]
    by (auto simp: bit_set_mask words_bit_def)
  have in_range: "j < 64 * length (bits b)" if "j < nbits b" for j
    using that inv by (auto simp: bitmap_invar_def)
  have "bitmap_set b i = Some (True, b\<lparr>bits := ?ws\<rparr>)"
    using bitmap_index [OF inv i] i by (simp add: bitmap_set_def word_mask_def vec_simps)
  moreover have "bitmap_invar (b\<lparr>bits := ?ws\<rparr>)"
    using inv i wb by (auto simp: bitmap_invar_def)
  moreover have "bitmap_bits (b\<lparr>bits := ?ws\<rparr>) = insert i (bitmap_bits b)"
    using i wb in_range by (auto simp: bitmap_bits_def)
  ultimately show ?thesis by simp
qed

lemma bitmap_clear_ok:
  assumes inv: "bitmap_invar b" and i: "i < nbits b"
  shows "\<exists>b'. bitmap_clear b i = Some (True, b') \<and> bitmap_invar b' \<and> nbits b' = nbits b \<and>
           bitmap_bits b' = bitmap_bits b - {i}"
proof -
  let ?ws = "(bits b)[i div 64 := bits b ! (i div 64) AND NOT (push_bit (i mod 64) 1)]"
  have wb: "words_bit ?ws j \<longleftrightarrow> words_bit (bits b) j \<and> j \<noteq> i" if "j < 64 * length (bits b)" for j
    using words_bit_update [OF i inv that, of "\<lambda>w. w AND NOT (push_bit (i mod 64) 1)"] div_mod_eq_iff [of j i]
    by (auto simp: bit_clear_mask words_bit_def)
  have in_range: "j < 64 * length (bits b)" if "j < nbits b" for j
    using that inv by (auto simp: bitmap_invar_def)
  have "bitmap_clear b i = Some (True, b\<lparr>bits := ?ws\<rparr>)"
    using bitmap_index [OF inv i] i by (simp add: bitmap_clear_def word_mask_def vec_simps)
  moreover have "bitmap_invar (b\<lparr>bits := ?ws\<rparr>)"
    using inv i wb by (auto simp: bitmap_invar_def)
  moreover have "bitmap_bits (b\<lparr>bits := ?ws\<rparr>) = bitmap_bits b - {i}"
    using i wb in_range by (auto simp: bitmap_bits_def)
  ultimately show ?thesis by simp
qed

lemma bitmap_new_ok:
  "n + 63 < 2 ^ 64 \<Longrightarrow> bitmap_invar (bitmap_new n) \<and> nbits (bitmap_new n) = n \<and> bitmap_bits (bitmap_new n) = {}"
  by (auto simp: bitmap_new_def Let_def bitmap_invar_def bitmap_bits_def words_bit_def)

lemma bitmap_clear_all_ok:
  "bitmap_invar b \<Longrightarrow> bitmap_invar (bitmap_clear_all b) \<and> nbits (bitmap_clear_all b) = nbits b \<and>
     bitmap_bits (bitmap_clear_all b) = {}"
  using bitmap_index [of b] by (auto simp: bitmap_clear_all_def bitmap_invar_def bitmap_bits_def words_bit_def)

lemma div64_up: "n mod 64 \<noteq> 0 \<Longrightarrow> (n + 63) div 64 = Suc (n div 64)" for n :: nat
proof -
  have "(64 * q + r + 63) div 64 = Suc q" if "0 < r" "r < 64" for q r :: nat
    using that by (intro div_nat_eqI) auto
  from this [of "n mod 64" "n div 64"] show "n mod 64 \<noteq> 0 \<Longrightarrow> ?thesis" by simp
qed

lemma bitmap_set_all_ok:
  assumes inv: "bitmap_invar b"
  shows "bitmap_invar (bitmap_set_all b) \<and> nbits (bitmap_set_all b) = nbits b \<and>
     bitmap_bits (bitmap_set_all b) = {..<nbits b}"
proof -
  define k where "k = length (bits b)"
  have len: "k = (nbits b + 63) div 64" "nbits b + 63 < 2 ^ 64"
    using inv by (simp_all add: bitmap_invar_def k_def)
  have ones: "map (\<lambda>_. - 1) (bits b) = replicate k (- 1 :: u64)"
    by (simp add: map_replicate_const k_def)
  show ?thesis
  proof (cases "nbits b mod 64 = 0")
    case True
    then have "nbits b = 64 * k" using len by (auto simp: div_add1_eq)
    moreover have "bitmap_set_all b = b\<lparr>bits := replicate k (- 1)\<rparr>"
      using True ones by (simp add: bitmap_set_all_def mask_tail_bits_def)
    ultimately show ?thesis
      using len by (auto simp: bitmap_invar_def bitmap_bits_def words_bit_def less_mult_imp_div_less)
  next
    case False
    let ?m = "2 ^ (nbits b mod 64) - 1 :: u64"
    obtain k' where k': "k = Suc k'" "nbits b = 64 * k' + nbits b mod 64"
    proof
      show "k = Suc (nbits b div 64)"
        using len(1) False by (simp add: div64_up)
      show "nbits b = 64 * (nbits b div 64) + nbits b mod 64"
        by simp
    qed
    have "butlast (replicate (Suc k') (- 1 :: u64)) = replicate k' (- 1)"
      by (metis butlast_snoc replicate_append_same replicate_Suc)
    then have all: "bitmap_set_all b = b\<lparr>bits := replicate k' (- 1) @ [?m]\<rparr>"
      using False ones k'(1)
      by (auto simp: bitmap_set_all_def mask_tail_bits_def simp del: replicate.simps)
    have bit_m: "bit ?m j \<longleftrightarrow> j < nbits b mod 64" if "j < 64" for j
      using that by (simp add: mask_eq_exp_minus_1 [symmetric] bit_mask_iff)
    have "words_bit (replicate k' (- 1) @ [?m]) i \<longleftrightarrow> i < nbits b" if "i < 64 * k" for i
    proof (cases "i div 64 < k'")
      case True
      then have "i < nbits b" using k'(2) by linarith
      then show ?thesis using True by (simp add: words_bit_def nth_append)
    next
      case nless: False
      then have "i div 64 = k'" using that k'(1) by linarith
      moreover from this have "i < nbits b \<longleftrightarrow> i mod 64 < nbits b mod 64"
        using k'(2) div_mult_mod_eq [of i 64] by linarith
      ultimately show ?thesis using bit_m [of "i mod 64"] by (simp add: words_bit_def nth_append)
    qed
    moreover have "i < 64 * k" if "i < nbits b" for i
      using that k' mod_less_divisor [of 64 "nbits b"] by linarith
    ultimately show ?thesis
      using all len k' by (auto simp: bitmap_invar_def bitmap_bits_def)
  qed
qed

section \<open>Range updates\<close>

lemma valid_range_iff:
  "bitmap_invar b \<Longrightarrow> valid_range b start len \<longleftrightarrow> 0 < len \<and> start + len \<le> nbits b"
  by (auto simp: valid_range_def usize_checked_add_def bitmap_invar_def)

lemma update_bits_set:
  "bitmap_invar b \<Longrightarrow> \<forall>i \<in> set is. i < nbits b \<Longrightarrow>
   \<exists>b'. update_bits bitmap_set is b = Some b' \<and> bitmap_invar b' \<and> nbits b' = nbits b \<and>
     bitmap_bits b' = bitmap_bits b \<union> set is"
proof (induction "is" arbitrary: b)
  case (Cons i "is")
  obtain b1 where b1: "bitmap_set b i = Some (True, b1)" "bitmap_invar b1" "nbits b1 = nbits b"
      "bitmap_bits b1 = insert i (bitmap_bits b)"
    using bitmap_set_ok Cons.prems by (metis list.set_intros(1))
  show ?case
    using Cons.IH [OF b1(2)] Cons.prems b1 by auto
qed simp

lemma update_bits_clear:
  "bitmap_invar b \<Longrightarrow> \<forall>i \<in> set is. i < nbits b \<Longrightarrow>
   \<exists>b'. update_bits bitmap_clear is b = Some b' \<and> bitmap_invar b' \<and> nbits b' = nbits b \<and>
     bitmap_bits b' = bitmap_bits b - set is"
proof (induction "is" arbitrary: b)
  case (Cons i "is")
  obtain b1 where b1: "bitmap_clear b i = Some (True, b1)" "bitmap_invar b1" "nbits b1 = nbits b"
      "bitmap_bits b1 = bitmap_bits b - {i}"
    using bitmap_clear_ok Cons.prems by (metis list.set_intros(1))
  show ?case
    using Cons.IH [OF b1(2)] Cons.prems b1 by auto
qed simp

lemma update_range_ok:
  assumes inv: "bitmap_invar b"
  shows "\<exists>b'. update_range b start len st = Some (0 < len \<and> start + len \<le> nbits b, b') \<and>
     bitmap_invar b' \<and> nbits b' = nbits b \<and>
     bitmap_bits b' =
       (if 0 < len \<and> start + len \<le> nbits b
        then if st then bitmap_bits b \<union> {start..<start + len} else bitmap_bits b - {start..<start + len}
        else bitmap_bits b)"
proof (cases "0 < len \<and> start + len \<le> nbits b")
  case True
  then have r: "\<forall>i \<in> set [start..<start + len]. i < nbits b" by auto
  show ?thesis
  proof (cases st)
    case True
    then show ?thesis
      using update_bits_set [OF inv r] \<open>0 < len \<and> start + len \<le> nbits b\<close>
      by (auto simp: update_range_def valid_range_iff [OF inv])
  next
    case False
    then show ?thesis
      using update_bits_clear [OF inv r] \<open>0 < len \<and> start + len \<le> nbits b\<close>
      by (auto simp: update_range_def valid_range_iff [OF inv])
  qed
qed (use inv in \<open>auto simp: update_range_def valid_range_iff [OF inv]\<close>)

section \<open>Searches\<close>

text \<open>\<open>r\<close> is the least number in the range from \<open>a\<close> to \<open>n\<close> that satisfies \<open>P\<close>, if there is one.\<close>

definition first_in :: "(nat \<Rightarrow> bool) \<Rightarrow> nat \<Rightarrow> nat \<Rightarrow> nat option \<Rightarrow> bool" where
  "first_in P a n r =
     (case r of
        None \<Rightarrow> \<forall>i \<in> {a..<n}. \<not> P i
      | Some i \<Rightarrow> a \<le> i \<and> i < n \<and> P i \<and> (\<forall>j \<in> {a..<i}. \<not> P j))"

lemma first_in_unique: "first_in P a n r \<Longrightarrow> first_in P a n r' \<Longrightarrow> r = r'"
  by (auto simp: first_in_def split: option.splits) (meson atLeastLessThan_iff linorder_neqE_nat)

lemma first_in_find: "first_in P a n (List.find P [a..<n])"
proof (cases "List.find P [a..<n]")
  case (Some i)
  then obtain k where "k < n - a" "i = a + k" "P i" "\<forall>j < k. \<not> P (a + j)"
    by (auto simp: find_Some_iff)
  moreover have "\<not> P j" if "j \<in> {a..<a + k}" for j
    using that \<open>\<forall>j < k. \<not> P (a + j)\<close> by (metis atLeastLessThan_iff le_Suc_ex nat_add_left_cancel_less)
  ultimately show ?thesis
    using Some by (auto simp: first_in_def)
qed (simp add: first_in_def, simp add: find_None_iff)

lemma first_in_skip:
  assumes "first_in Q b n r" "a \<le> b" "\<forall>i \<in> {a..<b}. i < n \<longrightarrow> \<not> P i" "\<forall>i \<ge> b. P i \<longleftrightarrow> Q i"
  shows "first_in P a n r"
proof (cases r)
  case None
  then show ?thesis
    using assms by (force simp: first_in_def)
next
  case (Some i)
  moreover have "\<not> P j" if "j \<in> {a..<i}" for j
    using that assms Some by (cases "j < b") (auto simp: first_in_def)
  ultimately show ?thesis
    using assms by (auto simp: first_in_def)
qed

lemma search_eq:
  "\<forall>x \<in> set xs. test x = Some (P x) \<Longrightarrow> search test w xs = Some (List.find (\<lambda>x. P x = w) xs)"
  by (induction xs) auto

lemma search_bitmap:
  "bitmap_invar b \<Longrightarrow>
   search (bitmap_test b) w xs = Some (List.find (\<lambda>x. (x \<in> bitmap_bits b) = w) xs)"
  by (intro search_eq) (simp add: bitmap_test_eq)

lemma bitmap_find_next:
  assumes "bitmap_invar b"
  shows "\<exists>r. bitmap_find_next_set b from = Some r \<and> first_in (\<lambda>i. i \<in> bitmap_bits b) from (nbits b) r"
    and "\<exists>r. bitmap_find_next_zero b from = Some r \<and> first_in (\<lambda>i. i \<notin> bitmap_bits b) from (nbits b) r"
  using first_in_find [of "\<lambda>i. i \<in> bitmap_bits b" "from" "nbits b"]
    first_in_find [of "\<lambda>i. i \<notin> bitmap_bits b" "from" "nbits b"]
  by (auto simp: bitmap_find_next_set_def bitmap_find_next_zero_def search_bitmap [OF assms] first_in_def)

lemma bitmap_test_all:
  assumes "bitmap_invar b"
  shows "bitmap_test_all_set b start len =
      Some (0 < len \<and> start + len \<le> nbits b \<and> {start..<start + len} \<subseteq> bitmap_bits b)"
    and "bitmap_test_all_clear b start len =
      Some (0 < len \<and> start + len \<le> nbits b \<and> {start..<start + len} \<inter> bitmap_bits b = {})"
  by (auto simp: bitmap_test_all_set_def bitmap_test_all_clear_def valid_range_iff [OF assms]
      search_bitmap [OF assms] find_None_iff)

text \<open>
  The run-counting loop at position \<open>p\<close>: the last \<open>run\<close> bits are clear, that run cannot be
  extended to the left, and no clear window of length \<open>len\<close> ends at or before \<open>p\<close>.
\<close>

abbreviation "clear_window P len s \<equiv> \<forall>j \<in> {s..<s + len}. \<not> P j"

lemma find_run_loop:
  assumes "\<forall>i. test i = Some (P i)" "run < len" "a + run \<le> p" "p \<le> n"
    and "0 < run \<longrightarrow> start = p - run" "\<forall>j \<in> {p - run..<p}. \<not> P j"
    and "p - run = a \<or> P (p - run - 1)" "\<forall>s \<ge> a. s + len \<le> p \<longrightarrow> \<not> clear_window P len s"
  shows "\<exists>r. find_run test len [p..<n] run start = Some r \<and> first_in (clear_window P len) a (n + 1 - len) r"
  using assms
proof (induction "n - p" arbitrary: p run start)
  case 0
  then have "p = n" by simp
  with 0 show ?case by (auto simp: first_in_def)
next
  case (Suc k)
  then have less: "p < n" by simp
  then have cons: "[p..<n] = p # [Suc p..<n]" by (rule upt_conv_Cons)
  show ?case
  proof (cases "P p")
    case True
    have "\<not> clear_window P len s" if "a \<le> s" "s + len \<le> Suc p" for s
      using that True Suc.prems(2,8) by (cases "s + len \<le> p") force+
    then have "\<exists>r. find_run test len [Suc p..<n] 0 start = Some r \<and> first_in (clear_window P len) a (n + 1 - len) r"
      using Suc.hyps(2) Suc.prems less True by (intro Suc.hyps(1)) auto
    then show ?thesis
      using True Suc.prems(1) by (simp add: cons)
  next
    case False
    let ?start = "if run = 0 then p else start"
    have start: "?start = Suc p - Suc run"
      using Suc.prems(5) by simp
    have clear: "\<forall>j \<in> {Suc p - Suc run..<Suc p}. \<not> P j"
      using Suc.prems(6) False less_Suc_eq by auto
    show ?thesis
    proof (cases "run + 1 = len")
      case True
      have "Suc p - Suc run + len = Suc p" using Suc.prems(3) True by simp
      then have "first_in (clear_window P len) a (n + 1 - len) (Some (Suc p - Suc run))"
        using True clear less Suc.prems(3,8) by (auto simp: first_in_def)
      then show ?thesis
        using True False Suc.prems(1) start by (auto simp: cons)
    next
      case nfull: False
      have "\<not> clear_window P len s" if "a \<le> s" "s + len \<le> Suc p" for s
      proof (cases "s + len \<le> p")
        case nle: False
        then have "s < p - run" "p - run - 1 < s + len"
          using that nfull Suc.prems(2) by linarith+
        moreover from this have "P (p - run - 1)"
          using that Suc.prems(7) by auto
        ultimately show ?thesis by force
      qed (use that Suc.prems(8) in blast)
      then have "\<exists>r. find_run test len [Suc p..<n] (run + 1) ?start = Some r \<and>
          first_in (clear_window P len) a (n + 1 - len) r"
        using Suc.hyps(2) Suc.prems less nfull start clear by (intro Suc.hyps(1)) auto
      then show ?thesis
        using nfull False Suc.prems(1) by (simp add: cons Let_def)
    qed
  qed
qed

lemma find_run_bitmap:
  assumes "bitmap_invar b" "0 < len" "a \<le> nbits b"
  shows "\<exists>r. find_run (bitmap_test b) len [a..<nbits b] 0 start = Some r \<and>
    first_in (clear_window (\<lambda>i. i \<in> bitmap_bits b) len) a (nbits b + 1 - len) r"
  using assms by (intro find_run_loop) (auto simp: bitmap_test_eq)

lemma trailing_zeros_spec:
  assumes "w \<noteq> 0"
  shows "trailing_zeros w < 64" "bit w (trailing_zeros w)" "j < trailing_zeros w \<Longrightarrow> \<not> bit w j"
proof -
  have "\<exists>n < 64. bit w n"
    using assms by (auto simp: bit_eq_iff)
  then obtain i where i: "position (bit w) [0..<64] = Some i"
    using position_None_iff [of "bit w" "[0..<64]"] by (cases "position (bit w) [0..<64]") auto
  have "trailing_zeros w = i" by (simp add: trailing_zeros_def i)
  then show "trailing_zeros w < 64" "bit w (trailing_zeros w)" "j < trailing_zeros w \<Longrightarrow> \<not> bit w j"
    using position_SomeD [OF i] by auto
qed

lemma words_bit_Cons: "words_bit (w # ws) i = (if i < 64 then bit w i else words_bit ws (i - 64))"
proof (cases "i < 64")
  case False
  then have "i div 64 = Suc ((i - 64) div 64)" "i mod 64 = (i - 64) mod 64"
    by (simp_all add: le_div_geq le_mod_geq)
  then show ?thesis using False by (simp add: words_bit_def)
qed (simp add: words_bit_def)

lemma find_first_set_from_spec:
  "first_in (\<lambda>i. words_bit ws (i - 64 * k)) (64 * k) (min n (64 * (k + length ws)))
     (find_first_set_from n k ws)"
proof (induction ws arbitrary: k)
  case (Cons w ws)
  let ?P = "\<lambda>i. words_bit (w # ws) (i - 64 * k)" and ?n = "min n (64 * (k + length (w # ws)))"
  have skip: "first_in ?P (64 * k) ?n (find_first_set_from n (k + 1) ws)"
    if "\<forall>i < 64. 64 * k + i < n \<longrightarrow> \<not> bit w i"
  proof (rule first_in_skip)
    show "first_in (\<lambda>i. words_bit ws (i - 64 * (k + 1))) (64 * (k + 1)) ?n (find_first_set_from n (k + 1) ws)"
      using Cons.IH [of "k + 1"] by (simp add: algebra_simps)
    show "\<forall>i \<in> {64 * k..<64 * (k + 1)}. i < ?n \<longrightarrow> \<not> ?P i"
      using that by (auto simp: words_bit_Cons)
  qed (auto simp: words_bit_Cons add.commute)
  show ?case
  proof (cases "w = 0")
    case False
    note tz = trailing_zeros_spec [OF False]
    let ?b = "k * 64 + trailing_zeros w"
    show ?thesis
    proof (cases "?b < n")
      case True
      have "\<not> ?P j" if "j \<in> {64 * k..<?b}" for j
      proof -
        have "j - 64 * k < trailing_zeros w" using that by auto
        then show ?thesis using tz(1) tz(3) by (simp add: words_bit_Cons)
      qed
      then have "first_in ?P (64 * k) ?n (Some ?b)"
        using True tz by (auto simp: first_in_def words_bit_Cons)
      then show ?thesis
        using True False by (simp add: Let_def)
    next
      case out: False
      then have "\<forall>i < 64. 64 * k + i < n \<longrightarrow> \<not> bit w i"
        using tz(3) by auto
      then show ?thesis
        using skip out False by (simp add: Let_def)
    qed
  qed (use skip in simp)
qed (simp add: first_in_def)

lemma find_first_zero_from_NOT: "find_first_zero_from n k ws = find_first_set_from n k (map NOT ws)"
proof (induction ws arbitrary: k)
  case (Cons w ws)
  have "w = - 1 \<longleftrightarrow> NOT w = 0" by (metis bit.compl_one bit.double_compl)
  then show ?case using Cons.IH by (simp add: Let_def)
qed simp

lemma bitmap_find_first_set_spec:
  assumes "bitmap_invar b"
  shows "first_in (\<lambda>i. i \<in> bitmap_bits b) 0 (nbits b) (bitmap_find_first_set b)"
proof -
  have "nbits b \<le> 64 * length (bits b)"
    using assms by (simp add: bitmap_invar_def)
  then have "first_in (words_bit (bits b)) 0 (nbits b) (bitmap_find_first_set b)"
    using find_first_set_from_spec [of "bits b" 0 "nbits b"] by (simp add: bitmap_find_first_set_def min_def)
  then show ?thesis
    by (auto simp: first_in_def bitmap_bits_def split: option.splits)
qed

lemma bitmap_find_first_zero_spec:
  assumes inv: "bitmap_invar b"
  shows "first_in (\<lambda>i. i \<notin> bitmap_bits b) 0 (nbits b) (bitmap_find_first_zero b)"
proof -
  have "nbits b \<le> 64 * length (bits b)"
    using inv by (simp add: bitmap_invar_def)
  then have "first_in (words_bit (map NOT (bits b))) 0 (nbits b) (bitmap_find_first_zero b)"
    using find_first_set_from_spec [of "map NOT (bits b)" 0 "nbits b"]
    by (simp add: bitmap_find_first_zero_def find_first_zero_from_NOT min_def)
  moreover have "words_bit (map NOT (bits b)) i \<longleftrightarrow> i \<notin> bitmap_bits b" if "i < nbits b" for i
    using bitmap_index [OF inv that] that by (simp add: words_bit_def bitmap_bits_def bit_not_iff)
  ultimately show ?thesis
    by (auto simp: first_in_def split: option.splits)
qed

lemma word_count_ones_card: "word_count_ones w = card {i. i < 64 \<and> bit w i}"
proof -
  have "distinct (filter (bit w) [0..<64])" by simp
  moreover have "set (filter (bit w) [0..<64]) = {i. i < 64 \<and> bit w i}" by auto
  ultimately show ?thesis
    unfolding word_count_ones_def by (metis distinct_card)
qed

lemma sum_count_ones:
  "sum_list (map word_count_ones ws) = card {i. i < 64 * length ws \<and> words_bit ws i}"
proof (induction ws)
  case (Cons w ws)
  let ?A = "{i. i < 64 \<and> bit w i}" and ?B = "{i. i < 64 * length ws \<and> words_bit ws i}"
  have "{i. i < 64 * length (w # ws) \<and> words_bit (w # ws) i} = ?A \<union> (+) 64 ` ?B"
  proof (intro set_eqI iffI)
    fix i assume i: "i \<in> {i. i < 64 * length (w # ws) \<and> words_bit (w # ws) i}"
    then show "i \<in> ?A \<union> (+) 64 ` ?B"
      by (cases "i < 64") (auto simp: words_bit_Cons intro!: image_eqI [of _ _ "i - 64"])
  qed (auto simp: words_bit_Cons)
  moreover have "?A \<inter> (+) 64 ` ?B = {}" by auto
  ultimately show ?case
    using Cons.IH by (simp add: card_Un_disjoint card_image word_count_ones_card)
qed simp

lemma bitmap_count_ones_card:
  assumes "bitmap_invar b"
  shows "bitmap_count_ones b = card (bitmap_bits b)"
proof -
  have "{i. i < 64 * length (bits b) \<and> words_bit (bits b) i} = bitmap_bits b"
    using assms by (auto simp: bitmap_bits_def bitmap_invar_def not_le [symmetric])
  then show ?thesis
    by (simp add: bitmap_count_ones_def sum_count_ones)
qed

section \<open>The bit set contract\<close>

locale bitset =
  fixes invar :: "'b \<Rightarrow> bool"
    and contents :: "'b \<Rightarrow> nat set"
    and extent :: "'b \<Rightarrow> nat"
    and test :: "'b \<Rightarrow> nat \<Rightarrow> bool option"
    and set_bit :: "'b \<Rightarrow> nat \<Rightarrow> (bool \<times> 'b) option"
    and clear_bit :: "'b \<Rightarrow> nat \<Rightarrow> (bool \<times> 'b) option"
    and first_zero :: "'b \<Rightarrow> nat option"
  assumes contents_bound: "invar b \<Longrightarrow> contents b \<subseteq> {..<extent b}"
    and test_eq: "invar b \<Longrightarrow> test b i = Some (i \<in> contents b)"
    and set_ok: "invar b \<Longrightarrow> i < extent b \<Longrightarrow> \<exists>b'. set_bit b i = Some (True, b') \<and> invar b' \<and>
      extent b' = extent b \<and> contents b' = insert i (contents b)"
    and clear_ok: "invar b \<Longrightarrow> i < extent b \<Longrightarrow> \<exists>b'. clear_bit b i = Some (True, b') \<and> invar b' \<and>
      extent b' = extent b \<and> contents b' = contents b - {i}"
    and first_zero_ok: "invar b \<Longrightarrow> first_in (\<lambda>i. i \<notin> contents b) 0 (extent b) (first_zero b)"
begin

lemma exhausted: "invar b \<Longrightarrow> first_zero b = None \<longleftrightarrow> contents b = {..<extent b}"
  using first_zero_ok [of b] contents_bound [of b] by (auto simp: first_in_def split: option.splits)

lemma claim_lowest:
  assumes "invar b" "first_zero b = Some i"
  shows "i < extent b" "i \<notin> contents b" "{..<i} \<subseteq> contents b"
    and "\<exists>b'. set_bit b i = Some (True, b') \<and> invar b' \<and> extent b' = extent b \<and>
           contents b' = insert i (contents b)"
proof -
  show i: "i < extent b" "i \<notin> contents b" "{..<i} \<subseteq> contents b"
    using first_zero_ok [OF assms(1)] assms(2) by (auto simp: first_in_def)
  show "\<exists>b'. set_bit b i = Some (True, b') \<and> invar b' \<and> extent b' = extent b \<and>
           contents b' = insert i (contents b)"
    by (rule set_ok [OF assms(1) i(1)])
qed

lemma claim_then_release:
  assumes "invar b" "first_zero b = Some i"
  shows "\<exists>b1 b2. set_bit b i = Some (True, b1) \<and> clear_bit b1 i = Some (True, b2) \<and> invar b2 \<and>
           contents b2 = contents b \<and> first_zero b2 = Some i"
proof -
  obtain b1 where b1: "set_bit b i = Some (True, b1)" "invar b1" "extent b1 = extent b"
      "contents b1 = insert i (contents b)"
    using claim_lowest(4) [OF assms] by blast
  obtain b2 where b2: "clear_bit b1 i = Some (True, b2)" "invar b2" "extent b2 = extent b"
      "contents b2 = contents b"
    using clear_ok [OF b1(2), of i] claim_lowest(1,2) [OF assms] b1 by auto
  have "first_zero b2 = first_zero b"
    using first_zero_ok [OF assms(1)] first_zero_ok [OF b2(2)] b2(3,4) first_in_unique by metis
  then show ?thesis using b1 b2 assms(2) by simp
qed

end

interpretation bm: bitset bitmap_invar bitmap_bits nbits bitmap_test bitmap_set bitmap_clear bitmap_find_first_zero
  by unfold_locales
    (auto simp: bitmap_test_eq bitmap_set_ok bitmap_clear_ok bitmap_find_first_zero_spec)

lemma bitmap_invar_word:
  assumes "0 < n" "n < 64" "unat w < 2 ^ n"
  shows "bitmap_invar \<lparr>bits = [w], nbits = n\<rparr>"
proof -
  have "take_bit n (unat w) = unat w" using assms by (simp add: take_bit_nat_eq_self)
  then have "bit (unat w) i \<Longrightarrow> i < n" for i by (metis bit_take_bit_iff)
  then have "bit w i \<Longrightarrow> i < n" for i by (simp add: bit_unsigned_iff possible_bit_def)
  moreover have "(n + 63) div 64 = 1" using assms by (intro div_nat_eqI) auto
  ultimately show ?thesis
    using assms(2) by (fastforce simp: bitmap_invar_def words_bit_def)
qed

section \<open>Properties\<close>

text \<open>
  C15: the word-at-a-time scans agree with the bit-at-a-time ones: on a well-formed bitmap
  find_first_zero (find_first_set) returns what find_next_zero (find_next_set) from bit 0 returns, and
  these do not panic.
\<close>

theorem bitmap_scan_equivalence:
  assumes "bitmap_invar b"
  shows "bitmap_find_next_zero b 0 = Some (bitmap_find_first_zero b) \<and>
         bitmap_find_next_set b 0 = Some (bitmap_find_first_set b)"
proof -
  obtain r r' where "bitmap_find_next_zero b 0 = Some r" "bitmap_find_next_set b 0 = Some r'"
      "first_in (\<lambda>i. i \<notin> bitmap_bits b) 0 (nbits b) r" "first_in (\<lambda>i. i \<in> bitmap_bits b) 0 (nbits b) r'"
    using bitmap_find_next [OF assms, of 0] by blast
  then show ?thesis
    using first_in_unique [OF _ bitmap_find_first_zero_spec [OF assms]]
      first_in_unique [OF _ bitmap_find_first_set_spec [OF assms]] by simp
qed

lemma bitmap_scan_equivalence_witness:
  "bitmap_find_next_zero \<lparr>bits = [7], nbits = 40\<rparr> 0 = Some (Some 3)"
proof -
  have "bitmap_invar \<lparr>bits = [7], nbits = 40\<rparr>"
    by (rule bitmap_invar_word) simp_all
  moreover have "bitmap_find_first_zero \<lparr>bits = [7], nbits = 40\<rparr> = Some 3"
    by code_simp
  ultimately show ?thesis using bitmap_scan_equivalence by metis
qed

text \<open>
  C16: find_contiguous_zeros_from is a first-fit search: it does not panic, and its answer is the
  lowest start at or above \<open>from\<close> of \<open>len\<close> clear bits that lie inside the bitmap, or nothing when there
  is no such start; setting the range found marks exactly its bits.
\<close>

theorem bitmap_first_fit:
  assumes inv: "bitmap_invar b" and len: "0 < len"
  shows "\<exists>r. bitmap_find_contiguous_zeros_from b from len = Some r \<and>
    (case r of
       None \<Rightarrow> \<nexists>s. from \<le> s \<and> s + len \<le> nbits b \<and> {s..<s + len} \<inter> bitmap_bits b = {}
     | Some s \<Rightarrow> from \<le> s \<and> s + len \<le> nbits b \<and> {s..<s + len} \<inter> bitmap_bits b = {} \<and>
         (\<nexists>t. from \<le> t \<and> t < s \<and> {t..<t + len} \<inter> bitmap_bits b = {}) \<and>
         (\<exists>b'. bitmap_set_range b s len = Some (True, b') \<and> bitmap_invar b' \<and>
            bitmap_bits b' = bitmap_bits b \<union> {s..<s + len}))"
proof (cases "nbits b \<le> from")
  case True
  then show ?thesis
    using len by (auto simp: bitmap_find_contiguous_zeros_from_def)
next
  case False
  then obtain r where r: "bitmap_find_contiguous_zeros_from b from len = Some r"
      "first_in (clear_window (\<lambda>i. i \<in> bitmap_bits b) len) from (nbits b + 1 - len) r"
    using find_run_bitmap [OF inv len, of "from" "from"] len by (auto simp: bitmap_find_contiguous_zeros_from_def)
  have disj: "clear_window (\<lambda>i. i \<in> bitmap_bits b) len t \<longleftrightarrow> {t..<t + len} \<inter> bitmap_bits b = {}" for t
    by auto
  show ?thesis
  proof (cases r)
    case None
    then show ?thesis using r by (auto simp: first_in_def disj)
  next
    case (Some s)
    moreover have "s + len \<le> nbits b" using r Some by (auto simp: first_in_def)
    moreover have "\<exists>b'. bitmap_set_range b s len = Some (True, b') \<and> bitmap_invar b' \<and>
            bitmap_bits b' = bitmap_bits b \<union> {s..<s + len}"
      using update_range_ok [OF inv, of s len True] len \<open>s + len \<le> nbits b\<close>
      by (auto simp: bitmap_set_range_def)
    ultimately show ?thesis using r by (auto simp: first_in_def disj)
  qed
qed

lemma bitmap_first_fit_witness:
  "\<exists>s. bitmap_find_contiguous_zeros_from \<lparr>bits = [19], nbits = 8\<rparr> 1 2 = Some (Some s) \<and> s = 2 \<and>
     {s..<s + 2} \<inter> bitmap_bits \<lparr>bits = [19], nbits = 8\<rparr> = {}"
proof -
  let ?b = "\<lparr>bits = [19], nbits = 8\<rparr>"
  have inv: "bitmap_invar ?b"
    by (rule bitmap_invar_word) simp_all
  have "bitmap_find_contiguous_zeros_from ?b 1 2 = Some (Some 2)" by code_simp
  then show ?thesis
    using bitmap_first_fit [OF inv, of 2 1] by simp
qed



end
