(* ===== verification/Id_Allocator.thy ===== *)
theory Id_Allocator
  imports Bitmap
begin

text \<open>
  The identifier allocator of \<^verbatim>\<open>kernel/src/libs/id_allocator/mod.rs\<close>: a base and a bitmap. An
  identifier is a 64-bit word, \<^verbatim>\<open>base + index\<close> with wrap-around; the specification is a set of
  natural numbers, the identifiers in use. It is proved on top of the contract \<open>bitset\<close>.
\<close>

datatype IdAllocError = InvalidRange | Exhausted | OutOfRange | AlreadyAllocated | NotAllocated

record IdAllocator =
  id_base :: u64
  id_bitmap :: Bitmap

definition idalloc_new :: "u64 \<Rightarrow> nat \<Rightarrow> IdAllocError + IdAllocator" where
  "idalloc_new base count =
     (if count = 0 then Inl InvalidRange else Inr \<lparr>id_base = base, id_bitmap = bitmap_new count\<rparr>)"

definition idalloc_capacity :: "IdAllocator \<Rightarrow> nat" where
  "idalloc_capacity a = nbits (id_bitmap a)"

definition idalloc_allocated :: "IdAllocator \<Rightarrow> nat" where
  "idalloc_allocated a = bitmap_count_ones (id_bitmap a)"

definition idalloc_available :: "IdAllocator \<Rightarrow> nat" where
  "idalloc_available a = idalloc_capacity a - idalloc_allocated a"

definition index_of :: "IdAllocator \<Rightarrow> u64 \<Rightarrow> IdAllocError + nat" where
  "index_of a i =
     (if i < id_base a then Inl OutOfRange
      else let index = unat (i - id_base a) in
        if idalloc_capacity a \<le> index then Inl OutOfRange else Inr index)"

definition idalloc_alloc :: "IdAllocator \<Rightarrow> ((IdAllocError + u64) \<times> IdAllocator) option" where
  "idalloc_alloc a =
     (case bitmap_find_first_zero (id_bitmap a) of
        None \<Rightarrow> Some (Inl Exhausted, a)
      | Some index \<Rightarrow> do {
          (_, bm) \<leftarrow> bitmap_set (id_bitmap a) index;
          Some (Inr (id_base a + of_nat index), a\<lparr>id_bitmap := bm\<rparr>)
        })"

definition idalloc_alloc_specific ::
    "IdAllocator \<Rightarrow> u64 \<Rightarrow> ((IdAllocError + unit) \<times> IdAllocator) option" where
  "idalloc_alloc_specific a i =
     (case index_of a i of
        Inl e \<Rightarrow> Some (Inl e, a)
      | Inr index \<Rightarrow> do {
          t \<leftarrow> bitmap_test (id_bitmap a) index;
          if t then Some (Inl AlreadyAllocated, a)
          else do {
            (_, bm) \<leftarrow> bitmap_set (id_bitmap a) index;
            Some (Inr (), a\<lparr>id_bitmap := bm\<rparr>)
          }
        })"

definition idalloc_free :: "IdAllocator \<Rightarrow> u64 \<Rightarrow> ((IdAllocError + unit) \<times> IdAllocator) option" where
  "idalloc_free a i =
     (case index_of a i of
        Inl e \<Rightarrow> Some (Inl e, a)
      | Inr index \<Rightarrow> do {
          t \<leftarrow> bitmap_test (id_bitmap a) index;
          if \<not> t then Some (Inl NotAllocated, a)
          else do {
            (_, bm) \<leftarrow> bitmap_clear (id_bitmap a) index;
            Some (Inr (), a\<lparr>id_bitmap := bm\<rparr>)
          }
        })"

definition idalloc_alloc_range ::
    "IdAllocator \<Rightarrow> nat \<Rightarrow> ((IdAllocError + u64) \<times> IdAllocator) option" where
  "idalloc_alloc_range a count =
     (if count = 0 \<or> idalloc_capacity a < count then Some (Inl InvalidRange, a)
      else do {
        found \<leftarrow> find_run (bitmap_test (id_bitmap a)) count [0..<idalloc_capacity a] 0 0;
        (case found of
           None \<Rightarrow> Some (Inl Exhausted, a)
         | Some start \<Rightarrow> do {
             bm \<leftarrow> update_bits bitmap_set [start..<start + count] (id_bitmap a);
             Some (Inr (id_base a + of_nat start), a\<lparr>id_bitmap := bm\<rparr>)
           })
      })"

definition idalloc_free_range ::
    "IdAllocator \<Rightarrow> u64 \<Rightarrow> nat \<Rightarrow> ((IdAllocError + unit) \<times> IdAllocator) option" where
  "idalloc_free_range a start_id count =
     (if count = 0 then Some (Inl InvalidRange, a)
      else case index_of a start_id of
        Inl e \<Rightarrow> Some (Inl e, a)
      | Inr start \<Rightarrow>
          (case usize_checked_add start count of
             None \<Rightarrow> Some (Inl OutOfRange, a)
           | Some e \<Rightarrow>
               if idalloc_capacity a < e then Some (Inl OutOfRange, a)
               else do {
                 missing \<leftarrow> search (bitmap_test (id_bitmap a)) False [start..<e];
                 (case missing of
                    Some _ \<Rightarrow> Some (Inl NotAllocated, a)
                  | None \<Rightarrow> do {
                      bm \<leftarrow> update_bits bitmap_clear [start..<e] (id_bitmap a);
                      Some (Inr (), a\<lparr>id_bitmap := bm\<rparr>)
                    })
               }))"

definition idalloc_first_allocated :: "IdAllocator \<Rightarrow> u64 option" where
  "idalloc_first_allocated a =
     map_option (\<lambda>index. id_base a + of_nat index) (bitmap_find_first_set (id_bitmap a))"

definition idalloc_first_free :: "IdAllocator \<Rightarrow> u64 option" where
  "idalloc_first_free a =
     map_option (\<lambda>index. id_base a + of_nat index) (bitmap_find_first_zero (id_bitmap a))"

definition idalloc_is_allocated :: "IdAllocator \<Rightarrow> u64 \<Rightarrow> bool option" where
  "idalloc_is_allocated a i =
     (case index_of a i of Inl _ \<Rightarrow> Some False | Inr index \<Rightarrow> bitmap_test (id_bitmap a) index)"

definition idalloc_clear :: "IdAllocator \<Rightarrow> IdAllocator" where
  "idalloc_clear a = a\<lparr>id_bitmap := bitmap_clear_all (id_bitmap a)\<rparr>"

section \<open>Identifiers in use\<close>

definition idalloc_ids :: "IdAllocator \<Rightarrow> nat set" where
  "idalloc_ids a = (\<lambda>i. unat (id_base a) + i) ` bitmap_bits (id_bitmap a)"

definition idalloc_span :: "IdAllocator \<Rightarrow> nat set" where
  "idalloc_span a = {unat (id_base a)..<unat (id_base a) + idalloc_capacity a}"

text \<open>The identifiers do not wrap around the address width.\<close>

definition idalloc_invar :: "IdAllocator \<Rightarrow> bool" where
  "idalloc_invar a \<longleftrightarrow> bitmap_invar (id_bitmap a) \<and> unat (id_base a) + idalloc_capacity a \<le> 2 ^ 64"

lemma idalloc_new_ok:
  "idalloc_new base count = Inr a \<Longrightarrow> count + 63 < 2 ^ 64 \<Longrightarrow> unat base + count \<le> 2 ^ 64 \<Longrightarrow>
   idalloc_invar a \<and> idalloc_ids a = {} \<and> idalloc_capacity a = count \<and> id_base a = base"
  using bitmap_new_ok [of count]
  by (auto simp: idalloc_new_def idalloc_invar_def idalloc_ids_def idalloc_capacity_def split: if_splits)

lemma unat_id:
  assumes "idalloc_invar a" "i < idalloc_capacity a"
  shows "unat (id_base a + of_nat i) = unat (id_base a) + i"
proof -
  have "unat (of_nat i :: u64) = i"
    using assms by (simp add: idalloc_invar_def unat_of_nat)
  then show ?thesis
    using assms by (simp add: idalloc_invar_def unat_add_no_wrap)
qed

lemma ids_iff [simp]: "unat (id_base a) + i \<in> idalloc_ids a \<longleftrightarrow> i \<in> bitmap_bits (id_bitmap a)"
  by (auto simp: idalloc_ids_def)

lemma index_of_cases:
  assumes "idalloc_invar a"
  obtains (out) "index_of a i = Inl OutOfRange" "unat i \<notin> idalloc_span a"
    | (inside) k where "index_of a i = Inr k" "k < idalloc_capacity a" "unat i = unat (id_base a) + k"
proof (cases "index_of a i")
  case (Inl e)
  then show ?thesis
    using that(1) by (auto simp: index_of_def Let_def idalloc_span_def word_less_nat_alt unat_sub_if' split: if_splits)
next
  case (Inr k)
  then show ?thesis
    using that(2) [of k] by (auto simp: index_of_def Let_def word_less_nat_alt unat_sub_if' split: if_splits)
qed

lemma ids_in_span: "idalloc_invar a \<Longrightarrow> idalloc_ids a \<subseteq> idalloc_span a"
  by (auto simp: idalloc_ids_def idalloc_span_def idalloc_capacity_def)

lemma ids_update:
  "idalloc_ids (a\<lparr>id_bitmap := bm\<rparr>) = (\<lambda>i. unat (id_base a) + i) ` bitmap_bits bm"
  by (simp add: idalloc_ids_def)

lemma invar_update:
  "idalloc_invar a \<Longrightarrow> bitmap_invar bm \<Longrightarrow> nbits bm = nbits (id_bitmap a) \<Longrightarrow>
   idalloc_invar (a\<lparr>id_bitmap := bm\<rparr>) \<and> idalloc_span (a\<lparr>id_bitmap := bm\<rparr>) = idalloc_span a"
  by (simp add: idalloc_invar_def idalloc_capacity_def idalloc_span_def)

section \<open>Operations against the set of identifiers\<close>

datatype id_op = OpAlloc | OpAllocSpecific u64 | OpFree u64 | OpAllocRange nat | OpFreeRange u64 nat

text \<open>A public operation; the result of an operation that returns no identifier is \<open>None\<close>.\<close>

fun id_step :: "id_op \<Rightarrow> IdAllocator \<Rightarrow> ((IdAllocError + u64 option) \<times> IdAllocator) option" where
  "id_step OpAlloc a = do { (r, a') \<leftarrow> idalloc_alloc a; Some (map_sum id Some r, a') }"
| "id_step (OpAllocSpecific i) a =
     do { (r, a') \<leftarrow> idalloc_alloc_specific a i; Some (map_sum id (\<lambda>_. None) r, a') }"
| "id_step (OpFree i) a = do { (r, a') \<leftarrow> idalloc_free a i; Some (map_sum id (\<lambda>_. None) r, a') }"
| "id_step (OpAllocRange n) a = do { (r, a') \<leftarrow> idalloc_alloc_range a n; Some (map_sum id Some r, a') }"
| "id_step (OpFreeRange i n) a =
     do { (r, a') \<leftarrow> idalloc_free_range a i n; Some (map_sum id (\<lambda>_. None) r, a') }"

text \<open>
  The specification: \<open>span\<close> is the interval of identifiers, \<open>S\<close> and \<open>S'\<close> those in use before and
  after, \<open>r\<close> the result.
\<close>

fun id_spec :: "nat set \<Rightarrow> id_op \<Rightarrow> nat set \<Rightarrow> IdAllocError + u64 option \<Rightarrow> nat set \<Rightarrow> bool" where
  "id_spec span OpAlloc S r S' =
     (if span \<subseteq> S then r = Inl Exhausted \<and> S' = S
      else \<exists>i. r = Inr (Some i) \<and> unat i \<in> span - S \<and> S' = insert (unat i) S \<and>
             (\<forall>j \<in> span. j < unat i \<longrightarrow> j \<in> S))"
| "id_spec span (OpAllocSpecific i) S r S' =
     (if unat i \<notin> span then r = Inl OutOfRange \<and> S' = S
      else if unat i \<in> S then r = Inl AlreadyAllocated \<and> S' = S
      else r = Inr None \<and> S' = insert (unat i) S)"
| "id_spec span (OpFree i) S r S' =
     (if unat i \<notin> span then r = Inl OutOfRange \<and> S' = S
      else if unat i \<notin> S then r = Inl NotAllocated \<and> S' = S
      else r = Inr None \<and> S' = S - {unat i})"
| "id_spec span (OpAllocRange n) S r S' =
     (if n = 0 \<or> card span < n then r = Inl InvalidRange \<and> S' = S
      else if \<nexists>k. {k..<k + n} \<subseteq> span - S then r = Inl Exhausted \<and> S' = S
      else \<exists>i. r = Inr (Some i) \<and> {unat i..<unat i + n} \<subseteq> span - S \<and> S' = S \<union> {unat i..<unat i + n} \<and>
             (\<forall>k. {k..<k + n} \<subseteq> span - S \<longrightarrow> unat i \<le> k))"
| "id_spec span (OpFreeRange i n) S r S' =
     (if n = 0 then r = Inl InvalidRange \<and> S' = S
      else if \<not> {unat i..<unat i + n} \<subseteq> span then r = Inl OutOfRange \<and> S' = S
      else if \<not> {unat i..<unat i + n} \<subseteq> S then r = Inl NotAllocated \<and> S' = S
      else r = Inr None \<and> S' = S - {unat i..<unat i + n})"

text \<open>The operation \<open>op\<close> does not panic, keeps the invariant and meets the specification.\<close>

definition id_op_ok :: "id_op \<Rightarrow> IdAllocator \<Rightarrow> bool" where
  "id_op_ok op a \<longleftrightarrow>
     (\<exists>r a'. id_step op a = Some (r, a') \<and> idalloc_invar a' \<and> idalloc_span a' = idalloc_span a \<and>
        id_spec (idalloc_span a) op (idalloc_ids a) r (idalloc_ids a'))"

lemma id_op_okI:
  assumes "id_step op a = Some (r, a\<lparr>id_bitmap := bm\<rparr>)" "idalloc_invar a" "bitmap_invar bm"
    and "nbits bm = nbits (id_bitmap a)"
    and "id_spec (idalloc_span a) op (idalloc_ids a) r ((\<lambda>i. unat (id_base a) + i) ` bitmap_bits bm)"
  shows "id_op_ok op a"
  using assms invar_update by (auto simp: id_op_ok_def ids_update)

lemma id_op_ok_same:
  assumes "id_step op a = Some (r, a)" "idalloc_invar a" "id_spec (idalloc_span a) op (idalloc_ids a) r (idalloc_ids a)"
  shows "id_op_ok op a"
  using assms by (auto simp: id_op_ok_def)

lemma ids_image:
  "(\<lambda>i. unat (id_base a) + i) ` bitmap_bits (id_bitmap a) = idalloc_ids a"
  "(\<lambda>i. unat (id_base a) + i) ` (bitmap_bits (id_bitmap a) - K) =
     idalloc_ids a - (\<lambda>i. unat (id_base a) + i) ` K"
  by (auto simp: idalloc_ids_def)

lemma span_iff: "unat (id_base a) + i \<in> idalloc_span a \<longleftrightarrow> i < idalloc_capacity a"
  by (auto simp: idalloc_span_def)

lemma alloc_ok:
  assumes inv: "idalloc_invar a"
  shows "id_op_ok OpAlloc a"
proof -
  have bm: "bitmap_invar (id_bitmap a)"
    using inv by (simp add: idalloc_invar_def)
  show ?thesis
  proof (cases "bitmap_find_first_zero (id_bitmap a)")
    case None
    then have "bitmap_bits (id_bitmap a) = {..<idalloc_capacity a}"
      using bm.exhausted [OF bm] by (simp add: idalloc_capacity_def)
    then have "idalloc_span a \<subseteq> idalloc_ids a"
      by (auto simp: idalloc_span_def idalloc_ids_def image_iff) (metis add_diff_inverse_nat lessThan_iff
          linorder_not_less nat_add_left_cancel_less)
    then show ?thesis
      using None inv by (intro id_op_ok_same) (auto simp: idalloc_alloc_def)
  next
    case (Some k)
    note k = bm.claim_lowest [OF bm Some]
    obtain b where b: "bitmap_set (id_bitmap a) k = Some (True, b)" "bitmap_invar b"
        "nbits b = nbits (id_bitmap a)" "bitmap_bits b = insert k (bitmap_bits (id_bitmap a))"
      using k(4) by blast
    have id: "unat (id_base a + of_nat k) = unat (id_base a) + k"
      using unat_id [OF inv] k(1) by (simp add: idalloc_capacity_def)
    have "j \<in> idalloc_ids a" if "j \<in> idalloc_span a" "j < unat (id_base a) + k" for j
      using that k(3) by (auto simp: idalloc_span_def idalloc_ids_def image_iff)
        (metis add_diff_inverse_nat lessThan_iff linorder_not_less nat_add_left_cancel_less subsetD)
    moreover have "unat (id_base a) + k \<in> idalloc_span a - idalloc_ids a"
      using k(1,2) by (simp add: span_iff idalloc_capacity_def)
    ultimately show ?thesis
      using Some b inv id by (intro id_op_okI [of _ _ "Inr (Some (id_base a + of_nat k))" b])
        (auto simp: idalloc_alloc_def idalloc_ids_def)
  qed
qed

lemma alloc_specific_ok:
  assumes inv: "idalloc_invar a"
  shows "id_op_ok (OpAllocSpecific i) a"
proof -
  have bm: "bitmap_invar (id_bitmap a)"
    using inv by (simp add: idalloc_invar_def)
  from inv show ?thesis
  proof (cases rule: index_of_cases [where i = i])
    case out
    then show ?thesis
      using inv by (intro id_op_ok_same) (auto simp: idalloc_alloc_specific_def)
  next
    case (inside k)
    then have span: "unat i \<in> idalloc_span a" by (simp add: span_iff)
    obtain b where b: "bitmap_set (id_bitmap a) k = Some (True, b)" "bitmap_invar b"
        "nbits b = nbits (id_bitmap a)" "bitmap_bits b = insert k (bitmap_bits (id_bitmap a))"
      using bm.set_ok [OF bm] inside(2) by (auto simp: idalloc_capacity_def)
    show ?thesis
    proof (cases "k \<in> bitmap_bits (id_bitmap a)")
      case True
      then show ?thesis
        using inside span inv
        by (intro id_op_ok_same) (auto simp: idalloc_alloc_specific_def bitmap_test_eq [OF bm])
    next
      case False
      then show ?thesis
        using inside b inv span by (intro id_op_okI [of _ _ "Inr None" b])
          (simp_all add: idalloc_alloc_specific_def bitmap_test_eq [OF bm] ids_image)
    qed
  qed
qed

lemma free_ok:
  assumes inv: "idalloc_invar a"
  shows "id_op_ok (OpFree i) a"
proof -
  have bm: "bitmap_invar (id_bitmap a)"
    using inv by (simp add: idalloc_invar_def)
  from inv show ?thesis
  proof (cases rule: index_of_cases [where i = i])
    case out
    then show ?thesis
      using inv by (intro id_op_ok_same) (auto simp: idalloc_free_def)
  next
    case (inside k)
    then have span: "unat i \<in> idalloc_span a" by (simp add: span_iff)
    obtain b where b: "bitmap_clear (id_bitmap a) k = Some (True, b)" "bitmap_invar b"
        "nbits b = nbits (id_bitmap a)" "bitmap_bits b = bitmap_bits (id_bitmap a) - {k}"
      using bm.clear_ok [OF bm] inside(2) by (auto simp: idalloc_capacity_def)
    show ?thesis
    proof (cases "k \<in> bitmap_bits (id_bitmap a)")
      case False
      then show ?thesis
        using inside span inv
        by (intro id_op_ok_same) (auto simp: idalloc_free_def bitmap_test_eq [OF bm])
    next
      case True
      then show ?thesis
        using inside b inv span by (intro id_op_okI [of _ _ "Inr None" b])
          (simp_all add: idalloc_free_def bitmap_test_eq [OF bm] ids_image)
    qed
  qed
qed

lemma window_in_span:
  assumes "0 < n"
  shows "{k..<k + n} \<subseteq> idalloc_span a \<longleftrightarrow>
    (\<exists>s. k = unat (id_base a) + s \<and> s + n \<le> idalloc_capacity a)"
proof -
  have "{k..<k + n} \<subseteq> idalloc_span a \<longleftrightarrow>
      unat (id_base a) \<le> k \<and> k + n \<le> unat (id_base a) + idalloc_capacity a"
    using assms by (auto simp: idalloc_span_def ivl_subset)
  then show ?thesis by (auto simp: le_iff_add)
qed

lemma window_shift: "{unat (id_base a) + s..<unat (id_base a) + s + n} = (\<lambda>i. unat (id_base a) + i) ` {s..<s + n}"
  by (simp add: image_add_atLeastLessThan ac_simps)

lemma inj_plus: "inj (\<lambda>i. (b :: nat) + i)"
  by (rule injI) simp

lemma window_free:
  assumes "0 < n"
  shows "{k..<k + n} \<subseteq> idalloc_span a - idalloc_ids a \<longleftrightarrow>
    (\<exists>s. k = unat (id_base a) + s \<and> s + n \<le> idalloc_capacity a \<and>
       clear_window (\<lambda>i. i \<in> bitmap_bits (id_bitmap a)) n s)"
proof -
  have "{unat (id_base a) + s..<unat (id_base a) + s + n} \<inter> idalloc_ids a = {} \<longleftrightarrow>
      clear_window (\<lambda>i. i \<in> bitmap_bits (id_bitmap a)) n s" for s
    unfolding window_shift idalloc_ids_def image_Int [OF inj_plus, symmetric] by auto
  moreover have "{k..<k + n} \<subseteq> idalloc_span a - idalloc_ids a \<longleftrightarrow>
      {k..<k + n} \<subseteq> idalloc_span a \<and> {k..<k + n} \<inter> idalloc_ids a = {}"
    by blast
  ultimately show ?thesis
    using window_in_span [OF assms, of k a] by metis
qed

lemma alloc_range_ok:
  assumes inv: "idalloc_invar a"
  shows "id_op_ok (OpAllocRange n) a"
proof (cases "n = 0 \<or> idalloc_capacity a < n")
  case True
  then show ?thesis
    using inv by (intro id_op_ok_same) (auto simp: idalloc_alloc_range_def idalloc_span_def)
next
  case False
  then have n: "0 < n" by simp
  have bm: "bitmap_invar (id_bitmap a)"
    using inv by (simp add: idalloc_invar_def)
  have card: "card (idalloc_span a) = idalloc_capacity a"
    by (simp add: idalloc_span_def)
  obtain r where r: "find_run (bitmap_test (id_bitmap a)) n [0..<idalloc_capacity a] 0 0 = Some r"
      "first_in (clear_window (\<lambda>i. i \<in> bitmap_bits (id_bitmap a)) n) 0 (idalloc_capacity a + 1 - n) r"
    using find_run_bitmap [OF bm n, of 0 0] by (auto simp: idalloc_capacity_def)
  show ?thesis
  proof (cases r)
    case None
    then have "\<nexists>k. {k..<k + n} \<subseteq> idalloc_span a - idalloc_ids a"
      using r(2) False unfolding window_free [OF n] by (auto simp: first_in_def)
    then show ?thesis
      using False inv r(1) None card by (intro id_op_ok_same) (simp_all add: idalloc_alloc_range_def)
  next
    case (Some s)
    then have s: "s + n \<le> idalloc_capacity a" "clear_window (\<lambda>i. i \<in> bitmap_bits (id_bitmap a)) n s"
      using r(2) by (auto simp: first_in_def)
    then have "\<forall>i \<in> set [s..<s + n]. i < nbits (id_bitmap a)"
      by (auto simp: idalloc_capacity_def)
    then obtain b where b: "update_bits bitmap_set [s..<s + n] (id_bitmap a) = Some b" "bitmap_invar b"
        "nbits b = nbits (id_bitmap a)" "bitmap_bits b = bitmap_bits (id_bitmap a) \<union> {s..<s + n}"
      using update_bits_set [OF bm] by (metis atLeastLessThan_upt)
    have id: "unat (id_base a + of_nat s) = unat (id_base a) + s"
      using s(1) n by (intro unat_id [OF inv]) simp
    have free: "{unat (id_base a) + s..<unat (id_base a) + s + n} \<subseteq> idalloc_span a - idalloc_ids a"
      using s window_free [OF n] by blast
    have least: "unat (id_base a) + s \<le> k" if "{k..<k + n} \<subseteq> idalloc_span a - idalloc_ids a" for k
    proof -
      obtain t where "k = unat (id_base a) + t" "clear_window (\<lambda>i. i \<in> bitmap_bits (id_bitmap a)) n t"
        using \<open>{k..<k + n} \<subseteq> _\<close> unfolding window_free [OF n] by blast
      then show ?thesis
        using r(2) Some by (auto simp: first_in_def not_less [symmetric])
    qed
    have "id_spec (idalloc_span a) (OpAllocRange n) (idalloc_ids a) (Inr (Some (id_base a + of_nat s)))
        ((\<lambda>i. unat (id_base a) + i) ` bitmap_bits b)"
      using False free least card id unfolding b(4) image_Un ids_image window_shift [symmetric]
      by auto
    then show ?thesis
      using False r(1) Some b inv
      by (intro id_op_okI [of _ _ "Inr (Some (id_base a + of_nat s))" b]) (simp_all add: idalloc_alloc_range_def)
  qed
qed

lemma free_range_inside_ok:
  assumes inv: "idalloc_invar a" and n: "0 < n" and k: "k + n \<le> idalloc_capacity a"
    and idx: "index_of a i = Inr k" "unat i = unat (id_base a) + k"
  shows "id_op_ok (OpFreeRange i n) a"
proof -
  have bm: "bitmap_invar (id_bitmap a)" "idalloc_capacity a < 2 ^ 64"
    using inv by (auto simp: idalloc_invar_def bitmap_invar_def idalloc_capacity_def)
  have span: "{unat i..<unat i + n} \<subseteq> idalloc_span a"
    unfolding idx(2) window_in_span [OF n] using k by simp
  have sub: "{unat i..<unat i + n} \<subseteq> idalloc_ids a \<longleftrightarrow> {k..<k + n} \<subseteq> bitmap_bits (id_bitmap a)"
    unfolding idx(2) window_shift idalloc_ids_def by (simp add: inj_image_subset_iff inj_plus del: image_add_atLeastLessThan)
  have ca: "usize_checked_add k n = Some (k + n)"
    using k bm(2) by (simp add: usize_checked_add_def)
  let ?found = "List.find (\<lambda>x. x \<notin> bitmap_bits (id_bitmap a)) [k..<k + n]"
  have srch: "search (bitmap_test (id_bitmap a)) False [k..<k + n] = Some ?found"
    by (simp add: search_bitmap [OF bm(1)])
  have found: "?found = None \<longleftrightarrow> {k..<k + n} \<subseteq> bitmap_bits (id_bitmap a)"
    by (auto simp: find_None_iff)
  show ?thesis
  proof (cases ?found)
    case (Some j)
    then have "id_step (OpFreeRange i n) a = Some (Inl NotAllocated, a)"
      using k n idx ca srch by (simp add: idalloc_free_range_def)
    then show ?thesis
      using inv n span sub Some found by (intro id_op_ok_same) simp_all
  next
    case None
    have "\<forall>j \<in> set [k..<k + n]. j < nbits (id_bitmap a)"
      using k by (auto simp: idalloc_capacity_def)
    then obtain b where b: "update_bits bitmap_clear [k..<k + n] (id_bitmap a) = Some b" "bitmap_invar b"
        "nbits b = nbits (id_bitmap a)" "bitmap_bits b = bitmap_bits (id_bitmap a) - {k..<k + n}"
      using update_bits_clear [OF bm(1)] by (metis atLeastLessThan_upt)
    have "id_step (OpFreeRange i n) a = Some (Inr None, a\<lparr>id_bitmap := b\<rparr>)"
      using k n idx ca srch b(1) None by (simp add: idalloc_free_range_def)
    moreover have "(\<lambda>j. unat (id_base a) + j) ` bitmap_bits b = idalloc_ids a - {unat i..<unat i + n}"
      unfolding b(4) ids_image idx(2) window_shift ..
    ultimately show ?thesis
      using inv n span sub None found b by (intro id_op_okI [of _ _ "Inr None" b]) simp_all
  qed
qed

lemma free_range_ok:
  assumes inv: "idalloc_invar a"
  shows "id_op_ok (OpFreeRange i n) a"
proof (cases "n = 0")
  case True
  then show ?thesis
    using inv by (intro id_op_ok_same) (auto simp: idalloc_free_range_def)
next
  case False
  then have n: "0 < n" "unat i \<in> {unat i..<unat i + n}" by simp_all
  from inv show ?thesis
  proof (cases rule: index_of_cases [where i = i])
    case out
    then have "\<not> {unat i..<unat i + n} \<subseteq> idalloc_span a" using n by blast
    then show ?thesis
      using inv out n by (intro id_op_ok_same) (simp_all add: idalloc_free_range_def)
  next
    case (inside k)
    show ?thesis
    proof (cases "k + n \<le> idalloc_capacity a")
      case nle: False
      then have "\<not> {unat i..<unat i + n} \<subseteq> idalloc_span a"
        unfolding inside(3) window_in_span [OF n(1)] by simp
      moreover have "id_step (OpFreeRange i n) a = Some (Inl OutOfRange, a)"
        using nle n inside by (auto simp: idalloc_free_range_def usize_checked_add_def)
      ultimately show ?thesis
        using inv n by (intro id_op_ok_same) simp_all
    qed (use free_range_inside_ok [OF inv n(1)] inside in blast)
  qed
qed

section \<open>Properties\<close>



text \<open>
  Without the bound on the base the allocator hands out identifiers it cannot take back: with base
  \<open>2 ^ 64 - 1\<close> the second identifier wraps to 0, which free rejects.
\<close>

lemma idalloc_wrapped_id_not_freed:
  "\<exists>a a1 a2. idalloc_new (- 1) 2 = Inr a \<and> idalloc_alloc a = Some (Inr (- 1), a1) \<and>
     idalloc_alloc a1 = Some (Inr 0, a2) \<and> idalloc_free a2 0 = Some (Inl OutOfRange, a2)"
proof (intro exI conjI)
  show "idalloc_new (- 1) 2 = Inr \<lparr>id_base = - 1, id_bitmap = \<lparr>bits = [0], nbits = 2\<rparr>\<rparr>"
    by (simp add: idalloc_new_def bitmap_new_def)
  show "idalloc_alloc \<lparr>id_base = - 1, id_bitmap = \<lparr>bits = [0], nbits = 2\<rparr>\<rparr> =
      Some (Inr (- 1), \<lparr>id_base = - 1, id_bitmap = \<lparr>bits = [1], nbits = 2\<rparr>\<rparr>)"
    by (simp add: idalloc_alloc_def bitmap_find_first_zero_def trailing_zeros_def bitmap_set_def
        word_mask_def vec_simps upt_conv_Cons)
  show "idalloc_alloc \<lparr>id_base = - 1, id_bitmap = \<lparr>bits = [1], nbits = 2\<rparr>\<rparr> =
      Some (Inr 0, \<lparr>id_base = - 1, id_bitmap = \<lparr>bits = [3], nbits = 2\<rparr>\<rparr>)"
    by (simp add: idalloc_alloc_def bitmap_find_first_zero_def trailing_zeros_def bitmap_set_def
        word_mask_def vec_simps upt_conv_Cons)
  show "idalloc_free \<lparr>id_base = - 1, id_bitmap = \<lparr>bits = [3], nbits = 2\<rparr>\<rparr> 0 =
      Some (Inl OutOfRange, \<lparr>id_base = - 1, id_bitmap = \<lparr>bits = [3], nbits = 2\<rparr>\<rparr>)"
    by (simp add: idalloc_free_def index_of_def word_less_nat_alt)
qed

end
