(* ===== verification/Wait_Queue.thy ===== *)
theory Wait_Queue
  imports Prelude
begin

text \<open>
  The wait queue of \<^verbatim>\<open>kernel/src/libs/wait_queue/mod.rs\<close>: a double-ended queue of entries, one
  per waiting token. The operations are modelled with the predicates of the conditional wake-ups
  as functions; a step relation collects the operations that change the queue and carries the
  invariant that a token waits at most once.
\<close>

datatype WaitState = Sleeping | Woken | Interrupted

datatype WaitMode = Exclusive | Shared

record WaitEntry =
  token :: u64
  state :: WaitState
  mode :: WaitMode

type_synonym WaitQueue = "WaitEntry list"

definition wait_entry_new :: "u64 \<Rightarrow> WaitMode \<Rightarrow> WaitEntry" where
  "wait_entry_new t m = \<lparr>token = t, state = Sleeping, mode = m\<rparr>"

definition is_sleeping :: "WaitEntry \<Rightarrow> bool" where
  "is_sleeping e \<longleftrightarrow> state e = Sleeping"

definition wq_new :: WaitQueue where
  "wq_new = []"

definition wq_len :: "WaitQueue \<Rightarrow> nat" where
  "wq_len q = length q"

definition wq_is_empty :: "WaitQueue \<Rightarrow> bool" where
  "wq_is_empty q \<longleftrightarrow> q = []"

definition wq_sleeping_count :: "WaitQueue \<Rightarrow> nat" where
  "wq_sleeping_count q = length (filter is_sleeping q)"

definition wq_contains :: "WaitQueue \<Rightarrow> u64 \<Rightarrow> bool" where
  "wq_contains q t \<longleftrightarrow> list_ex (\<lambda>e. token e = t) q"

definition wq_enqueue_mode :: "WaitQueue \<Rightarrow> u64 \<Rightarrow> WaitMode \<Rightarrow> WaitQueue" where
  "wq_enqueue_mode q t m = (if wq_contains q t then q else q @ [wait_entry_new t m])"

definition wq_enqueue :: "WaitQueue \<Rightarrow> u64 \<Rightarrow> WaitQueue" where
  "wq_enqueue q t = wq_enqueue_mode q t Shared"

text \<open>\<^verbatim>\<open>VecDeque::remove\<close> returns \<^verbatim>\<open>None\<close> out of range and does not panic.\<close>

definition deque_remove :: "'a list \<Rightarrow> nat \<Rightarrow> 'a option \<times> 'a list" where
  "deque_remove q i = (if i < length q then (Some (q ! i), take i q @ drop (Suc i) q) else (None, q))"

definition wq_dequeue :: "WaitQueue \<Rightarrow> u64 \<Rightarrow> WaitEntry option \<times> WaitQueue" where
  "wq_dequeue q t =
     (case position (\<lambda>e. token e = t) q of
        None \<Rightarrow> (None, q)
      | Some index \<Rightarrow> deque_remove q index)"

text \<open>The first entry of the token, found through \<^verbatim>\<open>iter_mut().find\<close>, is updated in place.\<close>

fun wq_mark_interrupted :: "WaitQueue \<Rightarrow> u64 \<Rightarrow> bool \<times> WaitQueue" where
  "wq_mark_interrupted [] t = (False, [])"
| "wq_mark_interrupted (e # q) t =
     (if token e = t then (True, e\<lparr>state := Interrupted\<rparr> # q)
      else let (r, q') = wq_mark_interrupted q t in (r, e # q'))"

definition wq_wake_one_if :: "(WaitEntry \<Rightarrow> bool) \<Rightarrow> WaitQueue \<Rightarrow> WaitEntry option \<times> WaitQueue" where
  "wq_wake_one_if P q =
     (case position (\<lambda>e. is_sleeping e \<and> P e) q of
        None \<Rightarrow> (None, q)
      | Some index \<Rightarrow>
          (case deque_remove q index of
             (None, q') \<Rightarrow> (None, q')
           | (Some e, q') \<Rightarrow> (Some (e\<lparr>state := Woken\<rparr>), q')))"

definition wq_wake_one :: "WaitQueue \<Rightarrow> WaitEntry option \<times> WaitQueue" where
  "wq_wake_one q = wq_wake_one_if (\<lambda>_. True) q"

text \<open>The \<^verbatim>\<open>while let Some(entry) = queue.pop_front()\<close> loop with its two output queues.\<close>

fun wake_all_loop ::
    "(WaitEntry \<Rightarrow> bool) \<Rightarrow> WaitQueue \<Rightarrow> WaitQueue \<Rightarrow> WaitEntry list \<Rightarrow> WaitEntry list \<times> WaitQueue" where
  "wake_all_loop P [] retained woke = (woke, retained)"
| "wake_all_loop P (e # q) retained woke =
     (if is_sleeping e \<and> P e then wake_all_loop P q retained (woke @ [e\<lparr>state := Woken\<rparr>])
      else wake_all_loop P q (retained @ [e]) woke)"

definition wq_wake_all_if :: "(WaitEntry \<Rightarrow> bool) \<Rightarrow> WaitQueue \<Rightarrow> WaitEntry list \<times> WaitQueue" where
  "wq_wake_all_if P q = wake_all_loop P q [] []"

definition wq_wake_all :: "WaitQueue \<Rightarrow> WaitEntry list \<times> WaitQueue" where
  "wq_wake_all q = wq_wake_all_if (\<lambda>_. True) q"

definition wq_drain_woken :: "WaitQueue \<Rightarrow> nat \<times> WaitQueue" where
  "wq_drain_woken q =
     (let before = length q; q' = filter (\<lambda>e. state e \<noteq> Woken) q in (before - length q', q'))"

definition wq_clear :: "WaitQueue \<Rightarrow> WaitQueue" where
  "wq_clear q = []"

section \<open>Operations on well-formed queues\<close>

text \<open>A token waits at most once, and no queued entry is already woken.\<close>

definition wq_invar :: "WaitQueue \<Rightarrow> bool" where
  "wq_invar q \<longleftrightarrow> distinct (map token q) \<and> (\<forall>e \<in> set q. state e \<noteq> Woken)"

inductive wq_step :: "WaitQueue \<Rightarrow> WaitQueue \<Rightarrow> bool" where
  step_enqueue: "wq_step q (wq_enqueue_mode q t m)"
| step_dequeue: "wq_step q (snd (wq_dequeue q t))"
| step_interrupt: "wq_step q (snd (wq_mark_interrupted q t))"
| step_wake_one: "wq_step q (snd (wq_wake_one_if P q))"
| step_wake_all: "wq_step q (snd (wq_wake_all_if P q))"
| step_drain: "wq_step q (snd (wq_drain_woken q))"
| step_clear: "wq_step q (wq_clear q)"

inductive_cases wq_stepE: "wq_step q q'"

lemma wake_all_loop_eq:
  "wake_all_loop P q retained woke =
     (woke @ map (\<lambda>e. e\<lparr>state := Woken\<rparr>) (filter (\<lambda>e. is_sleeping e \<and> P e) q),
      retained @ filter (\<lambda>e. \<not> (is_sleeping e \<and> P e)) q)"
  by (induction q arbitrary: retained woke) auto

lemma deque_remove_position:
  assumes "position Q q = Some i"
  shows "\<exists>pre e post. q = pre @ e # post \<and> Q e \<and> (\<forall>x \<in> set pre. \<not> Q x) \<and>
           deque_remove q i = (Some e, pre @ post)"
proof (intro exI conjI)
  note i = position_SomeD [OF assms]
  show "q = take i q @ q ! i # drop (Suc i) q"
    by (rule nth_split [OF i(1)])
  show "Q (q ! i)" by (rule i(2))
  show "\<forall>x \<in> set (take i q). \<not> Q x"
    using i(1,3) by (auto simp: in_set_conv_nth)
  show "deque_remove q i = (Some (q ! i), take i q @ drop (Suc i) q)"
    using i(1) by (simp add: deque_remove_def)
qed

lemma mark_interrupted_tokens:
  "map token (snd (wq_mark_interrupted q t)) = map token q"
  by (induction q) (auto split: prod.splits)

lemma mark_interrupted_not_woken:
  "\<forall>e \<in> set q. state e \<noteq> Woken \<Longrightarrow> \<forall>e \<in> set (snd (wq_mark_interrupted q t)). state e \<noteq> Woken"
  by (induction q) (auto split: prod.splits)

lemma deque_remove_invar:
  assumes "wq_invar q" "deque_remove q i = (r, q')"
  shows "wq_invar q'"
proof (cases "i < length q")
  case True
  then obtain pre e post where "q = pre @ e # post" "q' = pre @ post"
    using assms(2) nth_split [OF True] by (auto simp: deque_remove_def)
  then show ?thesis
    using assms(1) by (auto simp: wq_invar_def)
qed (use assms in \<open>auto simp: deque_remove_def\<close>)

lemma filter_invar: "wq_invar q \<Longrightarrow> wq_invar (filter P q)"
  by (auto simp: wq_invar_def distinct_map_filter)

lemma wq_step_invar: "wq_step q q' \<Longrightarrow> wq_invar q \<Longrightarrow> wq_invar q'"
proof (induction rule: wq_step.induct)
  case (step_enqueue q t m)
  then show ?case
    by (auto simp: wq_enqueue_mode_def wq_contains_def list_ex_iff wq_invar_def wait_entry_new_def)
next
  case (step_dequeue q t)
  then show ?case
    using deque_remove_invar by (auto simp: wq_dequeue_def split: option.splits) (metis prod.collapse)
next
  case (step_interrupt q t)
  then show ?case
    using mark_interrupted_not_woken [of q t] by (simp add: wq_invar_def mark_interrupted_tokens)
next
  case (step_wake_one q P)
  then show ?case
    using deque_remove_invar by (auto simp: wq_wake_one_if_def split: option.splits prod.splits)
qed (auto simp: wq_wake_all_if_def wake_all_loop_eq wq_drain_woken_def wq_clear_def filter_invar
      wq_invar_def [of "[]"] Let_def)

section \<open>Properties\<close>

text \<open>
  C18: in every state reached from the empty queue by any sequence of enqueue, dequeue,
  mark_interrupted, wake, drain and clear calls, no token is queued twice, dequeue removes the token
  for good, and drain_woken finds nothing to remove, because wake-ups take their entries out.
\<close>

theorem wait_queue_reachable:
  assumes "wq_step\<^sup>*\<^sup>* wq_new q"
  shows "distinct (map token q) \<and> \<not> wq_contains (snd (wq_dequeue q t)) t \<and> wq_drain_woken q = (0, q)"
proof -
  have inv: "wq_invar q"
    using assms
  proof (induction rule: rtranclp_induct)
    case base
    then show ?case by (simp add: wq_new_def wq_invar_def)
  next
    case (step y z)
    then show ?case using wq_step_invar by blast
  qed
  have "\<not> wq_contains (snd (wq_dequeue q t)) t"
  proof (cases "position (\<lambda>e. token e = t) q")
    case None
    then have "wq_dequeue q t = (None, q)"
      by (simp add: wq_dequeue_def)
    moreover have "\<forall>e \<in> set q. token e \<noteq> t"
      using None by (simp add: position_None_iff)
    ultimately show ?thesis
      by (auto simp: wq_contains_def list_ex_iff)
  next
    case (Some i)
    then obtain pre e post where "q = pre @ e # post" "token e = t" "deque_remove q i = (Some e, pre @ post)"
      using deque_remove_position by blast
    then show ?thesis
      using inv Some by (auto simp: wq_dequeue_def wq_contains_def list_ex_iff wq_invar_def) (metis image_eqI)+
  qed
  moreover have "filter (\<lambda>e. state e \<noteq> Woken) q = q"
    using inv by (simp add: wq_invar_def)
  ultimately show ?thesis
    using inv by (simp add: wq_invar_def wq_drain_woken_def Let_def)
qed

lemma wait_queue_reachable_witness:
  "wq_step\<^sup>*\<^sup>* wq_new (snd (wq_mark_interrupted (wq_enqueue_mode (wq_enqueue_mode wq_new 1 Shared) 2 Exclusive) 1)) \<and>
   distinct (map token (snd (wq_mark_interrupted (wq_enqueue_mode (wq_enqueue_mode wq_new 1 Shared) 2 Exclusive) 1)))"
proof -
  let ?q = "snd (wq_mark_interrupted (wq_enqueue_mode (wq_enqueue_mode wq_new 1 Shared) 2 Exclusive) 1)"
  have "wq_step\<^sup>*\<^sup>* wq_new ?q"
    by (meson rtranclp.rtrancl_into_rtrancl rtranclp.rtrancl_refl step_enqueue step_interrupt)
  then show ?thesis using wait_queue_reachable by blast
qed

text \<open>
  C19: waking all matching waiters is waking one until none is left: wake_one_if takes the first
  sleeping entry that satisfies the predicate, in queue order, and wake_all_if returns that entry
  followed by what it would return on the rest; when wake_one_if finds nothing, wake_all_if returns
  nothing and leaves the queue as it is.
\<close>

theorem wake_all_iterates_wake_one:
  "case wq_wake_one_if P q of
     (None, q') \<Rightarrow> q' = q \<and> wq_wake_all_if P q = ([], q)
   | (Some e, q') \<Rightarrow>
       (\<exists>pre e0 post. q = pre @ e0 # post \<and> q' = pre @ post \<and> e = e0\<lparr>state := Woken\<rparr> \<and>
          is_sleeping e0 \<and> P e0 \<and> filter (\<lambda>x. is_sleeping x \<and> P x) pre = []) \<and>
       wq_wake_all_if P q = (e # fst (wq_wake_all_if P q'), snd (wq_wake_all_if P q'))"
proof (cases "position (\<lambda>e. is_sleeping e \<and> P e) q")
  case None
  then have "\<forall>e \<in> set q. \<not> (is_sleeping e \<and> P e)" by (simp add: position_None_iff)
  then show ?thesis
    using None by (simp add: wq_wake_one_if_def wq_wake_all_if_def wake_all_loop_eq)
next
  case (Some i)
  then obtain pre e post where q: "q = pre @ e # post" "is_sleeping e \<and> P e"
      "\<forall>x \<in> set pre. \<not> (is_sleeping x \<and> P x)" "deque_remove q i = (Some e, pre @ post)"
    using deque_remove_position by blast
  then have pre: "filter (\<lambda>x. is_sleeping x \<and> P x) pre = []" by (simp add: filter_empty_conv)
  have "wq_wake_one_if P q = (Some (e\<lparr>state := Woken\<rparr>), pre @ post)"
    using Some q(4) by (simp add: wq_wake_one_if_def)
  moreover have "wq_wake_all_if P q =
      (e\<lparr>state := Woken\<rparr> # fst (wq_wake_all_if P (pre @ post)), snd (wq_wake_all_if P (pre @ post)))"
    using q(1,2) pre by (simp add: wq_wake_all_if_def wake_all_loop_eq)
  ultimately show ?thesis
    using q(1,2) pre by simp blast
qed

end
