(* ===== verification/BTree.thy ===== *)
theory BTree
  imports Prelude
begin

text \<open>
  The B-tree of \<^verbatim>\<open>kernel/src/libs/btree/tree.rs\<close>. A node is the struct: a leaf flag, the keys,
  the values and the children; every vector access that the code makes is bounds-checked here, so
  \<open>None\<close> is a panic. The specification is a sorted association list, the in-order contents of the
  tree. The proofs are in \<open>BTree_Proofs\<close>.
\<close>

section \<open>Nodes\<close>

datatype ('k, 'v) BTreeNode =
  Node (is_leaf: bool) (node_keys: "'k list") (node_values: "'v list")
    (node_children: "('k, 'v) BTreeNode list")

definition B :: nat where
  "B = 16"

definition MIN_KEYS :: nat where
  "MIN_KEYS = B div 2 - 1"

definition MAX_KEYS :: nat where
  "MAX_KEYS = B - 1"

definition new_leaf :: "('k, 'v) BTreeNode" where
  "new_leaf = Node True [] [] []"

definition new_internal :: "('k, 'v) BTreeNode" where
  "new_internal = Node False [] [] []"

definition is_full :: "('k, 'v) BTreeNode \<Rightarrow> bool" where
  "is_full n \<longleftrightarrow> MAX_KEYS \<le> length (node_keys n)"

definition is_underflow :: "('k, 'v) BTreeNode \<Rightarrow> bool" where
  "is_underflow n \<longleftrightarrow> length (node_keys n) < MIN_KEYS"

record ('k, 'v) BTree =
  root :: "('k, 'v) BTreeNode"
  bt_len :: nat

definition btree_new :: "('k, 'v) BTree" where
  "btree_new = \<lparr>root = new_leaf, bt_len = 0\<rparr>"

definition btree_is_empty :: "('k, 'v) BTree \<Rightarrow> bool" where
  "btree_is_empty t \<longleftrightarrow> bt_len t = 0"

text \<open>\<^verbatim>\<open>keys.iter().position(|k| k > key).unwrap_or(keys.len())\<close>, the child to descend into.\<close>

definition child_index :: "'k::linorder list \<Rightarrow> 'k \<Rightarrow> nat" where
  "child_index ks key = (case position (\<lambda>k. key < k) ks of Some i \<Rightarrow> i | None \<Rightarrow> length ks)"

text \<open>The height of a node bounds the recursions below.\<close>

fun height :: "('k, 'v) BTreeNode \<Rightarrow> nat" where
  "height (Node l ks vs cs) = foldr max (map (\<lambda>c. Suc (height c)) cs) 0"

lemma foldr_max_le_iff: "foldr max xs (0 :: nat) \<le> m \<longleftrightarrow> (\<forall>x \<in> set xs. x \<le> m)"
  by (induction xs) auto

lemma height_le_iff: "height (Node l ks vs cs) \<le> m \<longleftrightarrow> (\<forall>c \<in> set cs. height c < m)"
  by (auto simp: foldr_max_le_iff Suc_le_eq)

lemma height_child: "c \<in> set cs \<Longrightarrow> height c < height (Node l ks vs cs)"
  using height_le_iff by blast

declare height.simps [simp del]

section \<open>Insertion\<close>

definition split_child ::
    "('k, 'v) BTreeNode \<Rightarrow> nat \<Rightarrow> ('k, 'v) BTreeNode option" where
  "split_child parent child_idx = do {
     let mid = MIN_KEYS;
     child \<leftarrow> vec_get (node_children parent) child_idx;
     (left_keys, right_keys) \<leftarrow> vec_split_off (node_keys child) (mid + 1);
     (left_values, right_values) \<leftarrow> vec_split_off (node_values child) (mid + 1);
     (mid_key, left_keys') \<leftarrow> vec_pop left_keys;
     (mid_value, left_values') \<leftarrow> vec_pop left_values;
     (left_children, right_children) \<leftarrow>
       (if is_leaf child then Some (node_children child, [])
        else vec_split_off (node_children child) (mid + 1));
     ks \<leftarrow> vec_insert (node_keys parent) child_idx mid_key;
     vs \<leftarrow> vec_insert (node_values parent) child_idx mid_value;
     cs \<leftarrow> vec_set (node_children parent) child_idx (Node (is_leaf child) left_keys' left_values' left_children);
     cs' \<leftarrow> vec_insert cs (child_idx + 1) (Node (is_leaf child) right_keys right_values right_children);
     Some (Node (is_leaf parent) ks vs cs')
   }"

text \<open>The two halves a full child is split into, and the entry that moves up.\<close>

definition split_left :: "('k, 'v) BTreeNode \<Rightarrow> ('k, 'v) BTreeNode" where
  "split_left c = Node (is_leaf c) (take MIN_KEYS (node_keys c)) (take MIN_KEYS (node_values c))
     (if is_leaf c then node_children c else take (MIN_KEYS + 1) (node_children c))"

definition split_right :: "('k, 'v) BTreeNode \<Rightarrow> ('k, 'v) BTreeNode" where
  "split_right c = Node (is_leaf c) (drop (MIN_KEYS + 1) (node_keys c)) (drop (MIN_KEYS + 1) (node_values c))
     (if is_leaf c then [] else drop (MIN_KEYS + 1) (node_children c))"

lemma split_child_eq_Some_iff:
  "split_child (Node l ks vs cs) i = Some n' \<longleftrightarrow>
     i < length cs \<and> i \<le> length ks \<and> i \<le> length vs \<and>
     MIN_KEYS < length (node_keys (cs ! i)) \<and> MIN_KEYS < length (node_values (cs ! i)) \<and>
     (\<not> is_leaf (cs ! i) \<longrightarrow> MIN_KEYS < length (node_children (cs ! i))) \<and>
     n' = Node l (take i ks @ node_keys (cs ! i) ! MIN_KEYS # drop i ks)
            (take i vs @ node_values (cs ! i) ! MIN_KEYS # drop i vs)
            (take i cs @ split_left (cs ! i) # split_right (cs ! i) # drop (Suc i) cs)"
proof -
  have t: "MIN_KEYS < length xs \<Longrightarrow> take (Suc MIN_KEYS) xs = take MIN_KEYS xs @ [xs ! MIN_KEYS]" for xs :: "'x list"
    by (rule take_Suc_conv_app_nth)
  have u: "i < length cs \<Longrightarrow> take (Suc i) (cs[i := x]) = take i cs @ [x]" for x
    by (simp add: take_Suc_conv_app_nth)
  show ?thesis
    by (auto simp: split_child_def vec_simps t u split_left_def split_right_def Suc_le_eq)
qed

lemma split_halves_height: "height (split_left c) \<le> height c" "height (split_right c) \<le> height c"
proof -
  obtain l ks vs cs where c: "c = Node l ks vs cs" by (cases c)
  show "height (split_left c) \<le> height c"
    unfolding split_left_def height_le_iff using c by (auto intro: height_child dest: in_set_takeD)
  show "height (split_right c) \<le> height c"
    unfolding split_right_def height_le_iff using c by (auto intro: height_child dest: in_set_dropD)
qed

lemma split_child_height:
  assumes "split_child n i = Some n'" "x \<in> set (node_children n')"
  shows "height x < height n"
proof (cases n)
  case (Node l ks vs cs)
  then have i: "i < length cs" "x \<in> set cs \<or> x = split_left (cs ! i) \<or> x = split_right (cs ! i)"
    using assms by (auto simp: split_child_eq_Some_iff dest: in_set_takeD in_set_dropD)
  have "height (cs ! i) < height n"
    using Node i(1) by (simp add: height_child)
  with i(2) show ?thesis
    using Node split_halves_height [of "cs ! i"] by (auto intro: height_child)
qed

text \<open>
  The loop-free core of \<^verbatim>\<open>insert_non_full_static\<close>: the full child of an internal node is split
  first, and the child index is corrected by comparing with the key that moved up.
\<close>

definition descend_insert ::
    "('k::linorder, 'v) BTreeNode \<Rightarrow> 'k \<Rightarrow> (('k, 'v) BTreeNode \<times> nat) option" where
  "descend_insert node key = do {
     let child_idx = child_index (node_keys node) key;
     child \<leftarrow> vec_get (node_children node) child_idx;
     if is_full child then do {
       node' \<leftarrow> split_child node child_idx;
       k \<leftarrow> vec_get (node_keys node') child_idx;
       Some (node', if k < key then child_idx + 1 else child_idx)
     } else Some (node, child_idx)
   }"

lemma descend_insert_height:
  assumes "descend_insert node key = Some (node', i)" "vec_get (node_children node') i = Some c"
  shows "height c < height node"
proof (cases "node' = node")
  case True
  then show ?thesis
    using assms(2) by (cases node) (auto simp: vec_simps height_child split: if_splits)
next
  case False
  then have "split_child node (child_index (node_keys node) key) = Some node'"
    using assms(1) by (auto simp: descend_insert_def Let_def split: if_splits Option.bind_splits)
  then show ?thesis
    using assms(2) by (auto simp: vec_simps split: if_splits intro: split_child_height)
qed

function insert_non_full ::
    "('k::linorder, 'v) BTreeNode \<Rightarrow> 'k \<Rightarrow> 'v \<Rightarrow> ('v option \<times> ('k, 'v) BTreeNode) option" where
  "insert_non_full node key value =
     (case position (\<lambda>k. k = key) (node_keys node) of
        Some pos \<Rightarrow> do {
          old_value \<leftarrow> vec_get (node_values node) pos;
          vs \<leftarrow> vec_set (node_values node) pos value;
          Some (Some old_value, Node (is_leaf node) (node_keys node) vs (node_children node))
        }
      | None \<Rightarrow>
          if is_leaf node then do {
            let pos = child_index (node_keys node) key;
            ks \<leftarrow> vec_insert (node_keys node) pos key;
            vs \<leftarrow> vec_insert (node_values node) pos value;
            Some (None, Node True ks vs (node_children node))
          } else do {
            (node', child_idx) \<leftarrow> descend_insert node key;
            child \<leftarrow> vec_get (node_children node') child_idx;
            (old_value, child') \<leftarrow> insert_non_full child key value;
            cs \<leftarrow> vec_set (node_children node') child_idx child';
            Some (old_value, Node (is_leaf node') (node_keys node') (node_values node') cs)
          })"
  by pat_completeness auto
termination
  by (relation "measure (\<lambda>(n, k, v). height n)") (auto dest: descend_insert_height)

declare insert_non_full.simps [simp del]

definition btree_insert ::
    "('k::linorder, 'v) BTree \<Rightarrow> 'k \<Rightarrow> 'v \<Rightarrow> ('v option \<times> ('k, 'v) BTree) option" where
  "btree_insert t key value = do {
     root' \<leftarrow> (if is_full (root t) then split_child (Node False [] [] [root t]) 0 else Some (root t));
     (old_value, root'') \<leftarrow> insert_non_full root' key value;
     Some (old_value,
       \<lparr>root = root'', bt_len = (if Option.is_none old_value then bt_len t + 1 else bt_len t)\<rparr>)
   }"

section \<open>Lookup\<close>

lemma height_child' : "c \<in> set (node_children n) \<Longrightarrow> height c < height n"
  by (cases n) (simp add: height_child)

lemma vec_get_child_height: "vec_get (node_children n) i = Some c \<Longrightarrow> height c < height n"
  by (cases n) (auto simp: vec_simps height_child split: if_splits)

function get_in_node :: "('k::linorder, 'v) BTreeNode \<Rightarrow> 'k \<Rightarrow> 'v option option" where
  "get_in_node node key =
     (case position (\<lambda>k. k = key) (node_keys node) of
        Some pos \<Rightarrow> do { v \<leftarrow> vec_get (node_values node) pos; Some (Some v) }
      | None \<Rightarrow>
          if is_leaf node then Some None
          else do {
            child \<leftarrow> vec_get (node_children node) (child_index (node_keys node) key);
            get_in_node child key
          })"
  by pat_completeness auto
termination
  by (relation "measure (\<lambda>(n, k). height n)") (auto dest: vec_get_child_height)

declare get_in_node.simps [simp del]

text \<open>\<^verbatim>\<open>get_mut\<close> hands out a reference to the value; \<open>f\<close> is what the caller writes through it.\<close>

function get_mut_in_node ::
    "('k::linorder, 'v) BTreeNode \<Rightarrow> 'k \<Rightarrow> ('v \<Rightarrow> 'v) \<Rightarrow> ('v option \<times> ('k, 'v) BTreeNode) option" where
  "get_mut_in_node node key f =
     (case position (\<lambda>k. k = key) (node_keys node) of
        Some pos \<Rightarrow> do {
          v \<leftarrow> vec_get (node_values node) pos;
          vs \<leftarrow> vec_set (node_values node) pos (f v);
          Some (Some v, Node (is_leaf node) (node_keys node) vs (node_children node))
        }
      | None \<Rightarrow>
          if is_leaf node then Some (None, node)
          else do {
            let child_idx = child_index (node_keys node) key;
            child \<leftarrow> vec_get (node_children node) child_idx;
            (r, child') \<leftarrow> get_mut_in_node child key f;
            cs \<leftarrow> vec_set (node_children node) child_idx child';
            Some (r, Node (is_leaf node) (node_keys node) (node_values node) cs)
          })"
  by pat_completeness auto
termination
  by (relation "measure (\<lambda>(n, k, f). height n)") (auto dest: vec_get_child_height)

declare get_mut_in_node.simps [simp del]

function first_in_node :: "('k, 'v) BTreeNode \<Rightarrow> ('k \<times> 'v) option option" where
  "first_in_node node =
     (if is_leaf node then
        if node_keys node = [] then Some None
        else do {
          k \<leftarrow> vec_get (node_keys node) 0;
          v \<leftarrow> vec_get (node_values node) 0;
          Some (Some (k, v))
        }
      else do { child \<leftarrow> vec_get (node_children node) 0; first_in_node child })"
  by pat_completeness auto
termination
  by (relation "measure height") (auto dest: vec_get_child_height)

declare first_in_node.simps [simp del]

function last_in_node :: "('k, 'v) BTreeNode \<Rightarrow> ('k \<times> 'v) option option" where
  "last_in_node node =
     (if is_leaf node then
        if node_keys node = [] then Some None
        else do {
          let idx = length (node_keys node) - 1;
          k \<leftarrow> vec_get (node_keys node) idx;
          v \<leftarrow> vec_get (node_values node) idx;
          Some (Some (k, v))
        }
      else do {
        child \<leftarrow> vec_get (node_children node) (length (node_children node) - 1);
        last_in_node child
      })"
  by pat_completeness auto
termination
  by (relation "measure height") (auto dest: vec_get_child_height)

declare last_in_node.simps [simp del]

definition btree_get :: "('k::linorder, 'v) BTree \<Rightarrow> 'k \<Rightarrow> 'v option option" where
  "btree_get t key = get_in_node (root t) key"

definition btree_get_mut ::
    "('k::linorder, 'v) BTree \<Rightarrow> 'k \<Rightarrow> ('v \<Rightarrow> 'v) \<Rightarrow> ('v option \<times> ('k, 'v) BTree) option" where
  "btree_get_mut t key f = do { (r, n) \<leftarrow> get_mut_in_node (root t) key f; Some (r, t\<lparr>root := n\<rparr>) }"

definition btree_contains_key :: "('k::linorder, 'v) BTree \<Rightarrow> 'k \<Rightarrow> bool option" where
  "btree_contains_key t key = do { r \<leftarrow> btree_get t key; Some (\<not> Option.is_none r) }"

definition btree_clear :: "('k, 'v) BTree \<Rightarrow> ('k, 'v) BTree" where
  "btree_clear t = \<lparr>root = new_leaf, bt_len = 0\<rparr>"

definition btree_first :: "('k, 'v) BTree \<Rightarrow> ('k \<times> 'v) option option" where
  "btree_first t = (if btree_is_empty t then Some None else first_in_node (root t))"

definition btree_last :: "('k, 'v) BTree \<Rightarrow> ('k \<times> 'v) option option" where
  "btree_last t = (if btree_is_empty t then Some None else last_in_node (root t))"

section \<open>Removal\<close>

function remove_max :: "('k, 'v) BTreeNode \<Rightarrow> (('k \<times> 'v) \<times> ('k, 'v) BTreeNode) option" where
  "remove_max node =
     (if is_leaf node then do {
        (key, ks) \<leftarrow> vec_pop (node_keys node);
        (value, vs) \<leftarrow> vec_pop (node_values node);
        Some ((key, value), Node True ks vs (node_children node))
      } else do {
        let last_idx = length (node_children node) - 1;
        child \<leftarrow> vec_get (node_children node) last_idx;
        (kv, child') \<leftarrow> remove_max child;
        cs \<leftarrow> vec_set (node_children node) last_idx child';
        Some (kv, Node False (node_keys node) (node_values node) cs)
      })"
  by pat_completeness auto
termination
  by (relation "measure height") (auto dest: vec_get_child_height)

declare remove_max.simps [simp del]

function remove_min :: "('k, 'v) BTreeNode \<Rightarrow> (('k \<times> 'v) \<times> ('k, 'v) BTreeNode) option" where
  "remove_min node =
     (if is_leaf node then do {
        (key, ks) \<leftarrow> vec_remove (node_keys node) 0;
        (value, vs) \<leftarrow> vec_remove (node_values node) 0;
        Some ((key, value), Node True ks vs (node_children node))
      } else do {
        child \<leftarrow> vec_get (node_children node) 0;
        (kv, child') \<leftarrow> remove_min child;
        cs \<leftarrow> vec_set (node_children node) 0 child';
        Some (kv, Node False (node_keys node) (node_values node) cs)
      })"
  by pat_completeness auto
termination
  by (relation "measure height") (auto dest: vec_get_child_height)

declare remove_min.simps [simp del]

definition borrow_from_left :: "('k, 'v) BTreeNode \<Rightarrow> nat \<Rightarrow> ('k, 'v) BTreeNode option" where
  "borrow_from_left parent child_idx = do {
     left \<leftarrow> (if child_idx = 0 then None else vec_get (node_children parent) (child_idx - 1));
     child \<leftarrow> vec_get (node_children parent) child_idx;
     (borrowed_key, left_keys) \<leftarrow> vec_pop (node_keys left);
     (borrowed_value, left_values) \<leftarrow> vec_pop (node_values left);
     (left_children, child_children) \<leftarrow>
       (if is_leaf child then Some (node_children left, node_children child)
        else do {
          (borrowed_child, lcs) \<leftarrow> vec_pop (node_children left);
          Some (lcs, borrowed_child # node_children child)
        });
     separator_key \<leftarrow> vec_get (node_keys parent) (child_idx - 1);
     ks \<leftarrow> vec_set (node_keys parent) (child_idx - 1) borrowed_key;
     separator_value \<leftarrow> vec_get (node_values parent) (child_idx - 1);
     vs \<leftarrow> vec_set (node_values parent) (child_idx - 1) borrowed_value;
     cs \<leftarrow> vec_set (node_children parent) (child_idx - 1)
             (Node (is_leaf left) left_keys left_values left_children);
     cs' \<leftarrow> vec_set cs child_idx
             (Node (is_leaf child) (separator_key # node_keys child) (separator_value # node_values child)
                child_children);
     Some (Node (is_leaf parent) ks vs cs')
   }"

definition borrow_from_right :: "('k, 'v) BTreeNode \<Rightarrow> nat \<Rightarrow> ('k, 'v) BTreeNode option" where
  "borrow_from_right parent child_idx = do {
     child \<leftarrow> vec_get (node_children parent) child_idx;
     right \<leftarrow> vec_get (node_children parent) (child_idx + 1);
     (borrowed_key, right_keys) \<leftarrow> vec_remove (node_keys right) 0;
     (borrowed_value, right_values) \<leftarrow> vec_remove (node_values right) 0;
     (right_children, child_children) \<leftarrow>
       (if is_leaf child then Some (node_children right, node_children child)
        else do {
          (borrowed_child, rcs) \<leftarrow> vec_remove (node_children right) 0;
          Some (rcs, node_children child @ [borrowed_child])
        });
     separator_key \<leftarrow> vec_get (node_keys parent) child_idx;
     ks \<leftarrow> vec_set (node_keys parent) child_idx borrowed_key;
     separator_value \<leftarrow> vec_get (node_values parent) child_idx;
     vs \<leftarrow> vec_set (node_values parent) child_idx borrowed_value;
     cs \<leftarrow> vec_set (node_children parent) child_idx
             (Node (is_leaf child) (node_keys child @ [separator_key]) (node_values child @ [separator_value])
                child_children);
     cs' \<leftarrow> vec_set cs (child_idx + 1) (Node (is_leaf right) right_keys right_values right_children);
     Some (Node (is_leaf parent) ks vs cs')
   }"

definition merge_children :: "('k, 'v) BTreeNode \<Rightarrow> nat \<Rightarrow> ('k, 'v) BTreeNode option" where
  "merge_children parent left_idx = do {
     (separator_key, ks) \<leftarrow> vec_remove (node_keys parent) left_idx;
     (separator_value, vs) \<leftarrow> vec_remove (node_values parent) left_idx;
     (right, cs) \<leftarrow> vec_remove (node_children parent) (left_idx + 1);
     left \<leftarrow> vec_get cs left_idx;
     cs' \<leftarrow> vec_set cs left_idx
             (Node (is_leaf left) (node_keys left @ separator_key # node_keys right)
                (node_values left @ separator_value # node_values right)
                (if is_leaf left then node_children left else node_children left @ node_children right));
     Some (Node (is_leaf parent) ks vs cs')
   }"

definition fix_child :: "('k, 'v) BTreeNode \<Rightarrow> nat \<Rightarrow> ('k, 'v) BTreeNode option" where
  "fix_child parent child_idx = do {
     left_ok \<leftarrow> (if 0 < child_idx
       then do { l \<leftarrow> vec_get (node_children parent) (child_idx - 1); Some (MIN_KEYS < length (node_keys l)) }
       else Some False);
     if left_ok then borrow_from_left parent child_idx
     else do {
       right_ok \<leftarrow> (if child_idx < length (node_children parent) - 1
         then do { r \<leftarrow> vec_get (node_children parent) (child_idx + 1); Some (MIN_KEYS < length (node_keys r)) }
         else Some False);
       if right_ok then borrow_from_right parent child_idx
       else if 0 < child_idx then merge_children parent (child_idx - 1)
       else merge_children parent child_idx
     }
   }"

text \<open>A node whose children are grandchildren of \<open>n\<close> is lower than \<open>n\<close>.\<close>

lemma height_regroup:
  assumes "\<forall>y \<in> set (node_children x). \<exists>c \<in> set (node_children n). y \<in> set (node_children c)"
    and "node_children n \<noteq> []"
  shows "height x < height n"
proof -
  obtain c where "c \<in> set (node_children n)"
    using assms(2) by (meson list.set_sel(1))
  then have pos: "0 < height n"
    using height_child' by fastforce
  have "height y < height n - 1" if y: "y \<in> set (node_children x)" for y
  proof -
    obtain c where c: "c \<in> set (node_children n)" "y \<in> set (node_children c)"
      using assms(1) y by blast
    then have "height y < height c" "height c < height n"
      by (simp_all add: height_child')
    then show ?thesis by linarith
  qed
  then have "height x \<le> height n - 1"
    by (cases x) (simp add: height_le_iff)
  then show ?thesis using pos by linarith
qed

lemma in_update_cases: "x \<in> set (xs[i := v]) \<Longrightarrow> x = v \<or> x \<in> set xs"
  using set_update_subset_insert [of xs i v] by blast

lemma merge_children_height:
  assumes "merge_children n i = Some n'" "x \<in> set (node_children n')"
  shows "height x < height n"
proof (cases "x \<in> set (node_children n)")
  case True
  then show ?thesis by (rule height_child')
next
  case False
  let ?cs = "take (Suc i) (node_children n) @ drop (Suc (Suc i)) (node_children n)"
  have "Suc i < length (node_children n)"
    and n': "node_children n' = ?cs[i := Node (is_leaf (?cs ! i))
        (node_keys (?cs ! i) @ (node_keys n ! i) # node_keys (node_children n ! Suc i))
        (node_values (?cs ! i) @ (node_values n ! i) # node_values (node_children n ! Suc i))
        (if is_leaf (?cs ! i) then node_children (?cs ! i)
         else node_children (?cs ! i) @ node_children (node_children n ! Suc i))]"
    using assms(1) by (auto simp: merge_children_def vec_simps split: if_splits)
  moreover from this have "?cs ! i = node_children n ! i" by (simp add: nth_append)
  ultimately have "x = Node (is_leaf (?cs ! i))
        (node_keys (?cs ! i) @ (node_keys n ! i) # node_keys (node_children n ! Suc i))
        (node_values (?cs ! i) @ (node_values n ! i) # node_values (node_children n ! Suc i))
        (if is_leaf (?cs ! i) then node_children (?cs ! i)
         else node_children (?cs ! i) @ node_children (node_children n ! Suc i))"
    using assms(2) False in_update_cases by (fastforce dest: in_set_takeD in_set_dropD)
  then show ?thesis
    using \<open>Suc i < _\<close> \<open>?cs ! i = _\<close> by (intro height_regroup) (auto split: if_splits)
qed

lemma borrow_from_left_height:
  assumes "borrow_from_left n i = Some n'" "x \<in> set (node_children n')"
  shows "height x < height n"
proof (cases "x \<in> set (node_children n)")
  case True
  then show ?thesis by (rule height_child')
next
  case False
  let ?l = "node_children n ! (i - 1)" and ?c = "node_children n ! i"
  have i: "0 < i" "i < length (node_children n)"
    using assms(1) by (auto simp: borrow_from_left_def vec_simps split: if_splits)
  have "\<forall>y \<in> set (node_children x). y \<in> set (node_children ?l) \<or> y \<in> set (node_children ?c)"
    using assms False
    by (auto simp: borrow_from_left_def vec_simps split: if_splits dest!: in_update_cases in_set_butlastD)
  moreover have "?l \<in> set (node_children n)" "?c \<in> set (node_children n)"
    using i by auto
  ultimately have "\<forall>y \<in> set (node_children x). \<exists>c \<in> set (node_children n). y \<in> set (node_children c)"
    by blast
  then show ?thesis
    using i by (intro height_regroup) auto
qed

lemma borrow_from_right_height:
  assumes "borrow_from_right n i = Some n'" "x \<in> set (node_children n')"
  shows "height x < height n"
proof (cases "x \<in> set (node_children n)")
  case True
  then show ?thesis by (rule height_child')
next
  case False
  let ?c = "node_children n ! i" and ?r = "node_children n ! Suc i"
  have i: "Suc i < length (node_children n)"
    using assms(1) by (auto simp: borrow_from_right_def vec_simps split: if_splits)
  have "\<forall>y \<in> set (node_children x). y \<in> set (node_children ?r) \<or> y \<in> set (node_children ?c)"
    using assms False
    by (auto simp: borrow_from_right_def vec_simps split: if_splits dest!: in_update_cases in_set_dropD)
  moreover have "?r \<in> set (node_children n)" "?c \<in> set (node_children n)"
    using i by auto
  ultimately have "\<forall>y \<in> set (node_children x). \<exists>c \<in> set (node_children n). y \<in> set (node_children c)"
    by blast
  then show ?thesis
    using i by (intro height_regroup) auto
qed

lemma fix_child_height:
  assumes "fix_child n i = Some n'" "vec_get (node_children n') j = Some x"
  shows "height x < height n"
proof -
  have "x \<in> set (node_children n')"
    using assms(2) by (auto simp: vec_simps split: if_splits)
  then show ?thesis
    using assms(1) borrow_from_left_height borrow_from_right_height merge_children_height
    by (auto simp: fix_child_def split: if_splits Option.bind_splits)
qed

text \<open>The step of the descent that restores enough keys in the child before entering it.\<close>

definition descend_remove ::
    "('k::linorder, 'v) BTreeNode \<Rightarrow> 'k \<Rightarrow> (('k, 'v) BTreeNode \<times> nat) option" where
  "descend_remove node key = do {
     let child_idx = child_index (node_keys node) key;
     child \<leftarrow> vec_get (node_children node) child_idx;
     node' \<leftarrow> (if length (node_keys child) \<le> MIN_KEYS then fix_child node child_idx else Some node);
     Some (node', child_index (node_keys node') key)
   }"

lemma descend_remove_height:
  assumes "descend_remove node key = Some (node', i)" "vec_get (node_children node') i = Some c"
  shows "height c < height node"
  using assms vec_get_child_height fix_child_height
  by (auto simp: descend_remove_def Let_def split: if_splits Option.bind_splits)

function remove_from_node ::
    "('k::linorder, 'v) BTreeNode \<Rightarrow> 'k \<Rightarrow> ('v option \<times> ('k, 'v) BTreeNode) option" where
  "remove_from_node node key =
     (case position (\<lambda>k. k = key) (node_keys node) of
        Some pos \<Rightarrow>
          if is_leaf node then do {
            (_, ks) \<leftarrow> vec_remove (node_keys node) pos;
            (v, vs) \<leftarrow> vec_remove (node_values node) pos;
            Some (Some v, Node True ks vs (node_children node))
          } else do {
            left \<leftarrow> vec_get (node_children node) pos;
            if MIN_KEYS < length (node_keys left) then do {
              ((pred_key, pred_value), left') \<leftarrow> remove_max left;
              ks \<leftarrow> vec_set (node_keys node) pos pred_key;
              old_value \<leftarrow> vec_get (node_values node) pos;
              vs \<leftarrow> vec_set (node_values node) pos pred_value;
              cs \<leftarrow> vec_set (node_children node) pos left';
              Some (Some old_value, Node False ks vs cs)
            } else do {
              right \<leftarrow> vec_get (node_children node) (pos + 1);
              if MIN_KEYS < length (node_keys right) then do {
                ((succ_key, succ_value), right') \<leftarrow> remove_min right;
                ks \<leftarrow> vec_set (node_keys node) pos succ_key;
                old_value \<leftarrow> vec_get (node_values node) pos;
                vs \<leftarrow> vec_set (node_values node) pos succ_value;
                cs \<leftarrow> vec_set (node_children node) (pos + 1) right';
                Some (Some old_value, Node False ks vs cs)
              } else do {
                node' \<leftarrow> merge_children node pos;
                child \<leftarrow> vec_get (node_children node') pos;
                (r, child') \<leftarrow> remove_from_node child key;
                cs \<leftarrow> vec_set (node_children node') pos child';
                Some (r, Node (is_leaf node') (node_keys node') (node_values node') cs)
              }
            }
          }
      | None \<Rightarrow>
          if is_leaf node then Some (None, node)
          else do {
            (node', child_idx) \<leftarrow> descend_remove node key;
            child \<leftarrow> vec_get (node_children node') child_idx;
            (r, child') \<leftarrow> remove_from_node child key;
            cs \<leftarrow> vec_set (node_children node') child_idx child';
            Some (r, Node (is_leaf node') (node_keys node') (node_values node') cs)
          })"
  by pat_completeness auto
termination
  by (relation "measure (\<lambda>(n, k). height n)")
    (auto dest: descend_remove_height simp: vec_simps split: if_splits intro: merge_children_height)

declare remove_from_node.simps [simp del]

text \<open>A failed removal returns early, with what the descent has already rearranged.\<close>

definition btree_remove ::
    "('k::linorder, 'v) BTree \<Rightarrow> 'k \<Rightarrow> ('v option \<times> ('k, 'v) BTree) option" where
  "btree_remove t key = do {
     (result, root') \<leftarrow> remove_from_node (root t) key;
     (case result of
        None \<Rightarrow> Some (None, t\<lparr>root := root'\<rparr>)
      | Some v \<Rightarrow>
          let root'' =
            (if node_keys root' = [] \<and> \<not> is_leaf root' then
               (case vec_pop (node_children root') of Some (child, _) \<Rightarrow> child | None \<Rightarrow> root')
             else root')
          in Some (Some v, \<lparr>root = root'', bt_len = bt_len t - 1\<rparr>))
   }"

definition btree_pop_first ::
    "('k::linorder, 'v) BTree \<Rightarrow> (('k \<times> 'v) option \<times> ('k, 'v) BTree) option" where
  "btree_pop_first t = do {
     f \<leftarrow> btree_first t;
     (case f of
        None \<Rightarrow> Some (None, t)
      | Some (key, _) \<Rightarrow> do {
          (r, t') \<leftarrow> btree_remove t key;
          Some (map_option (Pair key) r, t')
        })
   }"

definition btree_pop_last ::
    "('k::linorder, 'v) BTree \<Rightarrow> (('k \<times> 'v) option \<times> ('k, 'v) BTree) option" where
  "btree_pop_last t = do {
     f \<leftarrow> btree_last t;
     (case f of
        None \<Rightarrow> Some (None, t)
      | Some (key, _) \<Rightarrow> do {
          (r, t') \<leftarrow> btree_remove t key;
          Some (map_option (Pair key) r, t')
        })
   }"

section \<open>Iteration\<close>

text \<open>
  The iterator's stack of nodes and positions, the top first. The weight of a frame counts the
  positions and the subtrees it still has to visit, and bounds the loop of \<^verbatim>\<open>next\<close>.
\<close>

type_synonym ('k, 'v) BTreeIter = "(('k, 'v) BTreeNode \<times> nat) list"

fun node_weight :: "('k, 'v) BTreeNode \<Rightarrow> nat" where
  "node_weight (Node l ks vs cs) =
     (if l then length ks + 1 else length cs + length ks + 1 + sum_list (map node_weight cs))"

definition frame_weight :: "('k, 'v) BTreeNode \<times> nat \<Rightarrow> nat" where
  "frame_weight = (\<lambda>(n, idx).
     if is_leaf n then length (node_keys n) - idx + 1
     else (length (node_children n) + length (node_keys n) - idx) + 1 +
       sum_list (map node_weight (drop ((idx + 1) div 2) (node_children n))))"

lemma frame_weight_pos: "0 < frame_weight f"
  by (cases f) (simp add: frame_weight_def)

lemma frame_weight_Suc:
  "\<not> is_leaf n \<Longrightarrow> idx < length (node_children n) + length (node_keys n) \<Longrightarrow>
   frame_weight (n, Suc idx) < frame_weight (n, idx)"
proof -
  assume a: "\<not> is_leaf n" "idx < length (node_children n) + length (node_keys n)"
  let ?w = "\<lambda>xs. sum_list (map node_weight xs)"
  obtain k where k: "drop ((Suc idx + 1) div 2) (node_children n) = drop k (drop ((idx + 1) div 2) (node_children n))"
    by (metis drop_drop le_add_diff_inverse2 Suc_eq_plus1 div_le_mono le_Suc_eq le_refl)
  have "?w (drop k xs) \<le> ?w xs" for xs :: "('a, 'b) BTreeNode list"
    by (metis append_take_drop_id le_add2 map_append sum_list_append)
  then have "?w (drop ((Suc idx + 1) div 2) (node_children n)) \<le> ?w (drop ((idx + 1) div 2) (node_children n))"
    unfolding k .
  then show ?thesis
    using a unfolding frame_weight_def prod.case by simp
qed

lemma frame_weight_enter:
  assumes "\<not> is_leaf n" "even idx" "vec_get (node_children n) (idx div 2) = Some c"
    and "idx < length (node_children n) + length (node_keys n)"
  shows "frame_weight (c, 0) + frame_weight (n, Suc idx) < frame_weight (n, idx)"
proof -
  obtain j where j: "idx = 2 * j" using assms(2) by blast
  then have less: "j < length (node_children n)" "c = node_children n ! j"
    using assms(3) by (auto simp: vec_simps split: if_splits)
  have "drop j (node_children n) = c # drop (Suc j) (node_children n)"
    using less by (simp add: Cons_nth_drop_Suc)
  moreover have "frame_weight (c, 0) = node_weight c"
    by (cases c) (simp add: frame_weight_def)
  ultimately show ?thesis
    using assms(1,4) j less(1) by (simp add: frame_weight_def)
qed

function iter_next ::
    "('k, 'v) BTreeIter \<Rightarrow> (('k \<times> 'v) option \<times> ('k, 'v) BTreeIter) option" where
  "iter_next [] = Some (None, [])"
| "iter_next ((node, idx) # stack) =
     (if is_leaf node then
        if idx < length (node_keys node) then do {
          key \<leftarrow> vec_get (node_keys node) idx;
          value \<leftarrow> vec_get (node_values node) idx;
          Some (Some (key, value), (node, idx + 1) # stack)
        } else iter_next stack
      else
        let child_count = length (node_children node); key_count = length (node_keys node) in
        if idx < child_count + key_count then
          if idx mod 2 = 0 then
            if idx div 2 < child_count then do {
              child \<leftarrow> vec_get (node_children node) (idx div 2);
              iter_next ((child, 0) # (node, idx + 1) # stack)
            } else iter_next ((node, idx + 1) # stack)
          else
            if idx div 2 < key_count then do {
              key \<leftarrow> vec_get (node_keys node) (idx div 2);
              value \<leftarrow> vec_get (node_values node) (idx div 2);
              Some (Some (key, value), (node, idx + 1) # stack)
            } else iter_next ((node, idx + 1) # stack)
        else iter_next stack)"
  by pat_completeness auto
termination
proof (relation "measure (\<lambda>st. sum_list (map frame_weight st))", goal_cases)
  case (3 node idx stack x xa c)
  then show ?case
    using frame_weight_enter [of node idx c] by (simp add: even_iff_mod_2_eq_zero)
qed (auto simp: frame_weight_pos frame_weight_Suc)

declare iter_next.simps(2) [simp del]

lemma iter_next_weight:
  "iter_next st = Some (Some kv, st') \<Longrightarrow> sum_list (map frame_weight st') < sum_list (map frame_weight st)"
proof (induction st arbitrary: st' rule: iter_next.induct)
  case (2 node idx stack)
  show ?case
  proof (cases "is_leaf node")
    case True
    then show ?thesis
      using 2(1) "2.prems" frame_weight_pos [of "(node, idx)"]
      by (cases "idx < length (node_keys node)")
        (auto simp: iter_next.simps(2) frame_weight_def split: Option.bind_splits)
  next
    case False
    let ?in = "idx < length (node_children node) + length (node_keys node)"
    note fw = frame_weight_pos [of "(node, idx)"] frame_weight_Suc [OF False, of idx]
    show ?thesis
    proof (cases "?in \<and> even idx \<and> idx div 2 < length (node_children node)")
      case True
      let ?c = "node_children node ! (idx div 2)"
      have "iter_next ((?c, 0) # (node, idx + 1) # stack) = Some (Some kv, st')"
        using "2.prems" True False by (simp add: iter_next.simps(2) [of node] Let_def vec_simps even_iff_mod_2_eq_zero)
      then show ?thesis
        using 2(2) [OF False refl refl] True frame_weight_enter [OF False, of idx ?c]
        by (fastforce simp: vec_simps even_iff_mod_2_eq_zero)
    next
      case nenter: False
      then consider "\<not> ?in" | "?in" "odd idx" "idx div 2 < length (node_keys node)"
        | "?in" "even idx" "\<not> idx div 2 < length (node_children node)"
        | "?in" "odd idx" "\<not> idx div 2 < length (node_keys node)"
        by blast
      then show ?thesis
      proof cases
        case 1
        then show ?thesis
          using 2(5) [OF False refl refl] "2.prems" False fw
          by (fastforce simp: iter_next.simps(2) [of node] Let_def)
      next
        case 2
        then show ?thesis
          using "2.prems" False fw
          by (auto simp: iter_next.simps(2) [of node] Let_def odd_iff_mod_2_eq_one split: Option.bind_splits)
      next
        case 3
        then show ?thesis
          using 2(3) [OF False refl refl] "2.prems" False fw
          by (fastforce simp: iter_next.simps(2) [of node] Let_def even_iff_mod_2_eq_zero)
      next
        case 4
        then show ?thesis
          using 2(4) [OF False refl refl] "2.prems" False fw
          by (fastforce simp: iter_next.simps(2) [of node] Let_def odd_iff_mod_2_eq_one)
      qed
    qed
  qed
qed simp

text \<open>The sequence of entries an iterator yields until it returns \<^verbatim>\<open>None\<close>.\<close>

function iter_collect :: "('k, 'v) BTreeIter \<Rightarrow> ('k \<times> 'v) list option" where
  "iter_collect st =
     (case iter_next st of
        None \<Rightarrow> None
      | Some (None, _) \<Rightarrow> Some []
      | Some (Some kv, st') \<Rightarrow> map_option (Cons kv) (iter_collect st'))"
  by pat_completeness auto
termination
  by (relation "measure (\<lambda>st. sum_list (map frame_weight st))") (auto dest: iter_next_weight)

declare iter_collect.simps [simp del]

definition btree_iter :: "('k, 'v) BTree \<Rightarrow> ('k, 'v) BTreeIter" where
  "btree_iter t = [(root t, 0)]"

definition btree_to_list :: "('k, 'v) BTree \<Rightarrow> ('k \<times> 'v) list option" where
  "btree_to_list t = iter_collect (btree_iter t)"

definition btree_keys :: "('k, 'v) BTree \<Rightarrow> 'k list option" where
  "btree_keys t = map_option (map fst) (btree_to_list t)"

definition btree_values :: "('k, 'v) BTree \<Rightarrow> 'v list option" where
  "btree_values t = map_option (map snd) (btree_to_list t)"

fun btree_remove_all :: "('k::linorder, 'v) BTree \<Rightarrow> 'k list \<Rightarrow> ('k, 'v) BTree option" where
  "btree_remove_all t [] = Some t"
| "btree_remove_all t (key # ks) = do { (_, t') \<leftarrow> btree_remove t key; btree_remove_all t' ks }"

definition btree_retain ::
    "('k::linorder, 'v) BTree \<Rightarrow> ('k \<Rightarrow> 'v \<Rightarrow> bool) \<Rightarrow> ('k, 'v) BTree option" where
  "btree_retain t pred = do {
     kvs \<leftarrow> btree_to_list t;
     btree_remove_all t (map fst (filter (\<lambda>(k, v). \<not> pred k v) kvs))
   }"

fun btree_extend :: "('k::linorder, 'v) BTree \<Rightarrow> ('k \<times> 'v) list \<Rightarrow> ('k, 'v) BTree option" where
  "btree_extend t [] = Some t"
| "btree_extend t ((k, v) # kvs) = do { (_, t') \<leftarrow> btree_insert t k v; btree_extend t' kvs }"

definition btree_from :: "('k::linorder \<times> 'v) list \<Rightarrow> ('k, 'v) BTree option" where
  "btree_from kvs = btree_extend btree_new kvs"

definition btree_clone :: "('k::linorder, 'v) BTree \<Rightarrow> ('k, 'v) BTree option" where
  "btree_clone t = do { kvs \<leftarrow> btree_to_list t; btree_extend btree_new kvs }"

end
