(* ===== verification/BTree_Proofs.thy ===== *)
theory BTree_Proofs
  imports BTree
begin

text \<open>
  Correctness of the B-tree: the contents of a node as an association list (\<open>inorder\<close>), the shape
  invariant (\<open>bt_shape\<close>: equal depth of the leaves, one child more than keys, at most
  \<open>MAX_KEYS\<close> keys), and the refinement of the operations to sorted association lists.
\<close>

text \<open>The recursive operations, unfolded on an explicit node only.\<close>

lemmas node_simps =
  get_in_node.simps [of "Node l ks vs cs" for l ks vs cs]
  insert_non_full.simps [of "Node l ks vs cs" for l ks vs cs]
  remove_max.simps [of "Node l ks vs cs" for l ks vs cs]
  remove_min.simps [of "Node l ks vs cs" for l ks vs cs]
  remove_from_node.simps [of "Node l ks vs cs" for l ks vs cs]
  first_in_node.simps [of "Node l ks vs cs" for l ks vs cs]
  last_in_node.simps [of "Node l ks vs cs" for l ks vs cs]
  get_mut_in_node.simps [of "Node l ks vs cs" for l ks vs cs]

section \<open>Sorted association lists\<close>

definition alist_put :: "'k::linorder \<Rightarrow> 'v \<Rightarrow> ('k \<times> 'v) list \<Rightarrow> ('k \<times> 'v) list" where
  "alist_put k v kvs = filter (\<lambda>p. fst p < k) kvs @ (k, v) # filter (\<lambda>p. k < fst p) kvs"

definition alist_del :: "'k \<Rightarrow> ('k \<times> 'v) list \<Rightarrow> ('k \<times> 'v) list" where
  "alist_del k kvs = filter (\<lambda>p. fst p \<noteq> k) kvs"

abbreviation sorted_keys :: "('k::linorder \<times> 'v) list \<Rightarrow> bool" where
  "sorted_keys kvs \<equiv> sorted_wrt (<) (map fst kvs)"

text \<open>\<open>L\<close> lies below the key and \<open>R\<close> above it.\<close>

definition around :: "'k::linorder \<Rightarrow> ('k \<times> 'v) list \<Rightarrow> ('k \<times> 'v) list \<Rightarrow> bool" where
  "around k L R \<longleftrightarrow> (\<forall>p \<in> set L. fst p < k) \<and> (\<forall>p \<in> set R. k < fst p)"

lemma filter_none: "\<forall>p \<in> set xs. \<not> P p \<Longrightarrow> filter P xs = []"
  by (simp add: filter_empty_conv)

lemma alist_put_local:
  assumes "around k L R"
  shows "alist_put k v (L @ C @ R) = L @ alist_put k v C @ R"
proof -
  have "filter (\<lambda>p. fst p < k) L = L" "filter (\<lambda>p. k < fst p) R = R"
    using assms by (auto simp: around_def intro!: filter_True)
  moreover have "filter (\<lambda>p. k < fst p) L = []" "filter (\<lambda>p. fst p < k) R = []"
    using assms by (auto simp: around_def intro!: filter_none dest!: bspec)
  ultimately show ?thesis by (simp add: alist_put_def)
qed

lemma alist_del_local:
  assumes "around k L R"
  shows "alist_del k (L @ C @ R) = L @ alist_del k C @ R"
proof -
  have "filter (\<lambda>p. fst p \<noteq> k) L = L" "filter (\<lambda>p. fst p \<noteq> k) R = R"
    using assms by (auto simp: around_def intro!: filter_True)
  then show ?thesis by (simp add: alist_del_def)
qed

lemma map_of_local:
  assumes "around k L R"
  shows "map_of (L @ C @ R) k = map_of C k"
proof -
  have "k \<notin> fst ` set L" "k \<notin> fst ` set R"
    using assms by (auto simp: around_def)
  then have "map_of L k = None" "map_of R k = None"
    by (simp_all add: map_of_eq_None_iff)
  then show ?thesis by (simp add: map_add_def split: option.split)
qed

lemma sorted_keys_put: "sorted_keys kvs \<Longrightarrow> sorted_keys (alist_put k v kvs)"
  by (auto simp: alist_put_def sorted_wrt_append sorted_wrt_map sorted_wrt_filter)

lemma sorted_keys_del: "sorted_keys kvs \<Longrightarrow> sorted_keys (alist_del k kvs)"
  by (simp add: alist_del_def sorted_wrt_map sorted_wrt_filter)

lemma map_of_put: "sorted_keys kvs \<Longrightarrow> map_of (alist_put k v kvs) = (map_of kvs)(k \<mapsto> v)"
proof
  fix x
  have f: "map_of (filter (\<lambda>p. Q (fst p)) kvs) x = (if Q x then map_of kvs x else None)" for Q
    by (induction kvs) auto
  show "map_of (alist_put k v kvs) x = ((map_of kvs)(k \<mapsto> v)) x"
    using linorder_neqE [of x k]
    by (auto simp: alist_put_def map_add_def f [of "\<lambda>y. y < k"] f [of "\<lambda>y. k < y"] split: option.splits)
qed

lemma map_of_del: "map_of (alist_del k kvs) = (map_of kvs)(k := None)"
proof
  fix x show "map_of (alist_del k kvs) x = ((map_of kvs)(k := None)) x"
    by (induction kvs) (auto simp: alist_del_def)
qed

lemma length_put_new: "k \<notin> fst ` set kvs \<Longrightarrow> length (alist_put k v kvs) = Suc (length kvs)"
proof -
  assume "k \<notin> fst ` set kvs"
  then have "filter (\<lambda>p. k < fst p) kvs = filter (\<lambda>p. \<not> fst p < k) kvs"
    by (intro filter_cong) (auto simp: image_iff not_less order.strict_iff_order)
  then show ?thesis
    using sum_length_filter_compl [of "\<lambda>p. fst p < k" kvs] by (simp add: alist_put_def)
qed

section \<open>Contents of a node\<close>

fun left_part :: "'p list list \<Rightarrow> 'p list \<Rightarrow> 'p list" where
  "left_part (c # cs) (p # ps) = c @ p # left_part cs ps"
| "left_part _ _ = []"

fun right_part :: "'p list \<Rightarrow> 'p list list \<Rightarrow> 'p list" where
  "right_part (p # ps) (c # cs) = p # c @ right_part ps cs"
| "right_part _ _ = []"

definition interleave :: "'p list list \<Rightarrow> 'p list \<Rightarrow> 'p list" where
  "interleave cs ps = (case cs of [] \<Rightarrow> [] | c # cs' \<Rightarrow> c @ right_part ps cs')"

lemma interleave_Cons: "cs \<noteq> [] \<Longrightarrow> interleave (c # cs) (p # ps) = c @ p # interleave cs ps"
  by (cases cs) (auto simp: interleave_def)

lemma interleave_split:
  "length as = length ls \<Longrightarrow> interleave (as @ c # bs) (ls @ rs) = left_part as ls @ c @ right_part rs bs"
proof (induction as ls rule: list_induct2)
  case Nil
  then show ?case by (simp add: interleave_def)
next
  case (Cons a as l ls)
  then show ?case using interleave_Cons [of "as @ c # bs" a l "ls @ rs"] by simp
qed

lemma left_part_snoc:
  "length as = length ls \<Longrightarrow> left_part (as @ [a]) (ls @ [l]) = left_part as ls @ a @ [l]"
  by (induction as ls rule: list_induct2) auto

lemma left_part_append:
  "length as = length ls \<Longrightarrow> left_part (as @ as') (ls @ ls') = left_part as ls @ left_part as' ls'"
  by (induction as ls rule: list_induct2) auto

lemma right_part_append:
  "length rs = length bs \<Longrightarrow> right_part (rs @ rs') (bs @ bs') = right_part rs bs @ right_part rs' bs'"
  by (induction rs bs rule: list_induct2) auto

fun inorder :: "('k, 'v) BTreeNode \<Rightarrow> ('k \<times> 'v) list" where
  "inorder (Node l ks vs cs) =
     (if l then zip ks vs else interleave (map inorder cs) (zip ks vs))"

lemma inorder_leaf [simp]: "inorder (Node True ks vs cs) = zip ks vs"
  by simp

lemma inorder_internal: "inorder (Node False ks vs cs) = interleave (map inorder cs) (zip ks vs)"
  by simp

declare inorder.simps [simp del]

text \<open>The shape: \<open>h\<close> is the common depth of the leaves.\<close>

fun bt_shape :: "nat \<Rightarrow> ('k, 'v) BTreeNode \<Rightarrow> bool" where
  "bt_shape 0 (Node l ks vs cs) \<longleftrightarrow> l \<and> cs = [] \<and> length vs = length ks \<and> length ks \<le> MAX_KEYS"
| "bt_shape (Suc h) (Node l ks vs cs) \<longleftrightarrow>
     \<not> l \<and> length vs = length ks \<and> length cs = Suc (length ks) \<and> length ks \<le> MAX_KEYS \<and>
     (\<forall>c \<in> set cs. bt_shape h c)"

lemma bt_shape_cases:
  assumes "bt_shape h n"
  obtains (leaf) ks vs where "h = 0" "n = Node True ks vs []" "length vs = length ks" "length ks \<le> MAX_KEYS"
  | (internal) g ks vs cs where "h = Suc g" "n = Node False ks vs cs" "length vs = length ks"
      "length cs = Suc (length ks)" "length ks \<le> MAX_KEYS" "\<forall>c \<in> set cs. bt_shape g c"
  using assms by (cases h; cases n) auto

lemma btree_consts [simp]: "MIN_KEYS = 7" "MAX_KEYS = 15"
  by (simp_all add: MIN_KEYS_def MAX_KEYS_def B_def)

lemma shape_keys_le: "bt_shape h n \<Longrightarrow> length (node_keys n) \<le> 15"
  by (cases h; cases n) auto

text \<open>The contents of an internal node around its child \<open>i\<close>.\<close>

lemma inorder_around:
  assumes "length vs = length ks" "length cs = Suc (length ks)" "i \<le> length ks"
  shows "inorder (Node False ks vs cs) =
    left_part (map inorder (take i cs)) (zip (take i ks) (take i vs)) @ inorder (cs ! i) @
    right_part (zip (drop i ks) (drop i vs)) (map inorder (drop (Suc i) cs))"
proof -
  have cs: "cs = take i cs @ cs ! i # drop (Suc i) cs"
    using assms by (intro nth_split) simp
  have kv: "zip ks vs = zip (take i ks) (take i vs) @ zip (drop i ks) (drop i vs)"
    using assms by (metis append_take_drop_id length_take zip_append)
  have "map inorder cs = map inorder (take i cs) @ inorder (cs ! i) # map inorder (drop (Suc i) cs)"
    using arg_cong [OF cs, of "map inorder"] by simp
  then show ?thesis
    using assms interleave_split [of "map inorder (take i cs)" "zip (take i ks) (take i vs)"] kv
    by (simp add: inorder_internal)
qed

lemma child_index_le: "child_index ks key \<le> length ks"
  using position_SomeD(1) by (auto simp: child_index_def split: option.splits dest: less_imp_le)

lemma child_index_bounds:
  assumes "sorted_wrt (<) ks" "key \<notin> set ks"
  shows "\<forall>k \<in> set (take (child_index ks key) ks). k < key"
    and "\<forall>k \<in> set (drop (child_index ks key) ks). key < k"
proof -
  let ?i = "child_index ks key"
  have "\<not> key < ks ! j" if "j < ?i" "j < length ks" for j
    using that position_SomeD(3) [of "\<lambda>k. key < k" ks] position_None_iff [of "\<lambda>k. key < k" ks] nth_mem
    by (auto simp: child_index_def split: option.splits)
  then show "\<forall>k \<in> set (take ?i ks). k < key"
    using assms(2) by (auto simp: in_set_conv_nth) (metis not_less_iff_gr_or_eq)
  have "key < ks ! j" if "?i \<le> j" "j < length ks" for j
  proof -
    have "position (\<lambda>k. key < k) ks = Some ?i"
      using that by (auto simp: child_index_def split: option.splits)
    then have "key < ks ! ?i" by (rule position_SomeD(2))
    moreover have "ks ! ?i \<le> ks ! j"
      using assms(1) that sorted_wrt_nth_less [of "(<)" ks ?i j] by (cases "?i = j") auto
    ultimately show ?thesis by simp
  qed
  then show "\<forall>k \<in> set (drop ?i ks). key < k"
    by (auto simp: in_set_conv_nth)
qed

text \<open>
  The separators left of a position are below the key and those right of it above: then so is
  everything outside the child at that position.
\<close>

lemma sorted_keys_append:
  "sorted_keys (xs @ ys) \<longleftrightarrow> sorted_keys xs \<and> sorted_keys ys \<and> (\<forall>x \<in> set xs. \<forall>y \<in> set ys. fst x < fst y)"
  by (auto simp: sorted_wrt_append)

lemma left_part_below:
  assumes "length as = length ls" "sorted_keys (left_part as ls)" "\<forall>p \<in> set ls. fst p < key"
  shows "\<forall>p \<in> set (left_part as ls). fst p < key"
proof (cases ls rule: rev_cases)
  case (snoc ls' l)
  then obtain as' a where as: "as = as' @ [a]" "length as' = length ls'"
    using assms(1) by (metis length_append_singleton length_Suc_conv_rev)
  then have lp: "left_part as ls = (left_part as' ls' @ a) @ [l]"
    using left_part_snoc snoc by simp
  have "fst l < key"
    using assms(3) snoc by simp
  moreover have "\<forall>p \<in> set (left_part as' ls' @ a). fst p < fst l"
    using assms(2) unfolding lp sorted_keys_append by simp
  ultimately show ?thesis
    unfolding lp by (metis Un_iff empty_iff empty_set insert_iff list.simps(15) order.strict_trans set_append)
qed simp

lemma right_part_above:
  assumes "length rs = length bs" "sorted_keys (right_part rs bs)" "\<forall>p \<in> set rs. key < fst p"
  shows "\<forall>p \<in> set (right_part rs bs). key < fst p"
proof (cases rs)
  case (Cons r rs')
  then obtain b bs' where "bs = b # bs'"
    using assms(1) by (cases bs) auto
  then have rp: "right_part rs bs = [r] @ b @ right_part rs' bs'"
    using Cons by simp
  have "key < fst r"
    using assms(3) Cons by simp
  moreover have "\<forall>p \<in> set (b @ right_part rs' bs'). fst r < fst p"
    using assms(2) unfolding rp sorted_keys_append [of "[r]"] by simp
  ultimately show ?thesis
    unfolding rp by (metis Un_iff empty_iff empty_set insert_iff list.simps(15) order.strict_trans set_append)
qed simp

lemma locate:
  assumes "length vs = length ks" "length cs = Suc (length ks)" "i \<le> length ks"
    and "sorted_keys (inorder (Node False ks vs cs))"
    and "\<forall>k \<in> set (take i ks). k < key" "\<forall>k \<in> set (drop i ks). key < k"
  shows "\<exists>L R. (\<forall>c. inorder (Node False ks vs (cs[i := c])) = L @ inorder c @ R) \<and> around key L R"
proof -
  let ?L = "left_part (map inorder (take i cs)) (zip (take i ks) (take i vs))"
  let ?R = "right_part (zip (drop i ks) (drop i vs)) (map inorder (drop (Suc i) cs))"
  have eq: "inorder (Node False ks vs (cs[i := c])) = ?L @ inorder c @ ?R" for c
    using inorder_around [of vs ks "cs[i := c]" i] assms(1-3) by simp
  have "sorted_keys (?L @ inorder (cs ! i) @ ?R)"
    using eq [of "cs ! i"] assms(4) by simp
  then have "sorted_keys ?L" "sorted_keys ?R"
    by (simp_all only: sorted_keys_append)
  moreover have "\<forall>p \<in> set (zip (take i ks) (take i vs)). fst p < key"
    "\<forall>p \<in> set (zip (drop i ks) (drop i vs)). key < fst p"
    using assms(5,6) by (auto dest: set_zip_leftD)
  ultimately have "around key ?L ?R"
    unfolding around_def using assms(1-3)
    by (intro conjI left_part_below right_part_above) auto
  with eq show ?thesis by blast
qed

lemma right_part_sorted:
  "length ps = length cs \<Longrightarrow> sorted_keys (right_part ps cs) \<Longrightarrow> sorted_keys ps \<and> set ps \<subseteq> set (right_part ps cs)"
proof (induction ps cs rule: list_induct2)
  case (Cons p ps c cs)
  have "sorted_keys ([p] @ c @ right_part ps cs)"
    using Cons.prems by simp
  then have s: "sorted_keys (right_part ps cs)" "\<forall>q \<in> set (right_part ps cs). fst p < fst q"
    unfolding sorted_keys_append by auto
  show ?case
    using Cons.IH [OF s(1)] s(2) by (auto simp: image_iff)
qed simp

lemma inorder_keys:
  assumes "bt_shape h (Node l ks vs cs)" "sorted_keys (inorder (Node l ks vs cs))"
  shows "sorted_wrt (<) ks" "set (zip ks vs) \<subseteq> set (inorder (Node l ks vs cs))" "length vs = length ks"
proof -
  show len: "length vs = length ks"
    using assms(1) by (cases h) auto
  have "sorted_keys (zip ks vs) \<and> set (zip ks vs) \<subseteq> set (inorder (Node l ks vs cs))"
  proof (cases h)
    case 0
    then show ?thesis using assms by auto
  next
    case (Suc g)
    then obtain c cs' where cs: "cs = c # cs'" "length cs' = length ks" "\<not> l"
      using assms(1) by (cases cs) auto
    have "sorted_keys (inorder c @ right_part (zip ks vs) (map inorder cs'))"
      using assms(2) cs by (simp add: interleave_def inorder_internal)
    then have "sorted_keys (right_part (zip ks vs) (map inorder cs'))"
      unfolding sorted_keys_append by blast
    then show ?thesis
      using right_part_sorted [of "zip ks vs" "map inorder cs'"] cs len by (auto simp: interleave_def inorder_internal)
  qed
  then show "sorted_wrt (<) ks" "set (zip ks vs) \<subseteq> set (inorder (Node l ks vs cs))"
    using len by simp_all
qed

lemma sorted_distinct: "sorted_wrt (<) (xs :: 'k::linorder list) \<Longrightarrow> distinct xs"
  by (induction xs) auto

lemma map_of_sorted: "sorted_keys kvs \<Longrightarrow> (k, v) \<in> set kvs \<Longrightarrow> map_of kvs k = Some v"
  by (simp add: sorted_distinct)

lemma key_in_node:
  assumes "bt_shape h n" "sorted_keys (inorder n)" "position (\<lambda>k. k = key) (node_keys n) = Some pos"
  shows "pos < length (node_values n)" "map_of (inorder n) key = Some (node_values n ! pos)"
    "node_keys n ! pos = key"
proof -
  obtain l ks vs cs where n: "n = Node l ks vs cs" by (cases n)
  note i = inorder_keys [OF assms(1,2) [unfolded n]] position_SomeD [OF assms(3)]
  show "pos < length (node_values n)" "node_keys n ! pos = key"
    using i n by auto
  have "(key, vs ! pos) \<in> set (zip ks vs)"
    using i n by (auto simp: set_zip)
  then show "map_of (inorder n) key = Some (node_values n ! pos)"
    using i(2) n map_of_sorted [OF assms(2)] by auto
qed

lemma locate_key:
  assumes "bt_shape (Suc h) (Node False ks vs cs)" "sorted_keys (inorder (Node False ks vs cs))"
    and "position (\<lambda>k. k = key) ks = None"
  shows "child_index ks key < length cs"
    "\<exists>L R. (\<forall>c. inorder (Node False ks vs (cs[child_index ks key := c])) = L @ inorder c @ R) \<and> around key L R"
proof -
  have "key \<notin> set ks"
    using assms(3) by (auto simp: position_None_iff)
  then show "child_index ks key < length cs"
    "\<exists>L R. (\<forall>c. inorder (Node False ks vs (cs[child_index ks key := c])) = L @ inorder c @ R) \<and> around key L R"
    using assms inorder_keys(1) [OF assms(1,2)] child_index_bounds [of ks key] child_index_le [of ks key]
    by (simp_all add: locate)
qed

lemma sorted_keys_middle: "sorted_keys (L @ C @ R) \<Longrightarrow> sorted_keys C"
  unfolding sorted_keys_append by blast

theorem get_in_node_spec:
  "bt_shape h n \<Longrightarrow> sorted_keys (inorder n) \<Longrightarrow> get_in_node n key = Some (map_of (inorder n) key)"
proof (induction h arbitrary: n)
  case 0
  then obtain ks vs where n: "n = Node True ks vs []" "length vs = length ks"
    by (auto elim: bt_shape_cases)
  show ?case
  proof (cases "position (\<lambda>k. k = key) ks")
    case None
    then have none: "map_of (zip ks vs) key = None"
      using n(2) by (auto simp: position_None_iff)
    show ?thesis
      unfolding n(1) inorder_leaf none using None by (simp add: node_simps)
  next
    case (Some pos)
    then show ?thesis
      using key_in_node [OF 0, of key pos] n by (simp add: node_simps vec_simps)
  qed
next
  case (Suc h)
  then obtain ks vs cs where n: "n = Node False ks vs cs" "\<forall>c \<in> set cs. bt_shape h c"
    by (auto elim: bt_shape_cases)
  show ?case
  proof (cases "position (\<lambda>k. k = key) ks")
    case None
    let ?i = "child_index ks key"
    obtain L R where LR: "\<And>c. inorder (Node False ks vs (cs[?i := c])) = L @ inorder c @ R" "around key L R"
      using locate_key(2) [OF Suc.prems [unfolded n(1)] None] by blast
    have i: "?i < length cs" by (rule locate_key(1) [OF Suc.prems [unfolded n(1)] None])
    have n_eq: "inorder n = L @ inorder (cs ! ?i) @ R"
      using LR(1) [of "cs ! ?i"] n(1) by simp
    then have "get_in_node (cs ! ?i) key = Some (map_of (inorder (cs ! ?i)) key)"
      using Suc.IH Suc.prems(2) n(2) i sorted_keys_middle by (metis nth_mem)
    then show ?thesis
      using None n(1) i n_eq map_of_local [OF LR(2)] by (simp add: node_simps vec_simps)
  next
    case (Some pos)
    then show ?thesis
      using key_in_node [OF Suc.prems, of key pos] n by (simp add: node_simps vec_simps)
  qed
qed

section \<open>Insertion\<close>

lemma split_halves:
  assumes "bt_shape h c" "length (node_keys c) = 15"
  shows "bt_shape h (split_left c)" "bt_shape h (split_right c)"
    "length (node_keys (split_left c)) = 7" "length (node_keys (split_right c)) = 7"
    "inorder c = inorder (split_left c) @ (node_keys c ! 7, node_values c ! 7) # inorder (split_right c)"
    "length (node_values c) = 15"
proof -
  have "bt_shape h (split_left c) \<and> bt_shape h (split_right c) \<and> length (node_keys (split_left c)) = 7 \<and>
      length (node_keys (split_right c)) = 7 \<and> length (node_values c) = 15"
    using assms(1)
  proof (cases rule: bt_shape_cases)
    case (internal g ks vs cs)
    then show ?thesis
      using assms(2) by (auto simp: split_left_def split_right_def dest: in_set_takeD in_set_dropD)
  qed (use assms(2) in \<open>simp add: split_left_def split_right_def\<close>)
  then show "bt_shape h (split_left c)" "bt_shape h (split_right c)"
    "length (node_keys (split_left c)) = 7" "length (node_keys (split_right c)) = 7"
    "length (node_values c) = 15"
    by blast+
  from assms(1) show "inorder c = inorder (split_left c) @ (node_keys c ! 7, node_values c ! 7) # inorder (split_right c)"
  proof (cases rule: bt_shape_cases)
    case (leaf ks vs)
    have "zip ks vs = take 7 (zip ks vs) @ zip ks vs ! 7 # drop 8 (zip ks vs)"
      using leaf assms(2) nth_split [of 7 "zip ks vs"] by simp
    then show ?thesis
      using leaf assms(2) by (simp add: split_left_def split_right_def take_zip drop_zip)
  next
    case (internal g ks vs cs)
    have len: "length ks = 15" "length vs = 15" "length cs = 16"
      using internal assms(2) by auto
    have d: "drop 7 ks = ks ! 7 # drop 8 ks" "drop 7 vs = vs ! 7 # drop 8 vs" "drop 8 cs = cs ! 8 # drop 9 cs"
      using len Cons_nth_drop_Suc [of 7 ks] Cons_nth_drop_Suc [of 7 vs] Cons_nth_drop_Suc [of 8 cs] by simp_all
    have "inorder (Node False ks vs cs) =
        left_part (map inorder (take 7 cs)) (zip (take 7 ks) (take 7 vs)) @ inorder (cs ! 7) @
        right_part (zip (drop 7 ks) (drop 7 vs)) (map inorder (drop 8 cs))"
      using len inorder_around [of vs ks cs 7] by simp
    also have "\<dots> = left_part (map inorder (take 7 cs)) (zip (take 7 ks) (take 7 vs)) @ inorder (cs ! 7) @
        (ks ! 7, vs ! 7) # inorder (cs ! 8) @ right_part (zip (drop 8 ks) (drop 8 vs)) (map inorder (drop 9 cs))"
      unfolding d by simp
    also have "\<dots> = inorder (split_left c) @ (ks ! 7, vs ! 7) # inorder (split_right c)"
      using len internal(2) inorder_around [of "take 7 vs" "take 7 ks" "take 8 cs" 7]
        inorder_around [of "drop 8 vs" "drop 8 ks" "drop 8 cs" 0]
      by (simp add: split_left_def split_right_def)
    finally show ?thesis using internal(2) by simp
  qed
qed

lemma split_child_spec:
  assumes "bt_shape (Suc h) (Node False ks vs cs)" "length ks < 15" "i \<le> length ks"
    and "length (node_keys (cs ! i)) = 15"
  defines "ks' \<equiv> take i ks @ node_keys (cs ! i) ! 7 # drop i ks"
    and "vs' \<equiv> take i vs @ node_values (cs ! i) ! 7 # drop i vs"
    and "cs' \<equiv> take i cs @ split_left (cs ! i) # split_right (cs ! i) # drop (Suc i) cs"
  shows "split_child (Node False ks vs cs) i = Some (Node False ks' vs' cs')"
    and "bt_shape (Suc h) (Node False ks' vs' cs')"
    and "inorder (Node False ks' vs' cs') = inorder (Node False ks vs cs)"
proof -
  have len: "length vs = length ks" "length cs = Suc (length ks)" "bt_shape h (cs ! i)"
    using assms(1,3) by auto
  note sh = split_halves [OF len(3) assms(4)]
  have "\<not> is_leaf (cs ! i) \<Longrightarrow> 7 < length (node_children (cs ! i))"
    using len(3) assms(4) by (auto elim: bt_shape_cases)
  then show "split_child (Node False ks vs cs) i = Some (Node False ks' vs' cs')"
    using len assms(3,4) sh(6) by (simp add: split_child_eq_Some_iff ks'_def vs'_def cs'_def)
  show "bt_shape (Suc h) (Node False ks' vs' cs')"
    using assms(1-3) sh(1,2) by (auto simp: ks'_def vs'_def cs'_def dest: in_set_takeD in_set_dropD)
  have nth: "cs' ! i = split_left (cs ! i)" "drop (Suc i) cs' = split_right (cs ! i) # drop (Suc i) cs"
      "take i cs' = take i cs" "take i ks' = take i ks" "take i vs' = take i vs"
      "drop i ks' = node_keys (cs ! i) ! 7 # drop i ks" "drop i vs' = node_values (cs ! i) ! 7 # drop i vs"
    using len assms(3) by (simp_all add: cs'_def ks'_def vs'_def nth_append)
  have "inorder (Node False ks' vs' cs') =
      left_part (map inorder (take i cs)) (zip (take i ks) (take i vs)) @
      (inorder (split_left (cs ! i)) @ (node_keys (cs ! i) ! 7, node_values (cs ! i) ! 7) # inorder (split_right (cs ! i))) @
      right_part (zip (drop i ks) (drop i vs)) (map inorder (drop (Suc i) cs))"
    using len assms(3) by (subst inorder_around [where i = i]) (simp_all add: nth ks'_def [symmetric] vs'_def [symmetric]
        cs'_def [symmetric], simp_all add: ks'_def vs'_def cs'_def)
  also have "\<dots> = inorder (Node False ks vs cs)"
    unfolding sh(5) [symmetric] using len assms(3) inorder_around by metis
  finally show "inorder (Node False ks' vs' cs') = inorder (Node False ks vs cs)" .
qed

text \<open>
  Descending for an absent key: the node may be split, its contents stay, and everything outside
  the child to enter is below or above the key.
\<close>

lemma descend_insert_spec:
  assumes sh: "bt_shape (Suc h) (Node False ks vs cs)" and room: "length ks < 15"
    and st: "sorted_keys (inorder (Node False ks vs cs))"
    and new: "key \<notin> fst ` set (inorder (Node False ks vs cs))"
  shows "\<exists>ks' vs' cs' i. descend_insert (Node False ks vs cs) key = Some (Node False ks' vs' cs', i) \<and>
    bt_shape (Suc h) (Node False ks' vs' cs') \<and>
    inorder (Node False ks' vs' cs') = inorder (Node False ks vs cs) \<and>
    i < length cs' \<and> length (node_keys (cs' ! i)) < 15 \<and>
    (\<exists>L R. (\<forall>c. inorder (Node False ks' vs' (cs'[i := c])) = L @ inorder c @ R) \<and> around key L R)"
proof -
  let ?i = "child_index ks key" and ?n = "Node False ks vs cs"
  have len: "length vs = length ks" "length cs = Suc (length ks)" "\<forall>c \<in> set cs. bt_shape h c"
    using sh by auto
  note k = inorder_keys [OF sh st]
  have absent: "key \<notin> set ks"
    using new k(2,3) by (force simp: in_set_conv_nth set_zip)
  have i: "?i \<le> length ks" "?i < length cs"
    using child_index_le [of ks key] len by simp_all
  note bounds = child_index_bounds [OF k(1) absent]
  show ?thesis
  proof (cases "is_full (cs ! ?i)")
    case False
    then show ?thesis
      using sh i locate [OF len(1,2) i(1) st bounds]
      by (intro exI [of _ ks] exI [of _ vs] exI [of _ cs] exI [of _ ?i])
        (simp add: descend_insert_def vec_simps is_full_def Let_def)
  next
    case True
    let ?c = "cs ! ?i"
    have full: "length (node_keys ?c) = 15" "bt_shape h ?c"
      using True len(3) i(2) shape_keys_le [of h ?c] by (auto simp: is_full_def)
    let ?mid = "node_keys ?c ! 7"
    let ?ks = "take ?i ks @ ?mid # drop ?i ks" and ?vs = "take ?i vs @ node_values ?c ! 7 # drop ?i vs"
    let ?cs = "take ?i cs @ split_left ?c # split_right ?c # drop (Suc ?i) cs"
    note spl = split_child_spec [OF sh room i(1) full(1)]
    have "(?mid, node_values ?c ! 7) \<in> set (inorder ?n)"
      using inorder_keys(2) [OF spl(2)] spl(3) st len(1) by (auto simp: subset_iff)
    then have "?mid \<noteq> key" using new by (metis fst_conv imageI)
    define j where "j = (if ?mid < key then Suc ?i else ?i)"
    have "\<forall>k \<in> set (take j ?ks). k < key" "\<forall>k \<in> set (drop j ?ks). key < k"
      using bounds \<open>?mid \<noteq> key\<close> i(1) by (auto simp: j_def take_Cons' split: if_splits)
    moreover have "length ?vs = length ?ks" "length ?cs = Suc (length ?ks)" "j \<le> length ?ks"
      using len i by (auto simp: j_def)
    ultimately have ex: "\<exists>L R. (\<forall>c. inorder (Node False ?ks ?vs (?cs[j := c])) = L @ inorder c @ R) \<and> around key L R"
      using locate spl(3) st by metis
    have "length (node_keys (?cs ! j)) = 7"
      using split_halves(3,4) [OF full(2,1)] i by (simp add: j_def nth_append)
    moreover have "descend_insert ?n key = Some (Node False ?ks ?vs ?cs, j)"
      using True i spl(1) by (simp add: descend_insert_def vec_simps j_def nth_append Let_def)
    ultimately show ?thesis
      using spl(2,3) ex \<open>j \<le> length ?ks\<close> \<open>length ?cs = _\<close>
      by (intro exI [of _ ?ks] exI [of _ ?vs] exI [of _ ?cs] exI [of _ j]) simp
  qed
qed

theorem insert_non_full_spec:
  "bt_shape h n \<Longrightarrow> length (node_keys n) < 15 \<Longrightarrow> sorted_keys (inorder n) \<Longrightarrow>
   key \<notin> fst ` set (inorder n) \<Longrightarrow>
   \<exists>n'. insert_non_full n key v = Some (None, n') \<and> bt_shape h n' \<and> inorder n' = alist_put key v (inorder n)"
proof (induction h arbitrary: n)
  case 0
  then obtain ks vs where n: "n = Node True ks vs []" "length vs = length ks"
    by (auto elim: bt_shape_cases)
  let ?i = "child_index ks key"
  note k = inorder_keys [OF 0(1,3) [unfolded n(1)]]
  have absent: "key \<notin> set ks"
    using 0(4) n by (force simp: in_set_conv_nth set_zip)
  then have pos: "position (\<lambda>k. k = key) ks = None" by (auto simp: position_None_iff)
  have "around key (zip (take ?i ks) (take ?i vs)) (zip (drop ?i ks) (drop ?i vs))"
    using child_index_bounds [OF k(1) absent] by (auto simp: around_def dest: set_zip_leftD)
  then have "alist_put key v (zip ks vs) =
      zip (take ?i ks) (take ?i vs) @ (key, v) # zip (drop ?i ks) (drop ?i vs)"
    using alist_put_local [of key "zip (take ?i ks) (take ?i vs)" "zip (drop ?i ks) (drop ?i vs)" v "[]"] n(2)
    by (simp add: alist_put_def take_zip [symmetric] drop_zip [symmetric])
  moreover have "?i \<le> length ks" by (rule child_index_le)
  ultimately show ?case
    using 0(2) n pos by (simp add: node_simps vec_simps Let_def)
next
  case (Suc h)
  then obtain ks vs cs where n: "n = Node False ks vs cs"
    by (auto elim: bt_shape_cases)
  obtain ks' vs' cs' i L R where d: "descend_insert n key = Some (Node False ks' vs' cs', i)"
      "bt_shape (Suc h) (Node False ks' vs' cs')" "inorder (Node False ks' vs' cs') = inorder n"
      "i < length cs'" "length (node_keys (cs' ! i)) < 15"
      "\<And>c. inorder (Node False ks' vs' (cs'[i := c])) = L @ inorder c @ R" "around key L R"
    using descend_insert_spec [of h ks vs cs key] Suc.prems n by auto
  have eq: "inorder n = L @ inorder (cs' ! i) @ R"
    using d(3,4) d(6) [of "cs' ! i"] by simp
  have "bt_shape h (cs' ! i)" "sorted_keys (inorder (cs' ! i))" "key \<notin> fst ` set (inorder (cs' ! i))"
    using d(2,4) Suc.prems(3,4) sorted_keys_middle [of L _ R] unfolding eq by auto
  then obtain c' where c': "insert_non_full (cs' ! i) key v = Some (None, c')" "bt_shape h c'"
      "inorder c' = alist_put key v (inorder (cs' ! i))"
    using Suc.IH [OF _ d(5)] by blast
  have "position (\<lambda>k. k = key) ks = None"
    using Suc.prems(4) inorder_keys(2,3) [OF Suc.prems(1,3) [unfolded n]] n
    by (force simp: position_None_iff in_set_conv_nth set_zip)
  then have "insert_non_full n key v = Some (None, Node False ks' vs' (cs'[i := c']))"
    using d(1,4) c'(1) n by (simp add: node_simps vec_simps)
  moreover have "bt_shape (Suc h) (Node False ks' vs' (cs'[i := c']))"
    using d(2) c'(2) by (auto dest: in_update_cases)
  ultimately show ?case
    using d(6) [of c'] c'(3) eq alist_put_local [OF d(7)] by simp
qed

section \<open>Removal\<close>

text \<open>No node of the subtree is without keys.\<close>

fun bt_nonempty :: "('k, 'v) BTreeNode \<Rightarrow> bool" where
  "bt_nonempty (Node l ks vs cs) \<longleftrightarrow> ks \<noteq> [] \<and> (\<forall>c \<in> set cs. bt_nonempty c)"

lemma bt_nonempty_iff:
  "bt_nonempty n \<longleftrightarrow> node_keys n \<noteq> [] \<and> (\<forall>c \<in> set (node_children n). bt_nonempty c)"
  by (cases n) simp

text \<open>
  What one removal needs of a node: no empty node below it, and a separator of its own unless its
  only child can spare a key.
\<close>

definition bt_removable :: "('k, 'v) BTreeNode \<Rightarrow> bool" where
  "bt_removable n \<longleftrightarrow> is_leaf n \<or>
     (\<forall>c \<in> set (node_children n). bt_nonempty c) \<and>
     (node_keys n \<noteq> [] \<or> MIN_KEYS < length (node_keys (hd (node_children n))))"

lemma bt_nonempty_removable: "bt_nonempty n \<Longrightarrow> bt_removable n"
  by (cases n) (simp add: bt_removable_def)

lemma inorder_join:
  assumes "length va = length ka" "l \<or> length ca = Suc (length ka) \<and> cb \<noteq> []"
  shows "inorder (Node l (ka @ k # kb) (va @ v # vb) (ca @ cb)) =
    inorder (Node l ka va ca) @ (k, v) # inorder (Node l kb vb cb)"
proof (cases l)
  case False
  then obtain ca' x y cb' where "ca = ca' @ [x]" "length ca' = length ka" "cb = y # cb'"
    using assms(2) by (metis length_Suc_conv_rev list.exhaust)
  then show ?thesis
    using False assms(1) interleave_split [of "map inorder ca'" "zip ka va"]
      interleave_split [of "map inorder ca'" "zip ka va" "inorder x" "[]" "[]"]
    by (simp add: inorder_internal interleave_def)
qed (use assms in simp)

text \<open>The contents of an internal node around the separator \<open>i\<close> and its two neighbours.\<close>

lemma inorder_pair:
  assumes "length as = length ls" "length lv = length ls"
  shows "inorder (Node False (ls @ k # rs) (lv @ v # rv) (as @ a # b # bs)) =
      left_part (map inorder as) (zip ls lv) @ (inorder a @ (k, v) # inorder b) @
      right_part (zip rs rv) (map inorder bs)"
    and "inorder (Node False (ls @ rs) (lv @ rv) (as @ a # bs)) =
      left_part (map inorder as) (zip ls lv) @ inorder a @ right_part (zip rs rv) (map inorder bs)"
  using assms interleave_split [of "map inorder as" "zip ls lv"] by (simp_all add: inorder_internal)

lemma take_drop_pair:
  assumes "Suc i < length cs"
  shows "cs = take i cs @ cs ! i # cs ! Suc i # drop (Suc (Suc i)) cs"
  using nth_split [of i cs] assms by (simp add: Cons_nth_drop_Suc)

lemma remove_max_spec:
  "bt_shape h n \<Longrightarrow> bt_nonempty n \<Longrightarrow>
   \<exists>kv n'. remove_max n = Some (kv, n') \<and> bt_shape h n' \<and> inorder n = inorder n' @ [kv]"
proof (induction h arbitrary: n)
  case 0
  then obtain ks vs where n: "n = Node True ks vs []" "length vs = length ks" "length ks \<le> 15"
    by (auto elim: bt_shape_cases)
  then obtain ks' k vs' v where "ks = ks' @ [k]" "vs = vs' @ [v]" "length vs' = length ks'"
    using 0(2) by (cases ks rule: rev_cases; cases vs rule: rev_cases) auto
  then show ?case
    using n by (simp add: node_simps vec_simps)
next
  case (Suc h)
  then obtain ks vs cs where n: "n = Node False ks vs cs" "length vs = length ks"
      "length cs = Suc (length ks)" "\<forall>c \<in> set cs. bt_shape h c"
    by (auto elim: bt_shape_cases)
  then obtain cs' c where cs: "cs = cs' @ [c]" "length cs' = length ks"
    by (metis length_Suc_conv_rev)
  obtain kv c' where c': "remove_max c = Some (kv, c')" "bt_shape h c'" "inorder c = inorder c' @ [kv]"
    using Suc.IH [of c] n cs Suc.prems by auto
  have "remove_max n = Some (kv, Node False ks vs (cs' @ [c']))"
    using n(1) cs c'(1) by (simp add: node_simps vec_simps nth_append list_update_append)
  moreover have "inorder n = inorder (Node False ks vs (cs' @ [c'])) @ [kv]"
    using n cs c'(3) inorder_pair(2) [of cs' ks vs "[]" "[]" c "[]"] inorder_pair(2) [of cs' ks vs "[]" "[]" c' "[]"]
    by simp
  ultimately show ?case
    using Suc.prems(1) n cs c'(2) by auto
qed

lemma remove_min_spec:
  "bt_shape h n \<Longrightarrow> bt_nonempty n \<Longrightarrow>
   \<exists>kv n'. remove_min n = Some (kv, n') \<and> bt_shape h n' \<and> inorder n = kv # inorder n'"
proof (induction h arbitrary: n)
  case 0
  then obtain ks vs where n: "n = Node True ks vs []" "length vs = length ks" "length ks \<le> 15"
    by (auto elim: bt_shape_cases)
  then obtain ks' k vs' v where "ks = k # ks'" "vs = v # vs'" "length vs' = length ks'"
    using 0(2) by (cases ks; cases vs) auto
  then show ?case
    using n by (simp add: node_simps vec_simps)
next
  case (Suc h)
  then obtain ks vs cs where n: "n = Node False ks vs cs" "length vs = length ks"
      "length cs = Suc (length ks)" "\<forall>c \<in> set cs. bt_shape h c"
    by (auto elim: bt_shape_cases)
  then obtain cs' c where cs: "cs = c # cs'" "length cs' = length ks"
    by (metis length_Suc_conv)
  obtain kv c' where c': "remove_min c = Some (kv, c')" "bt_shape h c'" "inorder c = kv # inorder c'"
    using Suc.IH [of c] n cs Suc.prems by auto
  have "remove_min n = Some (kv, Node False ks vs (c' # cs'))"
    using n(1) cs c'(1) by (simp add: node_simps vec_simps)
  moreover have "inorder n = kv # inorder (Node False ks vs (c' # cs'))"
    using n cs c'(3) by (simp add: inorder_internal interleave_def)
  ultimately show ?case
    using Suc.prems(1) n cs c'(2) by auto
qed

text \<open>
  Rebalancing around the separator \<open>i\<close>: merging the two neighbours, or moving one entry through
  the separator. The contents of the parent stay the same.
\<close>

lemma parent_split:
  assumes "bt_shape (Suc h) (Node False ks vs cs)" "i < length ks"
  obtains ls k rs lv v rv as a b bs where
    "ks = ls @ k # rs" "vs = lv @ v # rv" "cs = as @ a # b # bs"
    "length ls = i" "length lv = i" "length as = i" "length rv = length rs" "length bs = length rs"
    "bt_shape h a" "bt_shape h b" "\<forall>c \<in> set as. bt_shape h c" "\<forall>c \<in> set bs. bt_shape h c"
proof
  have len: "length vs = length ks" "length cs = Suc (length ks)" "\<forall>c \<in> set cs. bt_shape h c"
    using assms(1) by auto
  show "ks = take i ks @ ks ! i # drop (Suc i) ks" "vs = take i vs @ vs ! i # drop (Suc i) vs"
    "cs = take i cs @ cs ! i # cs ! Suc i # drop (Suc (Suc i)) cs"
    using len assms(2) by (simp_all add: id_take_nth_drop take_drop_pair)
  show "length (take i ks) = i" "length (take i vs) = i" "length (take i cs) = i"
    "length (drop (Suc i) vs) = length (drop (Suc i) ks)"
    "length (drop (Suc (Suc i)) cs) = length (drop (Suc i) ks)"
    "bt_shape h (cs ! i)" "bt_shape h (cs ! Suc i)"
    using len assms(2) by auto
  show "\<forall>c \<in> set (take i cs). bt_shape h c" "\<forall>c \<in> set (drop (Suc (Suc i)) cs). bt_shape h c"
    using len(3) by (auto dest: in_set_takeD in_set_dropD)
qed

definition merged :: "('k, 'v) BTreeNode \<Rightarrow> 'k \<Rightarrow> 'v \<Rightarrow> ('k, 'v) BTreeNode \<Rightarrow> ('k, 'v) BTreeNode" where
  "merged a k v b = Node (is_leaf a) (node_keys a @ k # node_keys b) (node_values a @ v # node_values b)
      (if is_leaf a then node_children a else node_children a @ node_children b)"

lemma merge_pair:
  assumes "bt_shape h a" "bt_shape h b" "length (node_keys a) + length (node_keys b) < 15"
  shows "bt_shape h (merged a k v b)" "inorder (merged a k v b) = inorder a @ (k, v) # inorder b"
    "bt_nonempty a \<Longrightarrow> bt_nonempty b \<Longrightarrow> bt_nonempty (merged a k v b)"
proof -
  show "bt_shape h (merged a k v b)" "bt_nonempty a \<Longrightarrow> bt_nonempty b \<Longrightarrow> bt_nonempty (merged a k v b)"
    using assms by (cases h; cases a; cases b; auto simp: merged_def)+
  show "inorder (merged a k v b) = inorder a @ (k, v) # inorder b"
    using assms(1,2) by (cases h; cases a; cases b) (auto simp: merged_def intro!: inorder_join)
qed

lemma merge_children_spec:
  assumes sh: "bt_shape (Suc h) (Node False ks vs cs)" and i: "i < length ks"
    and fit: "length (node_keys (cs ! i)) + length (node_keys (cs ! Suc i)) < 15"
    and ne: "\<forall>c \<in> set cs. bt_nonempty c"
  shows "\<exists>ks' vs' cs'. merge_children (Node False ks vs cs) i = Some (Node False ks' vs' cs') \<and>
    bt_shape (Suc h) (Node False ks' vs' cs') \<and>
    inorder (Node False ks' vs' cs') = inorder (Node False ks vs cs) \<and>
    (\<forall>c \<in> set cs'. bt_nonempty c) \<and> ks' = take i ks @ drop (Suc i) ks"
proof -
  obtain ls k rs lv v rv as a b bs where d: "ks = ls @ k # rs" "vs = lv @ v # rv" "cs = as @ a # b # bs"
    "length ls = i" "length lv = i" "length as = i" "length rv = length rs" "length bs = length rs"
    "bt_shape h a" "bt_shape h b" "\<forall>c \<in> set as. bt_shape h c" "\<forall>c \<in> set bs. bt_shape h c"
    using parent_split [OF sh i] by metis
  let ?m = "merged a k v b"
  have ab: "cs ! i = a" "cs ! Suc i = b"
    using d(3,6) by (auto simp: nth_append)
  note m = merge_pair [OF d(9,10) fit [unfolded ab], of k v]
  have "merge_children (Node False ks vs cs) i = Some (Node False (ls @ rs) (lv @ rv) (as @ ?m # bs))"
    using d by (simp add: merge_children_def vec_simps nth_append list_update_append merged_def)
  moreover have "bt_shape (Suc h) (Node False (ls @ rs) (lv @ rv) (as @ ?m # bs))"
    using sh d m(1) by auto
  moreover have "inorder (Node False (ls @ rs) (lv @ rv) (as @ ?m # bs)) = inorder (Node False ks vs cs)"
    using d m(2) inorder_pair [of as ls lv] by simp
  moreover have "\<forall>c \<in> set (as @ ?m # bs). bt_nonempty c"
    using m(3) ne d(3) by auto
  moreover have "ls @ rs = take i ks @ drop (Suc i) ks"
    using d by simp
  ultimately show ?thesis by blast
qed

definition drop_last :: "('k, 'v) BTreeNode \<Rightarrow> ('k, 'v) BTreeNode" where
  "drop_last a = Node (is_leaf a) (butlast (node_keys a)) (butlast (node_values a)) (butlast (node_children a))"

definition drop_first :: "('k, 'v) BTreeNode \<Rightarrow> ('k, 'v) BTreeNode" where
  "drop_first a = Node (is_leaf a) (tl (node_keys a)) (tl (node_values a)) (tl (node_children a))"

definition add_first :: "'k \<Rightarrow> 'v \<Rightarrow> ('k, 'v) BTreeNode list \<Rightarrow> ('k, 'v) BTreeNode \<Rightarrow> ('k, 'v) BTreeNode" where
  "add_first k v cs b = Node (is_leaf b) (k # node_keys b) (v # node_values b) (cs @ node_children b)"

definition add_last :: "'k \<Rightarrow> 'v \<Rightarrow> ('k, 'v) BTreeNode list \<Rightarrow> ('k, 'v) BTreeNode \<Rightarrow> ('k, 'v) BTreeNode" where
  "add_last k v cs b = Node (is_leaf b) (node_keys b @ [k]) (node_values b @ [v]) (node_children b @ cs)"

lemma rotate_right:
  fixes a b :: "('k, 'v) BTreeNode" and k :: 'k and v :: 'v
  assumes a: "bt_shape h a" "1 < length (node_keys a)" "bt_nonempty a"
    and b: "bt_shape h b" "length (node_keys b) < 15" "bt_nonempty b"
  defines "b' \<equiv> add_first k v (if is_leaf b then [] else [last (node_children a)]) b"
  shows "bt_shape h (drop_last a)" "bt_shape h b'" "bt_nonempty (drop_last a)" "bt_nonempty b'"
    "inorder (drop_last a) @ (last (node_keys a), last (node_values a)) # inorder b' = inorder a @ (k, v) # inorder b"
proof -
  obtain l ka k0 va v0 ca where na: "a = Node l (ka @ [k0]) (va @ [v0]) ca" "length va = length ka" "ka \<noteq> []"
    using a(1,2) by (cases a; cases h; cases "node_keys a" rule: rev_cases; cases "node_values a" rule: rev_cases) auto
  obtain kb vb cb where nb: "b = Node l kb vb cb" "length vb = length kb"
    using b(1) a(1) na by (cases b; cases h) auto
  have "bt_shape h (drop_last a) \<and> bt_shape h b' \<and> bt_nonempty (drop_last a) \<and> bt_nonempty b' \<and>
    inorder (drop_last a) @ (k0, v0) # inorder b' = inorder a @ (k, v) # inorder b"
  proof (cases h)
    case 0
    then show ?thesis
      using assms na nb by (auto simp: drop_last_def add_first_def)
  next
    case (Suc g)
    then obtain ca' z where ca: "ca = ca' @ [z]" "length ca' = Suc (length ka)" and l: "\<not> l"
      using a(1) na by (auto simp: length_Suc_conv_rev)
    have cb: "cb \<noteq> []" using b(1) nb Suc by auto
    have "inorder a = inorder (drop_last a) @ (k0, v0) # inorder z"
      using na ca l inorder_join [of va ka False ca' "[z]" k0 "[]" v0 "[]"]
      by (simp add: drop_last_def inorder_internal interleave_def)
    moreover have "inorder b' = inorder z @ (k, v) # inorder b"
      using nb ca l cb na inorder_join [of "[]" "[]" False "[z]" cb k kb v vb]
      by (simp add: b'_def add_first_def inorder_internal interleave_def)
    moreover have "bt_shape h (drop_last a)" "bt_shape h b'" "bt_nonempty (drop_last a)" "bt_nonempty b'"
      using a b na nb ca l Suc by (auto simp: drop_last_def b'_def add_first_def dest: in_set_butlastD)
    ultimately show ?thesis by simp
  qed
  then show "bt_shape h (drop_last a)" "bt_shape h b'" "bt_nonempty (drop_last a)" "bt_nonempty b'"
    "inorder (drop_last a) @ (last (node_keys a), last (node_values a)) # inorder b' = inorder a @ (k, v) # inorder b"
    using na by simp_all
qed

lemma rotate_left:
  fixes a b :: "('k, 'v) BTreeNode" and k :: 'k and v :: 'v
  assumes a: "bt_shape h a" "length (node_keys a) < 15" "bt_nonempty a"
    and b: "bt_shape h b" "1 < length (node_keys b)" "bt_nonempty b"
  defines "a' \<equiv> add_last k v (if is_leaf a then [] else [hd (node_children b)]) a"
  shows "bt_shape h a'" "bt_shape h (drop_first b)" "bt_nonempty a'" "bt_nonempty (drop_first b)"
    "inorder a' @ (hd (node_keys b), hd (node_values b)) # inorder (drop_first b) = inorder a @ (k, v) # inorder b"
proof -
  obtain l kb k0 vb v0 cb where nb: "b = Node l (k0 # kb) (v0 # vb) cb" "length vb = length kb" "kb \<noteq> []"
    using b(1,2) by (cases b; cases h; cases "node_keys b"; cases "node_values b") auto
  obtain ka va ca where na: "a = Node l ka va ca" "length va = length ka"
    using b(1) a(1) nb by (cases a; cases h) auto
  have "bt_shape h a' \<and> bt_shape h (drop_first b) \<and> bt_nonempty a' \<and> bt_nonempty (drop_first b) \<and>
    inorder a' @ (k0, v0) # inorder (drop_first b) = inorder a @ (k, v) # inorder b"
  proof (cases h)
    case 0
    then show ?thesis
      using assms na nb by (auto simp: drop_first_def add_last_def)
  next
    case (Suc g)
    then obtain z cb' where cb: "cb = z # cb'" "length cb' = Suc (length kb)" and l: "\<not> l"
      using b(1) nb by (auto simp: length_Suc_conv)
    have ca: "length ca = Suc (length ka)" "cb' \<noteq> []" using a(1) na Suc cb(2) by auto
    have "inorder b = inorder z @ (k0, v0) # inorder (drop_first b)"
      using nb cb l ca(2) inorder_join [of "[]" "[]" False "[z]" cb' k0 kb v0 vb]
      by (auto simp: drop_first_def inorder_internal interleave_def)
    moreover have "inorder a' = inorder a @ (k, v) # inorder z"
      using na nb cb l ca(1) inorder_join [of va ka False ca "[z]" k "[]" v "[]"]
      by (simp add: a'_def add_last_def inorder_internal interleave_def)
    moreover have "bt_shape h a'" "bt_shape h (drop_first b)" "bt_nonempty a'" "bt_nonempty (drop_first b)"
      using a b na nb cb l Suc by (auto simp: drop_first_def a'_def add_last_def)
    ultimately show ?thesis by simp
  qed
  then show "bt_shape h a'" "bt_shape h (drop_first b)" "bt_nonempty a'" "bt_nonempty (drop_first b)"
    "inorder a' @ (hd (node_keys b), hd (node_values b)) # inorder (drop_first b) = inorder a @ (k, v) # inorder b"
    using nb by simp_all
qed

text \<open>What a rebalancing step keeps: the shape, the contents, and no empty child.\<close>

definition rebalanced ::
    "nat \<Rightarrow> ('k, 'v) BTreeNode \<Rightarrow> ('k, 'v) BTreeNode \<Rightarrow> bool" where
  "rebalanced h n n' \<longleftrightarrow> \<not> is_leaf n' \<and> bt_shape h n' \<and> inorder n' = inorder n \<and>
     (\<forall>c \<in> set (node_children n'). bt_nonempty c)"

lemma right_part_set: "length ps = length cs \<Longrightarrow> set ps \<subseteq> set (right_part ps cs)"
  by (induction ps cs rule: list_induct2) auto

lemma node_keys_inorder:
  assumes "bt_shape h n"
  shows "set (node_keys n) \<subseteq> fst ` set (inorder n)"
proof -
  obtain l ks vs cs where n: "n = Node l ks vs cs" by (cases n)
  have "set (zip ks vs) \<subseteq> set (inorder n)" "length vs = length ks"
    using assms n right_part_set [of "zip ks vs" "map inorder (tl cs)"]
    by (cases h; cases cs; auto simp: inorder_internal interleave_def)+
  then show ?thesis
    using n by (metis BTreeNode.sel(2) image_mono map_fst_zip set_map)
qed

lemma borrow_from_left_spec:
  assumes sh: "bt_shape (Suc h) (Node False ks vs cs)" and i: "0 < i" "i \<le> length ks"
    and a: "7 < length (node_keys (cs ! (i - 1)))" and b: "length (node_keys (cs ! i)) \<le> 7"
    and ne: "\<forall>c \<in> set cs. bt_nonempty c"
  shows "\<exists>n'. borrow_from_left (Node False ks vs cs) i = Some n' \<and> rebalanced (Suc h) (Node False ks vs cs) n' \<and>
    set (node_keys n') \<subseteq> set ks \<union> fst ` set (inorder (cs ! (i - 1)))"
proof -
  obtain j where j: "i = Suc j" "j < length ks" using i by (cases i) auto
  obtain ls k rs lv v rv as a b bs where d: "ks = ls @ k # rs" "vs = lv @ v # rv" "cs = as @ a # b # bs"
    "length ls = j" "length lv = j" "length as = j" "length rv = length rs" "length bs = length rs"
    "bt_shape h a" "bt_shape h b" "\<forall>c \<in> set as. bt_shape h c" "\<forall>c \<in> set bs. bt_shape h c"
    using parent_split [OF sh j(2)] by metis
  have ab: "cs ! (i - 1) = a" "cs ! i = b" using d j(1) by (auto simp: nth_append)
  have ab_keys: "1 < length (node_keys a)" "length (node_keys b) < 15" "bt_nonempty a" "bt_nonempty b"
    using assms(4,5) ne ab d(3) by auto
  let ?b = "add_first k v (if is_leaf b then [] else [last (node_children a)]) b"
  let ?n = "Node False (ls @ last (node_keys a) # rs) (lv @ last (node_values a) # rv) (as @ drop_last a # ?b # bs)"
  note r = rotate_right [OF d(9) ab_keys(1,3) d(10) ab_keys(2,4)]
  have ne_a: "node_keys a \<noteq> []" "node_values a \<noteq> []" "is_leaf a = is_leaf b"
      "is_leaf b \<Longrightarrow> node_children a = []" "\<not> is_leaf b \<Longrightarrow> node_children a \<noteq> []"
    using ab_keys(1) d(9,10) by (cases h; cases a; cases b; auto)+
  have "borrow_from_left (Node False ks vs cs) i = Some ?n"
    using d j(1) ne_a
    by (simp add: borrow_from_left_def vec_simps nth_append list_update_append drop_last_def add_first_def)
  moreover have "bt_shape (Suc h) ?n"
    using sh d r(1) r(2) [of k v] by auto
  moreover have "inorder ?n = inorder (Node False ks vs cs)"
    using d inorder_pair(1) [of as ls lv] r(5) [of k v] by simp
  moreover have "last (node_keys a) \<in> fst ` set (inorder a)"
    using node_keys_inorder [OF d(9)] ne_a(1) last_in_set by blast
  ultimately show ?thesis
    using ne d(1,3) ab(1) r(3) r(4) [of k v] by (auto simp: rebalanced_def)
qed

lemma borrow_from_right_spec:
  assumes sh: "bt_shape (Suc h) (Node False ks vs cs)" and i: "i < length ks"
    and a: "length (node_keys (cs ! i)) \<le> 7" and b: "7 < length (node_keys (cs ! Suc i))"
    and ne: "\<forall>c \<in> set cs. bt_nonempty c"
  shows "\<exists>n'. borrow_from_right (Node False ks vs cs) i = Some n' \<and> rebalanced (Suc h) (Node False ks vs cs) n' \<and>
    set (node_keys n') \<subseteq> set ks \<union> fst ` set (inorder (cs ! Suc i))"
proof -
  obtain ls k rs lv v rv as a b bs where d: "ks = ls @ k # rs" "vs = lv @ v # rv" "cs = as @ a # b # bs"
    "length ls = i" "length lv = i" "length as = i" "length rv = length rs" "length bs = length rs"
    "bt_shape h a" "bt_shape h b" "\<forall>c \<in> set as. bt_shape h c" "\<forall>c \<in> set bs. bt_shape h c"
    using parent_split [OF sh i] by metis
  have ab: "cs ! i = a" "cs ! Suc i = b" using d by (auto simp: nth_append)
  have ab_keys: "length (node_keys a) < 15" "1 < length (node_keys b)" "bt_nonempty a" "bt_nonempty b"
    using assms(3,4) ne ab d(3) by auto
  let ?a = "add_last k v (if is_leaf a then [] else [hd (node_children b)]) a"
  let ?n = "Node False (ls @ hd (node_keys b) # rs) (lv @ hd (node_values b) # rv) (as @ ?a # drop_first b # bs)"
  note r = rotate_left [OF d(9) ab_keys(1,3) d(10) ab_keys(2,4)]
  have ne_b: "node_keys b \<noteq> []" "node_values b \<noteq> []" "is_leaf b = is_leaf a"
      "is_leaf a \<Longrightarrow> node_children b = []" "\<not> is_leaf a \<Longrightarrow> node_children b \<noteq> []"
    using ab_keys(2) d(9,10) by (cases h; cases a; cases b; auto)+
  have "borrow_from_right (Node False ks vs cs) i = Some ?n"
    using d ne_b
    by (simp add: borrow_from_right_def vec_simps nth_append list_update_append drop_first_def add_last_def
        hd_conv_nth drop_Suc)
  moreover have "bt_shape (Suc h) ?n"
    using sh d r(1) [of k v] r(2) by auto
  moreover have "inorder ?n = inorder (Node False ks vs cs)"
    using d inorder_pair(1) [of as ls lv] r(5) [of k v] by simp
  moreover have "hd (node_keys b) \<in> fst ` set (inorder b)"
    using node_keys_inorder [OF d(10)] ne_b(1) hd_in_set by blast
  ultimately show ?thesis
    using ne d(1,3) ab(2) r(3) [of k v] r(4) by (auto simp: rebalanced_def)
qed

text \<open>The keys a parent can have after rebalancing around child \<open>i\<close>.\<close>

definition fixed_keys :: "'k list \<Rightarrow> ('k, 'v) BTreeNode list \<Rightarrow> nat \<Rightarrow> 'k set" where
  "fixed_keys ks cs i = set ks \<union>
     (if 0 < i then fst ` set (inorder (cs ! (i - 1))) else {}) \<union>
     (if i < length ks then fst ` set (inorder (cs ! Suc i)) else {})"

lemma fix_child_spec:
  assumes sh: "bt_shape (Suc h) (Node False ks vs cs)" and i: "i \<le> length ks" and ks: "ks \<noteq> []"
    and thin: "length (node_keys (cs ! i)) \<le> 7" and ne: "\<forall>c \<in> set cs. bt_nonempty c"
  shows "\<exists>n'. fix_child (Node False ks vs cs) i = Some n' \<and> rebalanced (Suc h) (Node False ks vs cs) n' \<and>
    set (node_keys n') \<subseteq> fixed_keys ks cs i"
proof -
  have len: "length cs = Suc (length ks)" using sh by auto
  have merge: "\<exists>n'. merge_children (Node False ks vs cs) j = Some n' \<and> rebalanced (Suc h) (Node False ks vs cs) n' \<and>
      set (node_keys n') \<subseteq> fixed_keys ks cs i"
    if "j < length ks" "length (node_keys (cs ! j)) \<le> 7" "length (node_keys (cs ! Suc j)) \<le> 7" for j
  proof -
    have "set (take j ks @ drop (Suc j) ks) \<subseteq> fixed_keys ks cs i"
      by (auto simp: fixed_keys_def dest: in_set_takeD in_set_dropD)
    then show ?thesis
      using merge_children_spec [OF sh that(1) _ ne] that by (auto simp: rebalanced_def)
  qed
  have get: "j \<le> length ks \<Longrightarrow> vec_get cs j = Some (cs ! j)" for j
    using len by (simp add: vec_simps)
  consider (left) "0 < i" "7 < length (node_keys (cs ! (i - 1)))"
    | (right) "\<not> (0 < i \<and> 7 < length (node_keys (cs ! (i - 1))))" "i < length ks" "7 < length (node_keys (cs ! Suc i))"
    | (merge_left) "0 < i" "\<not> 7 < length (node_keys (cs ! (i - 1)))" "\<not> (i < length ks \<and> 7 < length (node_keys (cs ! Suc i)))"
    | (merge_right) "i = 0" "\<not> 7 < length (node_keys (cs ! Suc i))"
    using ks by (metis length_greater_0_conv neq0_conv)
  then show ?thesis
  proof cases
    case left
    then obtain n' where "borrow_from_left (Node False ks vs cs) i = Some n'"
        "rebalanced (Suc h) (Node False ks vs cs) n'" "set (node_keys n') \<subseteq> set ks \<union> fst ` set (inorder (cs ! (i - 1)))"
      using borrow_from_left_spec [OF sh left(1) i left(2) thin ne] by blast
    then show ?thesis
      using left i by (auto simp: fix_child_def get fixed_keys_def)
  next
    case right
    then obtain n' where "borrow_from_right (Node False ks vs cs) i = Some n'"
        "rebalanced (Suc h) (Node False ks vs cs) n'" "set (node_keys n') \<subseteq> set ks \<union> fst ` set (inorder (cs ! Suc i))"
      using borrow_from_right_spec [OF sh right(2) thin right(3) ne] by blast
    then show ?thesis
      using right i len by (auto simp: fix_child_def get fixed_keys_def)
  next
    case merge_left
    then show ?thesis
      using merge [of "i - 1"] i thin len by (auto simp: fix_child_def get Suc_le_eq)
  next
    case merge_right
    then show ?thesis
      using merge [of 0] ks thin len by (auto simp: fix_child_def get Suc_le_eq)
  qed
qed

lemma neighbour_keys:
  assumes sh: "bt_shape (Suc h) (Node False ks vs cs)" and i: "i < length ks"
    and st: "sorted_keys (inorder (Node False ks vs cs))"
  shows "\<forall>x \<in> fst ` set (inorder (cs ! i)). x < ks ! i" "\<forall>x \<in> fst ` set (inorder (cs ! Suc i)). ks ! i < x"
proof -
  obtain ls k rs lv v rv as a b bs where d: "ks = ls @ k # rs" "vs = lv @ v # rv" "cs = as @ a # b # bs"
    "length ls = i" "length lv = i" "length as = i"
    using parent_split [OF sh i] by metis
  have "sorted_keys (inorder a @ (k, v) # inorder b)"
    using st d inorder_pair(1) [of as ls lv] sorted_keys_middle by metis
  then have "\<forall>x \<in> fst ` set (inorder a). x < k" "\<forall>x \<in> fst ` set (inorder b). k < x"
    by (auto simp: sorted_wrt_append)
  moreover have "cs ! i = a" "cs ! Suc i = b" "ks ! i = k"
    using d by (auto simp: nth_append)
  ultimately show "\<forall>x \<in> fst ` set (inorder (cs ! i)). x < ks ! i" "\<forall>x \<in> fst ` set (inorder (cs ! Suc i)). ks ! i < x"
    by simp_all
qed

lemma fixed_keys_avoid:
  assumes sh: "bt_shape (Suc h) (Node False ks vs cs)" and st: "sorted_keys (inorder (Node False ks vs cs))"
    and key: "key \<notin> set ks"
  shows "key \<notin> fixed_keys ks cs (child_index ks key)"
proof -
  let ?i = "child_index ks key"
  note bounds = child_index_bounds [OF inorder_keys(1) [OF sh st] key]
  have "key \<notin> fst ` set (inorder (cs ! (?i - 1)))" if "0 < ?i"
  proof -
    have j: "?i - 1 < length ks" using that child_index_le [of ks key] by simp
    have "ks ! (?i - 1) \<in> set (take ?i ks)"
      using that j by (auto simp: in_set_conv_nth intro!: exI [of _ "?i - 1"])
    then show ?thesis
      using neighbour_keys(1) [OF sh j st] bounds(1) by (meson order.asym)
  qed
  moreover have "key \<notin> fst ` set (inorder (cs ! Suc ?i))" if "?i < length ks"
  proof -
    have "ks ! ?i \<in> set (drop ?i ks)"
      using that by (metis Cons_nth_drop_Suc list.set_intros(1))
    then show ?thesis
      using neighbour_keys(2) [OF sh that st] bounds(2) by (meson order.asym)
  qed
  ultimately show ?thesis
    using key by (auto simp: fixed_keys_def)
qed

lemma descend_remove_spec:
  assumes sh: "bt_shape (Suc h) (Node False ks vs cs)" and st: "sorted_keys (inorder (Node False ks vs cs))"
    and ne: "bt_removable (Node False ks vs cs)" and key: "key \<notin> set ks"
  shows "\<exists>ks' vs' cs' i L R. descend_remove (Node False ks vs cs) key = Some (Node False ks' vs' cs', i) \<and>
    bt_shape (Suc h) (Node False ks' vs' cs') \<and>
    inorder (Node False ks vs cs) = L @ inorder (cs' ! i) @ R \<and>
    i < length cs' \<and> bt_nonempty (cs' ! i) \<and>
    (\<forall>c. inorder (Node False ks' vs' (cs'[i := c])) = L @ inorder c @ R) \<and> around key L R"
proof -
  let ?i = "child_index ks key" and ?n = "Node False ks vs cs"
  have i: "?i \<le> length ks" "?i < length cs"
    using child_index_le [of ks key] sh by auto
  have ne': "\<forall>c \<in> set cs. bt_nonempty c"
    using ne by (simp add: bt_removable_def)
  have same: "rebalanced (Suc h) ?n ?n" "set ks \<subseteq> fixed_keys ks cs ?i"
    using sh ne' by (auto simp: rebalanced_def fixed_keys_def)
  have thin: "length (node_keys (cs ! ?i)) \<le> 7 \<Longrightarrow> ks \<noteq> []"
    using ne i sh by (cases cs) (auto simp: bt_removable_def)
  obtain n' where n': "(if length (node_keys (cs ! ?i)) \<le> 7 then fix_child ?n ?i else Some ?n) = Some n'"
      "rebalanced (Suc h) ?n n'" "set (node_keys n') \<subseteq> fixed_keys ks cs ?i"
    using fix_child_spec [OF sh i(1) thin _ ne'] same by (cases "length (node_keys (cs ! ?i)) \<le> 7") auto
  obtain ks' vs' cs' where N: "n' = Node False ks' vs' cs'" "bt_shape (Suc h) (Node False ks' vs' cs')"
      "inorder (Node False ks' vs' cs') = inorder ?n" "\<forall>c \<in> set cs'. bt_nonempty c"
    using n'(2) by (cases n') (auto simp: rebalanced_def)
  let ?j = "child_index ks' key"
  have "key \<notin> set ks'"
    using fixed_keys_avoid [OF sh st key] n'(3) N(1) by auto
  then have "position (\<lambda>k. k = key) ks' = None"
    by (auto simp: position_None_iff)
  then obtain L R where LR: "\<forall>c. inorder (Node False ks' vs' (cs'[?j := c])) = L @ inorder c @ R"
      "around key L R" "?j < length cs'"
    using locate_key [OF N(2)] N(3) st by metis
  moreover have "inorder ?n = L @ inorder (cs' ! ?j) @ R"
    using N(3) LR(1,3) by (metis list_update_id)
  moreover have "descend_remove ?n key = Some (Node False ks' vs' cs', ?j)"
    using n'(1) N(1) i(2) by (simp add: descend_remove_def vec_simps Let_def split: if_splits)
  ultimately show ?thesis
    using N(2,4) nth_mem [OF LR(3)] by blast
qed

lemma alist_del_absent: "k \<notin> fst ` set kvs \<Longrightarrow> alist_del k kvs = kvs"
  by (auto simp: alist_del_def intro!: filter_True)

lemma alist_del_middle:
  assumes "sorted_keys (L @ (k, v) # R)"
  shows "alist_del k (L @ (k, v) # R) = L @ R"
proof -
  have "around k L R"
    using assms by (auto simp: around_def sorted_wrt_append)
  then show ?thesis
    using alist_del_local [of k L R "[(k, v)]"] by (simp add: alist_del_def)
qed

text \<open>Removing a key held by an internal node: predecessor, successor, or merge and descend.\<close>

lemma remove_found_spec:
  fixes key :: "'k::linorder" and vs :: "'v list" and cs :: "('k, 'v) BTreeNode list"
  assumes sh: "bt_shape (Suc h) (Node False ks vs cs)" and st: "sorted_keys (inorder (Node False ks vs cs))"
    and ne: "bt_removable (Node False ks vs cs)" and pos: "position (\<lambda>k. k = key) ks = Some i"
    and IH: "\<And>c :: ('k, 'v) BTreeNode. bt_shape h c \<Longrightarrow> sorted_keys (inorder c) \<Longrightarrow> bt_removable c \<Longrightarrow>
      \<exists>c'. remove_from_node c key = Some (map_of (inorder c) key, c') \<and> bt_shape h c' \<and>
        inorder c' = alist_del key (inorder c)"
  shows "\<exists>n'. remove_from_node (Node False ks vs cs) key =
      Some (map_of (inorder (Node False ks vs cs)) key, n') \<and> bt_shape (Suc h) n' \<and>
      inorder n' = alist_del key (inorder (Node False ks vs cs))"
proof -
  let ?n = "Node False ks vs cs"
  have i: "i < length ks" "ks ! i = key"
    using position_SomeD [OF pos] by auto
  obtain ls k rs lv v rv as a b bs where d: "ks = ls @ k # rs" "vs = lv @ v # rv" "cs = as @ a # b # bs"
    "length ls = i" "length lv = i" "length as = i" "length rv = length rs" "length bs = length rs"
    "bt_shape h a" "bt_shape h b" "\<forall>c \<in> set as. bt_shape h c" "\<forall>c \<in> set bs. bt_shape h c"
    using parent_split [OF sh i(1)] by metis
  have k: "k = key" "cs ! i = a" "cs ! Suc i = b" "bt_nonempty a" "bt_nonempty b"
    using i d ne by (auto simp: nth_append bt_removable_def)
  have old: "map_of (inorder ?n) key = Some v"
    using key_in_node(2) [OF sh st, of key i] pos d by (simp add: nth_append)
  let ?L = "left_part (map inorder as) (zip ls lv)" and ?R = "right_part (zip rs rv) (map inorder bs)"
  have eq: "inorder ?n = (?L @ inorder a) @ (key, v) # (inorder b @ ?R)"
    using d k(1) inorder_pair(1) [of as ls lv] by simp
  then have del: "alist_del key (inorder ?n) = ?L @ inorder a @ inorder b @ ?R"
    using alist_del_middle st by (metis append.assoc)
  consider (pred) "7 < length (node_keys a)" | (succ) "\<not> 7 < length (node_keys a)" "7 < length (node_keys b)"
    | (merge) "\<not> 7 < length (node_keys a)" "\<not> 7 < length (node_keys b)" by blast
  then show ?thesis
  proof cases
    case pred
    obtain pk pv a' where a': "remove_max a = Some ((pk, pv), a')" "bt_shape h a'" "inorder a = inorder a' @ [(pk, pv)]"
      using remove_max_spec [OF d(9) k(4)] by auto
    let ?n' = "Node False (ls @ pk # rs) (lv @ pv # rv) (as @ a' # b # bs)"
    have "remove_from_node ?n key = Some (Some v, ?n')"
      using pos pred a'(1) d k by (simp add: node_simps vec_simps nth_append list_update_append)
    moreover have "inorder ?n' = alist_del key (inorder ?n)"
      unfolding del using d a'(3) inorder_pair(1) [of as ls lv] by simp
    moreover have "bt_shape (Suc h) ?n'"
      using sh d a'(2) by auto
    ultimately show ?thesis using old by auto
  next
    case succ
    obtain sk sv b' where b': "remove_min b = Some ((sk, sv), b')" "bt_shape h b'" "inorder b = (sk, sv) # inorder b'"
      using remove_min_spec [OF d(10) k(5)] by auto
    let ?n' = "Node False (ls @ sk # rs) (lv @ sv # rv) (as @ a # b' # bs)"
    have "remove_from_node ?n key = Some (Some v, ?n')"
      using pos succ b'(1) d k by (simp add: node_simps vec_simps nth_append list_update_append)
    moreover have "inorder ?n' = alist_del key (inorder ?n)"
      unfolding del using d b'(3) inorder_pair(1) [of as ls lv] by simp
    moreover have "bt_shape (Suc h) ?n'"
      using sh d b'(2) by auto
    ultimately show ?thesis using old by auto
  next
    case merge
    then have "length (node_keys a) + length (node_keys b) < 15" by simp
    note m = merge_pair [OF d(9,10) this, of k v]
    have mc: "merge_children ?n i = Some (Node False (ls @ rs) (lv @ rv) (as @ merged a k v b # bs))"
      using d by (simp add: merge_children_def vec_simps nth_append list_update_append merged_def)
    have meq: "inorder ?n = ?L @ inorder (merged a k v b) @ ?R"
      using eq m(2) k(1) by simp
    then have mst: "sorted_keys (inorder (merged a k v b))"
      using st sorted_keys_middle by metis
    obtain c' where c': "remove_from_node (merged a k v b) key = Some (map_of (inorder (merged a k v b)) key, c')"
        "bt_shape h c'" "inorder c' = alist_del key (inorder (merged a k v b))"
      using IH [OF m(1) mst bt_nonempty_removable [OF m(3) [OF k(4,5)]]] by blast
    have "map_of (inorder (merged a k v b)) key = Some v"
      using map_of_sorted [OF mst] m(2) k(1) by auto
    then have "remove_from_node ?n key = Some (Some v, Node False (ls @ rs) (lv @ rv) (as @ c' # bs))"
      using pos merge c'(1) d k mc
      by (simp add: node_simps vec_simps nth_append list_update_append)
    moreover have "inorder (Node False (ls @ rs) (lv @ rv) (as @ c' # bs)) = alist_del key (inorder ?n)"
      unfolding del using d c'(3) m(2) k(1) mst inorder_pair(2) [of as ls lv] alist_del_middle by simp
    moreover have "bt_shape (Suc h) (Node False (ls @ rs) (lv @ rv) (as @ c' # bs))"
      using sh d c'(2) by auto
    ultimately show ?thesis using old by auto
  qed
qed

theorem remove_from_node_spec:
  "bt_shape h n \<Longrightarrow> sorted_keys (inorder n) \<Longrightarrow> bt_removable n \<Longrightarrow>
   \<exists>n'. remove_from_node n key = Some (map_of (inorder n) key, n') \<and> bt_shape h n' \<and>
     inorder n' = alist_del key (inorder n)"
proof (induction h arbitrary: n)
  case 0
  then obtain ks vs where n: "n = Node True ks vs []" "length vs = length ks" "length ks \<le> 15"
    by (auto elim: bt_shape_cases)
  show ?case
  proof (cases "position (\<lambda>k. k = key) ks")
    case None
    then have absent: "map_of (zip ks vs) key = None" "key \<notin> fst ` set (zip ks vs)"
      using n(2) by (auto simp: position_None_iff dest: set_zip_leftD)
    have "remove_from_node n key = Some (None, n)"
      using None n(1) by (simp add: node_simps)
    then show ?thesis
      using 0(1) absent alist_del_absent [OF absent(2)] n(1) by (metis inorder_leaf)
  next
    case (Some i)
    note i = position_SomeD [OF Some]
    have "zip ks vs = zip (take i ks) (take i vs) @ (key, vs ! i) # zip (drop (Suc i) ks) (drop (Suc i) vs)"
      using i n(2) id_take_nth_drop [of i "zip ks vs"] by (simp add: take_zip drop_zip)
    then have "alist_del key (zip ks vs) = zip (take i ks) (take i vs) @ zip (drop (Suc i) ks) (drop (Suc i) vs)"
      using alist_del_middle 0(2) n(1) by (metis inorder_leaf)
    then show ?thesis
      using Some i n key_in_node(2) [OF 0(1,2), of key i] by (simp add: node_simps vec_simps)
  qed
next
  case (Suc h)
  then obtain ks vs cs where n: "n = Node False ks vs cs"
    by (auto elim: bt_shape_cases)
  show ?case
  proof (cases "position (\<lambda>k. k = key) ks")
    case None
    then have "key \<notin> set ks" by (auto simp: position_None_iff)
    then obtain ks' vs' cs' i L R where d: "descend_remove n key = Some (Node False ks' vs' cs', i)"
        "bt_shape (Suc h) (Node False ks' vs' cs')" "inorder n = L @ inorder (cs' ! i) @ R"
        "i < length cs'" "bt_nonempty (cs' ! i)"
        "\<And>c. inorder (Node False ks' vs' (cs'[i := c])) = L @ inorder c @ R" "around key L R"
      using descend_remove_spec [of h ks vs cs key] Suc.prems n by auto
    have "bt_shape h (cs' ! i)" "sorted_keys (inorder (cs' ! i))"
      using d(2,4) Suc.prems(2) sorted_keys_middle [of L _ R] unfolding d(3) by auto
    then obtain c' where c': "remove_from_node (cs' ! i) key = Some (map_of (inorder (cs' ! i)) key, c')"
        "bt_shape h c'" "inorder c' = alist_del key (inorder (cs' ! i))"
      using Suc.IH bt_nonempty_removable [OF d(5)] by blast
    have "remove_from_node n key = Some (map_of (inorder n) key, Node False ks' vs' (cs'[i := c']))"
      unfolding d(3) map_of_local [OF d(7)]
      using None d(1,4) c'(1) n by (simp add: node_simps vec_simps)
    moreover have "bt_shape (Suc h) (Node False ks' vs' (cs'[i := c']))"
      using d(2) c'(2) by (auto dest: in_update_cases)
    ultimately show ?thesis
      using d(3) d(6) [of c'] c'(3) alist_del_local [OF d(7)] by simp
  next
    case (Some i)
    then show ?thesis
      using remove_found_spec [of h ks vs cs key i] Suc.prems Suc.IH n by blast
  qed
qed

section \<open>First, last and iteration\<close>

lemma inorder_nonempty: "bt_shape h n \<Longrightarrow> bt_nonempty n \<Longrightarrow> inorder n \<noteq> []"
  using node_keys_inorder [of h n] by (cases n) auto

lemma first_in_node_spec:
  "bt_shape h n \<Longrightarrow> bt_nonempty n \<Longrightarrow> first_in_node n = Some (Some (hd (inorder n)))"
proof (induction h arbitrary: n)
  case 0
  then show ?case
    by (cases n; cases "node_keys n"; cases "node_values n") (auto simp: node_simps vec_simps)
next
  case (Suc h)
  then obtain ks vs c cs where n: "n = Node False ks vs (c # cs)" "bt_shape h c" "bt_nonempty c"
    by (cases n; cases "node_children n") auto
  then show ?case
    using Suc.IH [OF n(2,3)] inorder_nonempty [OF n(2,3)]
    by (simp add: node_simps vec_simps inorder_internal interleave_def)
qed

lemma last_in_node_spec:
  "bt_shape h n \<Longrightarrow> bt_nonempty n \<Longrightarrow> last_in_node n = Some (Some (last (inorder n)))"
proof (induction h arbitrary: n)
  case 0
  then obtain ks vs where n: "n = Node True ks vs []" "length vs = length ks" "ks \<noteq> []"
    by (cases n) auto
  then have "vs \<noteq> []" by auto
  then show ?case
    using n by (simp add: node_simps vec_simps Let_def last_conv_nth)
next
  case (Suc h)
  then obtain ks vs cs c where n: "n = Node False ks vs (cs @ [c])" "bt_shape h c" "bt_nonempty c"
      "length cs = length ks" "length vs = length ks"
    by (cases n; cases "node_children n" rule: rev_cases) auto
  then show ?case
    using Suc.IH [OF n(2,3)] inorder_nonempty [OF n(2,3)] inorder_pair(2) [of cs ks vs "[]" "[]" c "[]"]
    by (simp add: node_simps vec_simps nth_append)
qed

text \<open>What a frame of the iterator's stack still has to yield.\<close>

definition frame_rest :: "('k, 'v) BTreeNode \<times> nat \<Rightarrow> ('k \<times> 'v) list" where
  "frame_rest = (\<lambda>(n, idx).
     let kvs = zip (node_keys n) (node_values n); j = idx div 2 in
     if is_leaf n then drop idx kvs
     else (if even idx \<and> j < length (node_children n) then inorder (node_children n ! j) else []) @
       right_part (drop j kvs) (map inorder (drop (Suc j) (node_children n))))"

definition frame_ok :: "('k, 'v) BTreeNode \<times> nat \<Rightarrow> bool" where
  "frame_ok f \<longleftrightarrow> (\<exists>h. bt_shape h (fst f))"

lemma frame_rest_root: "bt_shape h n \<Longrightarrow> frame_rest (n, 0) = inorder n"
  by (cases h; cases n; cases "node_children n") (auto simp: frame_rest_def inorder_internal interleave_def)

lemma frame_rest_end:
  assumes "bt_shape h n" "\<not> is_leaf n" "\<not> idx < length (node_children n) + length (node_keys n)"
  shows "frame_rest (n, idx) = []"
  using assms by (cases h; cases n) (auto simp: frame_rest_def Let_def elim!: evenE)

lemma frame_rest_even:
  assumes "bt_shape h n" "\<not> is_leaf n" "even idx" "idx < length (node_children n) + length (node_keys n)"
  shows "idx div 2 < length (node_children n)"
    "frame_rest (n, idx) = inorder (node_children n ! (idx div 2)) @ frame_rest (n, Suc idx)"
  using assms by (cases h; cases n; auto simp: frame_rest_def)+

lemma frame_rest_odd:
  assumes "bt_shape h n" "\<not> is_leaf n" "odd idx" "idx < length (node_children n) + length (node_keys n)"
  shows "idx div 2 < length (node_keys n)" "idx div 2 < length (node_values n)"
    "frame_rest (n, idx) = (node_keys n ! (idx div 2), node_values n ! (idx div 2)) # frame_rest (n, Suc idx)"
proof -
  obtain ks vs cs where n: "n = Node False ks vs cs" "length vs = length ks" "length cs = Suc (length ks)"
    using assms(1,2) by (cases h; cases n) auto
  obtain j where j: "idx = Suc (2 * j)" using assms(3) by (metis oddE Suc_eq_plus1)
  then have less: "j < length ks" using assms(4) n by simp
  then show "idx div 2 < length (node_keys n)" "idx div 2 < length (node_values n)"
    using j n by simp_all
  have "drop j (zip ks vs) = (ks ! j, vs ! j) # drop (Suc j) (zip ks vs)"
    using less n(2) Cons_nth_drop_Suc [of j "zip ks vs"] by simp
  moreover have "drop (Suc j) cs = cs ! Suc j # drop (Suc (Suc j)) cs"
    using less n(3) by (simp add: Cons_nth_drop_Suc)
  ultimately show "frame_rest (n, idx) = (node_keys n ! (idx div 2), node_values n ! (idx div 2)) # frame_rest (n, Suc idx)"
    using n j less by (simp add: frame_rest_def)
qed

lemma iter_next_spec:
  "\<forall>f \<in> set st. frame_ok f \<Longrightarrow>
   (case concat (map frame_rest st) of
      [] \<Rightarrow> iter_next st = Some (None, [])
    | kv # kvs \<Rightarrow> \<exists>st'. iter_next st = Some (Some kv, st') \<and> (\<forall>f \<in> set st'. frame_ok f) \<and>
        concat (map frame_rest st') = kvs)"
proof (induction st rule: iter_next.induct)
  case (2 node idx stack)
  obtain h where sh: "bt_shape h node" using "2.prems" by (auto simp: frame_ok_def)
  have tail: "\<forall>f \<in> set stack. frame_ok f" using "2.prems" by simp
  have ok: "frame_ok (node, i)" for i using sh by (auto simp: frame_ok_def)
  show ?case
  proof (cases "is_leaf node")
    case True
    then have len: "length (node_values node) = length (node_keys node)"
      using sh by (cases h; cases node) auto
    show ?thesis
    proof (cases "idx < length (node_keys node)")
      case less: True
      have "frame_rest (node, idx) = (node_keys node ! idx, node_values node ! idx) # frame_rest (node, Suc idx)"
        using True less len Cons_nth_drop_Suc [of idx "zip (node_keys node) (node_values node)"]
        by (simp add: frame_rest_def)
      then show ?thesis
        using True less len "2.prems" ok by (simp add: iter_next.simps(2) [of node] vec_simps)
    next
      case False
      then have "concat (map frame_rest ((node, idx) # stack)) = concat (map frame_rest stack)"
        "iter_next ((node, idx) # stack) = iter_next stack"
        using True by (simp_all add: frame_rest_def iter_next.simps(2) [of node])
      then show ?thesis
        using 2(1) [OF True False tail] by (simp only:)
    qed
  next
    case nleaf: False
    let ?in = "idx < length (node_children node) + length (node_keys node)"
    consider (out) "\<not> ?in" | (ev) "?in" "even idx" | (od) "?in" "odd idx" by blast
    then show ?thesis
    proof cases
      case out
      then have "concat (map frame_rest ((node, idx) # stack)) = concat (map frame_rest stack)"
        "iter_next ((node, idx) # stack) = iter_next stack"
        using nleaf frame_rest_end [OF sh nleaf out] by (simp_all add: iter_next.simps(2) [of node])
      then show ?thesis
        using 2(5) [OF nleaf refl refl out tail] by (simp only:)
    next
      case ev
      let ?c = "node_children node ! (idx div 2)"
      note fr = frame_rest_even [OF sh nleaf ev(2,1)]
      have "\<exists>g. bt_shape g ?c" using sh nleaf fr(1) by (cases h; cases node) auto
      then have c: "frame_ok (?c, 0)" "frame_rest (?c, 0) = inorder ?c"
        using frame_rest_root by (auto simp: frame_ok_def)
      have get: "vec_get (node_children node) (idx div 2) = Some ?c"
        using fr(1) by (simp add: vec_simps)
      have "iter_next ((node, idx) # stack) = iter_next ((?c, 0) # (node, idx + 1) # stack)"
        using nleaf ev fr(1) get by (simp add: iter_next.simps(2) [of node] even_iff_mod_2_eq_zero)
      moreover have "concat (map frame_rest ((node, idx) # stack)) = concat (map frame_rest ((?c, 0) # (node, idx + 1) # stack))"
        using fr(2) c(2) by simp
      moreover have "\<forall>f \<in> set ((?c, 0) # (node, idx + 1) # stack). frame_ok f"
        using "2.prems" c(1) ok by auto
      ultimately show ?thesis
        using 2(2) [OF nleaf refl refl ev(1) _ fr(1) get] ev(2) by (simp only: even_iff_mod_2_eq_zero)
    next
      case od
      note fr = frame_rest_odd [OF sh nleaf od(2,1)]
      then have "iter_next ((node, idx) # stack) =
          Some (Some (node_keys node ! (idx div 2), node_values node ! (idx div 2)), (node, idx + 1) # stack)"
        using nleaf od by (simp add: iter_next.simps(2) [of node] vec_simps odd_iff_mod_2_eq_one)
      then show ?thesis
        using fr(3) "2.prems" ok by simp
    qed
  qed
qed simp

lemma iter_collect_spec:
  "\<forall>f \<in> set st. frame_ok f \<Longrightarrow> iter_collect st = Some (concat (map frame_rest st))"
proof (induction "concat (map frame_rest st)" arbitrary: st)
  case Nil
  then show ?case
    using iter_next_spec [OF Nil.prems] unfolding Nil.hyps [symmetric] list.case
    by (subst iter_collect.simps) simp
next
  case (Cons kv kvs)
  obtain st' where st': "iter_next st = Some (Some kv, st')" "\<forall>f \<in> set st'. frame_ok f"
      "concat (map frame_rest st') = kvs"
    using iter_next_spec [OF Cons.prems] unfolding Cons.hyps(2) [symmetric] list.case by blast
  then show ?case
    using Cons.hyps by (subst iter_collect.simps) simp
qed

lemma btree_to_list_spec: "bt_shape h (root t) \<Longrightarrow> btree_to_list t = Some (inorder (root t))"
  using iter_collect_spec [of "[(root t, 0)]"] frame_rest_root [of h "root t"]
  by (auto simp: btree_to_list_def btree_iter_def frame_ok_def)

end
