(* ===== verification/BTree_Fill.thy ===== *)
theory BTree_Fill
  imports BTree_Proofs
begin

text \<open>
  How full the nodes of the B-tree stay. Insertion keeps at least \<open>MIN_KEYS\<close> keys in every node
  below the root. Removal keeps it in trees of at most two levels, and a tree with three levels
  holds at least 127 entries; so a removal from a tree with fewer entries finds what it needs.
\<close>

section \<open>Fill of the nodes below the root\<close>

fun bt_fat :: "('k, 'v) BTreeNode \<Rightarrow> bool" where
  "bt_fat (Node l ks vs cs) \<longleftrightarrow> 7 \<le> length ks \<and> (\<forall>c \<in> set cs. bt_fat c)"

lemma bt_fat_iff: "bt_fat n \<longleftrightarrow> 7 \<le> length (node_keys n) \<and> (\<forall>c \<in> set (node_children n). bt_fat c)"
  by (cases n) simp

text \<open>
  A root that is not a leaf has a separator, except after a failed removal that merged its last two
  children into one full node.
\<close>

definition root_fill :: "('k, 'v) BTreeNode \<Rightarrow> bool" where
  "root_fill n \<longleftrightarrow> is_leaf n \<or>
     (\<forall>c \<in> set (node_children n). bt_fat c) \<and>
     (node_keys n \<noteq> [] \<or> length (node_keys (hd (node_children n))) = 15)"

lemma bt_fat_nonempty: "bt_fat n \<Longrightarrow> bt_nonempty n"
proof (induction n)
  case (Node l ks vs cs)
  then show ?case by auto
qed

lemma root_fill_removable: "root_fill n \<Longrightarrow> bt_removable n"
  by (auto simp: root_fill_def bt_removable_def bt_fat_nonempty)

section \<open>Insertion\<close>

lemma split_halves_fat:
  assumes "bt_shape h c" "bt_fat c" "length (node_keys c) = 15"
  shows "bt_fat (split_left c)" "bt_fat (split_right c)"
  using assms split_halves(3,4) [OF assms(1,3)]
  by (auto simp: bt_fat_iff [of "split_left c"] bt_fat_iff [of "split_right c"] bt_fat_iff [of c]
      split_left_def split_right_def dest: in_set_takeD in_set_dropD)

lemma descend_insert_fat:
  assumes sh: "bt_shape (Suc h) (Node False ks vs cs)" and fat: "\<forall>c \<in> set cs. bt_fat c"
    and d: "descend_insert (Node False ks vs cs) key = Some (n', i)"
  shows "\<forall>c \<in> set (node_children n'). bt_fat c"
    "length ks \<le> length (node_keys n')"
    "length (node_keys (cs ! 0)) = 15 \<Longrightarrow> ks = [] \<Longrightarrow> node_keys n' \<noteq> []"
proof -
  let ?i = "child_index ks key" and ?n = "Node False ks vs cs"
  have i: "?i < length cs" "bt_shape h (cs ! ?i)"
    using child_index_le [of ks key] sh by auto
  have c0: "length (node_keys (cs ! 0)) = 15 \<Longrightarrow> ks = [] \<Longrightarrow> is_full (cs ! ?i)"
    using child_index_le [of ks key] by (simp add: is_full_def)
  consider (plain) "\<not> is_full (cs ! ?i)" "n' = ?n" | (split) "is_full (cs ! ?i)" "split_child ?n ?i = Some n'"
    using d i(1) by (auto simp: descend_insert_def vec_simps Let_def split: if_splits Option.bind_splits)
  then have "(\<forall>c \<in> set (node_children n'). bt_fat c) \<and> length ks \<le> length (node_keys n') \<and>
      (length (node_keys (cs ! 0)) = 15 \<longrightarrow> ks = [] \<longrightarrow> node_keys n' \<noteq> [])"
  proof cases
    case plain
    then show ?thesis using fat c0 by auto
  next
    case split
    have "length (node_keys (cs ! ?i)) = 15"
      using split(1) shape_keys_le [OF i(2)] by (simp add: is_full_def)
    then have "bt_fat (split_left (cs ! ?i))" "bt_fat (split_right (cs ! ?i))"
      using split_halves_fat [OF i(2)] fat i(1) by simp_all
    then show ?thesis
      using split(2) fat by (auto simp: split_child_eq_Some_iff dest: in_set_takeD in_set_dropD)
  qed
  then show "\<forall>c \<in> set (node_children n'). bt_fat c" "length ks \<le> length (node_keys n')"
    "length (node_keys (cs ! 0)) = 15 \<Longrightarrow> ks = [] \<Longrightarrow> node_keys n' \<noteq> []"
    by blast+
qed

lemma insert_non_full_fat:
  "bt_shape h n \<Longrightarrow> length (node_keys n) < 15 \<Longrightarrow> sorted_keys (inorder n) \<Longrightarrow>
   key \<notin> fst ` set (inorder n) \<Longrightarrow> \<forall>c \<in> set (node_children n). bt_fat c \<Longrightarrow>
   insert_non_full n key v = Some (r, n') \<Longrightarrow>
   (\<forall>c \<in> set (node_children n'). bt_fat c) \<and> length (node_keys n) \<le> length (node_keys n') \<and>
   (h \<noteq> 0 \<longrightarrow> length (node_keys (node_children n ! 0)) = 15 \<longrightarrow> node_keys n' \<noteq> [])"
proof (induction h arbitrary: n r n')
  case 0
  then obtain ks vs where n: "n = Node True ks vs []" by (auto elim: bt_shape_cases)
  show ?case
    using 0(6) n by (auto simp: node_simps vec_simps Let_def split: option.splits if_splits Option.bind_splits)
next
  case (Suc h)
  then obtain ks vs cs where n: "n = Node False ks vs cs"
    by (auto elim: bt_shape_cases)
  obtain ks' vs' cs' i L R where d: "descend_insert n key = Some (Node False ks' vs' cs', i)"
      "bt_shape (Suc h) (Node False ks' vs' cs')" "inorder (Node False ks' vs' cs') = inorder n"
      "i < length cs'" "length (node_keys (cs' ! i)) < 15"
      "\<And>c. inorder (Node False ks' vs' (cs'[i := c])) = L @ inorder c @ R" "around key L R"
    using descend_insert_spec [of h ks vs cs key] Suc.prems n by auto
  have eq: "inorder n = L @ inorder (cs' ! i) @ R"
    using d(3,4) d(6) [of "cs' ! i"] by simp
  have c: "bt_shape h (cs' ! i)" "sorted_keys (inorder (cs' ! i))" "key \<notin> fst ` set (inorder (cs' ! i))"
    using d(2,4) Suc.prems(3,4) sorted_keys_middle [of L _ R] unfolding eq by auto
  note fat = descend_insert_fat [OF Suc.prems(1) [unfolded n] _ d(1) [unfolded n]]
  have fats: "\<forall>c \<in> set cs'. bt_fat c" using fat(1) Suc.prems(5) n by simp
  have "position (\<lambda>k. k = key) ks = None"
    using Suc.prems(4) node_keys_inorder [OF Suc.prems(1)] n by (force simp: position_None_iff)
  then obtain c' where c': "insert_non_full (cs' ! i) key v = Some (r, c')" "n' = Node False ks' vs' (cs'[i := c'])"
    using Suc.prems(6) d(1,4) n by (auto simp: node_simps vec_simps split: Option.bind_splits)
  have "bt_fat (cs' ! i)" using fats d(4) by simp
  moreover from this have "\<forall>x \<in> set (node_children c'). bt_fat x" "length (node_keys (cs' ! i)) \<le> length (node_keys c')"
    using Suc.IH [OF c(1) d(5) c(2,3) _ c'(1)] by (auto simp: bt_fat_iff [of "cs' ! i"])
  ultimately have "bt_fat c'" by (auto simp: bt_fat_iff [of c'] bt_fat_iff [of "cs' ! i"])
  then show ?case
    using fats fat(2,3) Suc.prems(5) n c'(2) by (auto dest: in_update_cases)
qed


section \<open>Removal from a tree of two levels\<close>

abbreviation sizes :: "('k, 'v) BTreeNode list \<Rightarrow> nat list" where
  "sizes cs \<equiv> map (\<lambda>c. length (node_keys c)) cs"

lemma sizes_update: "sizes (cs[i := c]) = (sizes cs)[i := length (node_keys c)]"
  by (simp add: map_update)

lemma borrow_from_left_sizes:
  assumes "borrow_from_left (Node l ks vs cs) i = Some n'"
  shows "0 < i \<and> i < length cs \<and> i - 1 < length ks \<and> node_keys (cs ! (i - 1)) \<noteq> [] \<and>
    node_keys n' = ks[i - 1 := last (node_keys (cs ! (i - 1)))] \<and>
    sizes (node_children n') =
      (sizes cs)[i - 1 := length (node_keys (cs ! (i - 1))) - 1, i := Suc (length (node_keys (cs ! i)))]"
  using assms by (auto simp: borrow_from_left_def vec_simps map_update split: if_splits Option.bind_splits)

lemma borrow_from_right_sizes:
  assumes "borrow_from_right (Node l ks vs cs) i = Some n'"
  shows "Suc i < length cs \<and> i < length ks \<and> node_keys (cs ! Suc i) \<noteq> [] \<and>
    node_keys n' = ks[i := hd (node_keys (cs ! Suc i))] \<and>
    sizes (node_children n') =
      (sizes cs)[i := Suc (length (node_keys (cs ! i))), Suc i := length (node_keys (cs ! Suc i)) - 1]"
  using assms by (auto simp: borrow_from_right_def vec_simps map_update hd_conv_nth split: if_splits Option.bind_splits)

lemma merge_children_sizes:
  assumes "merge_children (Node l ks vs cs) i = Some n'"
  shows "i < length ks \<and> Suc i < length cs \<and> node_keys n' = take i ks @ drop (Suc i) ks \<and>
    sizes (node_children n') = take i (sizes cs) @
      Suc (length (node_keys (cs ! i)) + length (node_keys (cs ! Suc i))) # drop (Suc (Suc i)) (sizes cs)"
  using assms by (auto simp: merge_children_def vec_simps map_update nth_append list_update_append take_map drop_map
      take_Suc_conv_app_nth split: if_splits Option.bind_splits)

lemma child_index_eqI:
  assumes "\<forall>x \<in> set (take i ks). x < key" "\<forall>x \<in> set (drop i ks). key < x" "i \<le> length ks"
  shows "child_index ks key = i"
proof -
  have "ks ! j < key" if "j < i" for j
    using assms(1,3) that by (metis in_set_conv_nth length_take min.absorb2 nth_take)
  then have low: "\<not> key < ks ! j" if "j < i" for j
    using that by (meson order.asym)
  have high: "key < ks ! i" if "i < length ks"
    using assms(2) that by (metis Cons_nth_drop_Suc list.set_intros(1))
  show ?thesis
  proof (cases "position (\<lambda>k. key < k) ks")
    case None
    then have "\<forall>k \<in> set ks. \<not> key < k" by (simp add: position_None_iff)
    then have "\<not> i < length ks" using high nth_mem by blast
    then show ?thesis using None assms(3) by (simp add: child_index_def)
  next
    case (Some j)
    note j = position_SomeD [OF Some]
    have "\<not> j < i" using j(2) low by blast
    moreover have "\<not> i < j" using j(1,3) high by auto
    ultimately show ?thesis using Some by (simp add: child_index_def)
  qed
qed

definition refilled :: "('k::linorder, 'v) BTreeNode \<Rightarrow> 'k \<Rightarrow> bool" where
  "refilled n key \<longleftrightarrow> (\<forall>s \<in> set (sizes (node_children n)). 7 \<le> s) \<and>
     8 \<le> sizes (node_children n) ! child_index (node_keys n) key \<and>
     (node_keys n = [] \<longrightarrow> sizes (node_children n) = [15])"

lemma refilled_merge:
  assumes m: "merge_children (Node False ks vs cs) i = Some n'"
    and low: "\<forall>x \<in> set (take i ks). x < key" and high: "\<forall>x \<in> set (drop (Suc i) ks). key < x"
    and sz: "\<forall>c \<in> set cs. 7 \<le> length (node_keys c)" "length (node_keys (cs ! i)) = 7"
      "length (node_keys (cs ! Suc i)) = 7" and len: "length cs = Suc (length ks)"
  shows "refilled n' key"
proof -
  note ms = merge_children_sizes [OF m]
  have "child_index (node_keys n') key = i"
    using ms low high by (intro child_index_eqI) auto
  moreover have "\<forall>s \<in> set (take i (sizes cs)) \<union> set (drop (Suc (Suc i)) (sizes cs)). 7 \<le> s"
    using sz(1) by (auto dest!: in_set_takeD in_set_dropD)
  moreover have "take i (sizes cs) = []" "drop (Suc (Suc i)) (sizes cs) = []" if "node_keys n' = []"
    using that ms len by auto
  ultimately show ?thesis
    using ms sz(2,3) by (auto simp: refilled_def nth_append)
qed

lemma fix_child_fill:
  assumes sh: "bt_shape (Suc h) (Node False ks vs cs)" and st: "sorted_keys (inorder (Node False ks vs cs))"
    and key: "key \<notin> set ks" and fill: "\<forall>c \<in> set cs. 7 \<le> length (node_keys c)"
    and thin: "length (node_keys (cs ! child_index ks key)) \<le> 7"
    and fx: "fix_child (Node False ks vs cs) (child_index ks key) = Some n'"
  shows "refilled n' key"
proof -
  let ?i = "child_index ks key" and ?n = "Node False ks vs cs"
  note bounds = child_index_bounds [OF inorder_keys(1) [OF sh st] key]
  have len: "?i \<le> length ks" "length cs = Suc (length ks)" "length (node_keys (cs ! ?i)) = 7"
    using child_index_le [of ks key] sh thin fill by (auto intro!: antisym)
  have sub: "fst ` set (inorder (cs ! j)) \<supseteq> set (node_keys (cs ! j))" if "j < length cs" for j
    using that sh node_keys_inorder [of h "cs ! j"] by auto
  consider (left) "0 < ?i" "7 < length (node_keys (cs ! (?i - 1)))" "borrow_from_left ?n ?i = Some n'"
    | (right) "?i < length ks" "7 < length (node_keys (cs ! Suc ?i))" "borrow_from_right ?n ?i = Some n'"
    | (mleft) "0 < ?i" "\<not> 7 < length (node_keys (cs ! (?i - 1)))" "merge_children ?n (?i - 1) = Some n'"
    | (mright) "?i = 0" "?i < length ks \<longrightarrow> \<not> 7 < length (node_keys (cs ! Suc ?i))" "merge_children ?n ?i = Some n'"
    using fx len(1,2) by (auto simp: fix_child_def vec_simps split: if_splits Option.bind_splits)
  then show ?thesis
  proof cases
    case left
    note b = borrow_from_left_sizes [OF left(3)]
    have "last (node_keys (cs ! (?i - 1))) < ks ! (?i - 1)"
      using neighbour_keys(1) [OF sh _ st, of "?i - 1"] b sub [of "?i - 1"] last_in_set by fastforce
    moreover have "ks ! (?i - 1) < key" "take ?i ks = take (?i - 1) ks @ [ks ! (?i - 1)]"
      using bounds(1) left(1) b take_Suc_conv_app_nth [of "?i - 1" ks] by auto
    ultimately have "child_index (node_keys n') key = ?i"
      using b bounds left(1) len(1) by (intro child_index_eqI) (auto simp: take_update_swap list_update_append)
    then show ?thesis
      using b fill len left by (auto simp: refilled_def dest!: in_update_cases)
  next
    case right
    note b = borrow_from_right_sizes [OF right(3)]
    have "ks ! ?i < hd (node_keys (cs ! Suc ?i))"
      using neighbour_keys(2) [OF sh right(1) st] b sub [of "Suc ?i"] hd_in_set by fastforce
    moreover have dr: "drop ?i ks = ks ! ?i # drop (Suc ?i) ks"
      using right(1) by (simp add: Cons_nth_drop_Suc)
    moreover have "key < ks ! ?i" using bounds(2) unfolding dr by simp
    ultimately have "child_index (node_keys n') key = ?i"
      using b bounds right(1) len(1) by (intro child_index_eqI) (auto simp: drop_update_swap)
    then show ?thesis
      using b fill len right by (auto simp: refilled_def dest!: in_update_cases)
  next
    case mleft
    have "length (node_keys (cs ! (?i - 1))) = 7"
      using mleft(2) fill len by (auto intro!: antisym)
    moreover have "\<forall>x \<in> set (take (?i - 1) ks). x < key"
      using bounds(1) set_take_subset_set_take [of "?i - 1" ?i ks] by auto
    ultimately show ?thesis
      using refilled_merge [OF mleft(3)] bounds(2) mleft(1) fill len by simp
  next
    case mright
    then have "?i < length ks" using merge_children_sizes by blast
    moreover from this have "length (node_keys (cs ! Suc ?i)) = 7"
      using mright(2) fill len by (auto intro!: antisym)
    moreover have "\<forall>x \<in> set (drop (Suc ?i) ks). key < x"
      using bounds(2) set_drop_subset_set_drop [of ?i "Suc ?i" ks] by auto
    ultimately show ?thesis
      using refilled_merge [OF mright(3)] bounds(1) fill len by simp
  qed
qed


lemma leaf_inorder_length: "bt_shape 0 n \<Longrightarrow> length (inorder n) = length (node_keys n)"
  by (cases n) auto

lemma length_del_ge: "sorted_keys kvs \<Longrightarrow> length kvs \<le> Suc (length (alist_del k kvs))"
proof -
  assume st: "sorted_keys kvs"
  show ?thesis
  proof (cases "k \<in> fst ` set kvs")
    case True
    then obtain v L R where "kvs = L @ (k, v) # R" by (auto dest!: split_list)
    then show ?thesis using st alist_del_middle [of L k v R] by simp
  qed (simp add: alist_del_absent)
qed

lemma remove_leaf_size:
  fixes c :: "('k::linorder, 'v) BTreeNode"
  assumes "bt_shape 0 c" "sorted_keys (inorder c)" "remove_from_node c key = Some (r, c')"
  shows "length (node_keys c) \<le> Suc (length (node_keys c'))" "node_children c' = []"
    "r = None \<Longrightarrow> length (node_keys c') = length (node_keys c)"
proof -
  have "bt_removable c" using assms(1) by (cases c) (simp add: bt_removable_def)
  then have c': "r = map_of (inorder c) key" "bt_shape 0 c'" "inorder c' = alist_del key (inorder c)"
    using remove_from_node_spec [OF assms(1,2), of key] assms(3) by auto
  note len = leaf_inorder_length [OF assms(1)] leaf_inorder_length [OF c'(2)]
  show "length (node_keys c) \<le> Suc (length (node_keys c'))"
    using length_del_ge [OF assms(2), of key] len c'(3) by simp
  show "node_children c' = []" using c'(2) by (cases c') simp
  show "length (node_keys c') = length (node_keys c)" if "r = None"
    using that c'(1,3) len alist_del_absent [of key "inorder c"] by (simp add: map_of_eq_None_iff)
qed

lemma remove_end_size:
  assumes "bt_shape 0 c" "remove_max c = Some (kv, c') \<or> remove_min c = Some (kv, c')"
  shows "length (node_keys c) = Suc (length (node_keys c'))" "node_children c' = []"
  using assms by (cases c; auto simp: node_simps vec_simps split: if_splits Option.bind_splits)+

text \<open>A node one level above the leaves whose children are filled.\<close>

definition fill_one :: "('k, 'v) BTreeNode \<Rightarrow> bool" where
  "fill_one n \<longleftrightarrow> (\<forall>c \<in> set (node_children n). 7 \<le> length (node_keys c) \<and> node_children c = [])"

lemma leaf_fat: "bt_shape 0 c \<Longrightarrow> node_children c = [] \<and> (bt_fat c \<longleftrightarrow> 7 \<le> length (node_keys c))"
  by (cases c) auto

lemma fill_one_root:
  assumes "bt_shape (Suc 0) n"
  shows "root_fill n \<longleftrightarrow> fill_one n \<and> (node_keys n \<noteq> [] \<or> length (node_keys (hd (node_children n))) = 15)"
proof -
  have n: "\<not> is_leaf n" "\<forall>c \<in> set (node_children n). bt_shape 0 c"
    using assms by (cases n; simp)+
  then have "(\<forall>c \<in> set (node_children n). bt_fat c) \<longleftrightarrow> fill_one n"
    unfolding fill_one_def using leaf_fat by blast
  then show ?thesis using n(1) by (simp add: root_fill_def)
qed

lemma merge_children_leaf: "merge_children n i = Some n' \<Longrightarrow> is_leaf n' = is_leaf n"
  by (auto simp: merge_children_def split: Option.bind_splits)

lemma child_sorted:
  assumes "bt_shape (Suc h) (Node False ks vs cs)" "sorted_keys (inorder (Node False ks vs cs))" "c \<in> set cs"
  shows "sorted_keys (inorder c)"
proof -
  obtain i where i: "i < length cs" "c = cs ! i" using assms(3) by (auto simp: in_set_conv_nth)
  then show ?thesis
    using assms(1,2) inorder_around [of vs ks cs i] sorted_keys_middle by fastforce
qed

lemma fill_one_update:
  assumes "fill_one (Node l ks vs cs)" "7 \<le> length (node_keys c')" "node_children c' = []"
  shows "fill_one (Node l ks' vs' (cs[i := c']))"
  using assms by (auto simp: fill_one_def dest!: in_update_cases)

lemma remove_found_fill:
  fixes vs :: "'v list" and cs :: "('k::linorder, 'v) BTreeNode list"
  assumes sh: "bt_shape (Suc 0) (Node False ks vs cs)" and st: "sorted_keys (inorder (Node False ks vs cs))"
    and fill: "fill_one (Node False ks vs cs)" and pos: "position (\<lambda>k. k = key) ks = Some i"
    and rm: "remove_from_node (Node False ks vs cs) key = Some (r, n')"
  shows "fill_one n' \<and> r \<noteq> None"
proof -
  let ?n = "Node False ks vs cs"
  have i: "i < length ks" "ks ! i = key" and len: "length cs = Suc (length ks)" "length vs = length ks"
    using position_SomeD [OF pos] sh by auto
  have leaf: "bt_shape 0 c" "7 \<le> length (node_keys c)" if "c \<in> set cs" for c
    using that sh fill by (auto simp: fill_one_def)
  have ab: "cs ! i \<in> set cs" "cs ! Suc i \<in> set cs" using i len by simp_all
  have "r = map_of (inorder ?n) key"
    using remove_from_node_spec [OF sh st root_fill_removable, of key] rm fill_one_root [OF sh] fill i(1) by auto
  then have r: "r \<noteq> None"
    using key_in_node(2) [OF sh st, of key i] pos by simp
  consider (pred) kv c' ks' vs' where "7 < length (node_keys (cs ! i))" "remove_max (cs ! i) = Some (kv, c')" "n' = Node False ks' vs' (cs[i := c'])"
    | (succ) kv c' ks' vs' where "7 < length (node_keys (cs ! Suc i))" "remove_min (cs ! Suc i) = Some (kv, c')" "n' = Node False ks' vs' (cs[Suc i := c'])"
    | (merge) m c' where "\<not> 7 < length (node_keys (cs ! i))" "\<not> 7 < length (node_keys (cs ! Suc i))" "merge_children ?n i = Some m" "i < length (node_children m)"
        "remove_from_node (node_children m ! i) key = Some (r, c')"
        "n' = Node False (node_keys m) (node_values m) ((node_children m)[i := c'])"
    using rm pos i len
    by (auto simp: node_simps vec_simps split: if_splits Option.bind_splits prod.splits
        dest: merge_children_leaf)
  then show ?thesis
  proof cases
    case pred
    then show ?thesis
      using r remove_end_size [OF leaf(1) [OF ab(1)], of kv c'] fill_one_update [OF fill, of c'] by simp
  next
    case succ
    then show ?thesis
      using r remove_end_size [OF leaf(1) [OF ab(2)], of kv c'] fill_one_update [OF fill, of c'] by simp
  next
    case merge
    have seven: "length (node_keys (cs ! i)) = 7" "length (node_keys (cs ! Suc i)) = 7"
      using merge(1,2) leaf(2) ab by (auto intro!: antisym)
    have ne: "\<forall>c \<in> set cs. bt_nonempty c"
      using leaf bt_fat_nonempty leaf_fat by blast
    obtain ks' vs' cs' where m: "m = Node False ks' vs' cs'" "bt_shape (Suc 0) m" "inorder m = inorder ?n"
      using merge_children_spec [OF sh i(1) _ ne] seven merge(3) by auto
    have c: "node_children m ! i \<in> set cs'" using merge(4) m(1) by simp
    then have c0: "bt_shape 0 (node_children m ! i)" using m by auto
    have "sizes cs' ! i = 15" "\<forall>s \<in> set (sizes cs'). 7 \<le> s"
      using merge_children_sizes [OF merge(3)] seven leaf(2) m(1) i len
      by (auto simp: nth_append dest!: in_set_takeD in_set_dropD)
    moreover have "sorted_keys (inorder (node_children m ! i))"
      using st m(3) child_sorted [OF m(2) [unfolded m(1)] _ c] m(1) by simp
    ultimately show ?thesis
      using remove_leaf_size [OF c0 _ merge(5)] fill_one_update [of False ks' vs' cs' c'] r m merge(4,6) leaf_fat
      by (auto simp: fill_one_def)
  qed
qed


lemma descend_remove_fill:
  assumes sh: "bt_shape (Suc 0) (Node False ks vs cs)" and st: "sorted_keys (inorder (Node False ks vs cs))"
    and root: "root_fill (Node False ks vs cs)" and key: "key \<notin> set ks"
    and d: "descend_remove (Node False ks vs cs) key = Some (n', j)"
  shows "refilled n' key" "j = child_index (node_keys n') key"
proof -
  let ?i = "child_index ks key" and ?n = "Node False ks vs cs"
  have len: "?i < length cs" "length cs = Suc (length ks)"
    using child_index_le [of ks key] sh by auto
  have fill: "\<forall>c \<in> set cs. 7 \<le> length (node_keys c)"
    using root fill_one_root [OF sh] by (simp add: fill_one_def)
  have one: "ks = [] \<Longrightarrow> sizes cs = [15]"
    using root len(2) by (auto simp: root_fill_def length_Suc_conv)
  consider (thin) "length (node_keys (cs ! ?i)) \<le> 7" "fix_child ?n ?i = Some n'"
    | (fat) "8 \<le> length (node_keys (cs ! ?i))" "n' = ?n"
    using d len(1) by (fastforce simp: descend_remove_def vec_simps Let_def split: if_splits Option.bind_splits)
  then show "refilled n' key"
  proof cases
    case thin
    then show ?thesis using fix_child_fill [OF sh st key fill] by blast
  next
    case fat
    then show ?thesis using fill one len(1) by (auto simp: refilled_def)
  qed
  show "j = child_index (node_keys n') key"
    using d by (auto simp: descend_remove_def Let_def split: Option.bind_splits)
qed

lemma remove_fill:
  fixes n :: "('k::linorder, 'v) BTreeNode"
  assumes sh: "bt_shape (Suc 0) n" and st: "sorted_keys (inorder n)" and root: "root_fill n"
    and rm: "remove_from_node n key = Some (r, n')"
  shows "fill_one n' \<and> (r = None \<longrightarrow> root_fill n')"
proof -
  obtain ks vs cs where n: "n = Node False ks vs cs"
    using sh by (auto elim: bt_shape_cases)
  show ?thesis
  proof (cases "position (\<lambda>k. k = key) ks")
    case None
    then have key: "key \<notin> set ks" by (auto simp: position_None_iff)
    obtain ks' vs' cs' i L R where d: "descend_remove n key = Some (Node False ks' vs' cs', i)"
        "bt_shape (Suc 0) (Node False ks' vs' cs')" "inorder n = L @ inorder (cs' ! i) @ R" "i < length cs'"
      using descend_remove_spec [of 0 ks vs cs key] sh st root_fill_removable [OF root] key n by auto
    note f = descend_remove_fill [OF sh [unfolded n] st [unfolded n] root [unfolded n] key d(1) [unfolded n]]
    obtain c' where c': "remove_from_node (cs' ! i) key = Some (r, c')" "n' = Node False ks' vs' (cs'[i := c'])"
      using rm None d(1,4) n by (auto simp: node_simps vec_simps split: Option.bind_splits)
    have leaf: "bt_shape 0 (cs' ! i)" "\<forall>c \<in> set cs'. bt_shape 0 c" using d(2,4) by auto
    have "sorted_keys (inorder (cs' ! i))"
      using st d(3) sorted_keys_middle by metis
    note sz = remove_leaf_size [OF leaf(1) this c'(1)]
    have sizes: "\<forall>s \<in> set (sizes cs'). 7 \<le> s" "8 \<le> length (node_keys (cs' ! i))" "ks' = [] \<Longrightarrow> sizes cs' = [15]"
      using f d(4) by (auto simp: refilled_def)
    then have one: "fill_one n'"
      unfolding c'(2) using sz(1,2) leaf(2) leaf_fat
      by (intro fill_one_update) (auto simp: fill_one_def)
    moreover have "length (node_keys (hd (cs'[i := c']))) = 15" if "r = None" "ks' = []"
      using sz(3) [OF that(1)] sizes(3) [OF that(2)] d(4) by (cases cs') auto
    moreover have "bt_shape (Suc 0) n'"
      using remove_from_node_spec [OF sh st root_fill_removable [OF root], of key] rm by auto
    ultimately show ?thesis
      using fill_one_root [of n'] c'(2) by auto
  next
    case (Some i)
    then show ?thesis
      using remove_found_fill [of ks vs cs key i r n'] sh st rm n root fill_one_root [OF sh] by auto
  qed
qed

section \<open>Size and height\<close>

lemma length_left_part: "length ps = length cs \<Longrightarrow> length (right_part ps cs) = length ps + sum_list (map length cs)"
  by (induction ps cs rule: list_induct2) auto

lemma length_inorder:
  assumes "bt_shape (Suc h) (Node False ks vs cs)"
  shows "length (inorder (Node False ks vs cs)) = length ks + (\<Sum>c\<leftarrow>cs. length (inorder c))"
proof -
  obtain c cs' where "cs = c # cs'" "length cs' = length ks" "length vs = length ks"
    using assms by (auto simp: length_Suc_conv)
  then show ?thesis
    by (simp add: inorder_internal interleave_def length_left_part comp_def)
qed

lemma sum_list_ge: "\<forall>c \<in> set cs. m \<le> (f c :: nat) \<Longrightarrow> length cs * m \<le> (\<Sum>c\<leftarrow>cs. f c)"
  by (induction cs) auto

lemma inorder_ge:
  assumes "bt_shape (Suc h) n" "\<forall>c \<in> set (node_children n). m \<le> length (inorder c)"
  shows "length (node_keys n) + Suc (length (node_keys n)) * m \<le> length (inorder n)"
proof -
  obtain ks vs cs where n: "n = Node False ks vs cs" "length cs = Suc (length ks)"
    using assms(1) by (auto elim: bt_shape_cases)
  then show ?thesis
    using length_inorder [OF assms(1) [unfolded n(1)]] sum_list_ge [of cs m "\<lambda>c. length (inorder c)"] assms(2) by simp
qed

lemma fat_size: "bt_shape h n \<Longrightarrow> bt_fat n \<Longrightarrow> 8 ^ Suc h - 1 \<le> length (inorder n)"
proof (induction h arbitrary: n)
  case 0
  then show ?case using leaf_inorder_length [OF 0(1)] bt_fat_iff [of n] by simp
next
  case (Suc h)
  have "\<forall>c \<in> set (node_children n). bt_shape h c \<and> bt_fat c" "7 \<le> length (node_keys n)"
    using Suc.prems by (cases n; auto)+
  then have "length (node_keys n) + Suc (length (node_keys n)) * (8 ^ Suc h - 1) \<le> length (inorder n)"
    using Suc.IH by (intro inorder_ge [OF Suc.prems(1)]) blast
  moreover have "7 + 8 * (8 ^ Suc h - 1) \<le> length (node_keys n) + Suc (length (node_keys n)) * (8 ^ Suc h - 1)"
    using \<open>7 \<le> length (node_keys n)\<close> by (intro add_mono mult_le_mono1) auto
  ultimately show ?case by (simp add: algebra_simps)
qed

text \<open>A root three levels above its leaves has at least \<open>1 + 2 * 63\<close> or \<open>15 + 16 * 7\<close> entries below it.\<close>

lemma root_height:
  assumes sh: "bt_shape h n" and root: "root_fill n" and small: "length (inorder n) < 127"
  shows "h \<le> 1"
proof (rule ccontr)
  assume "\<not> h \<le> 1"
  then obtain g where h: "h = Suc (Suc g)" by (metis One_nat_def Suc_le_mono not_less_eq_eq old.nat.exhaust zero_le)
  obtain ks vs cs where n: "n = Node False ks vs cs" "length cs = Suc (length ks)" "\<forall>c \<in> set cs. bt_shape (Suc g) c"
    using sh h by (auto elim: bt_shape_cases)
  have fat: "\<forall>c \<in> set cs. bt_fat c" using root n(1) by (simp add: root_fill_def)
  have big: "7 \<le> length (inorder c)" if "bt_shape k c" "bt_fat c" for k and c :: "('a, 'b) BTreeNode"
  proof -
    have "8 * 1 \<le> 8 * (8 :: nat) ^ k" by (intro mult_le_mono2) simp
    then show ?thesis using fat_size [OF that] unfolding power_Suc by linarith
  qed
  have sixty: "63 \<le> length (inorder c)" if "c \<in> set cs" for c
  proof -
    have "64 * 1 \<le> 64 * (8 :: nat) ^ g" by (intro mult_le_mono2) simp
    moreover have "8 ^ Suc (Suc g) - 1 \<le> length (inorder c)" using fat_size [of "Suc g" c] that n(3) fat by blast
    ultimately show ?thesis unfolding power_Suc by linarith
  qed
  show False
  proof (cases ks)
    case Nil
    then obtain c where c: "cs = [c]" "length (node_keys c) = 15" "bt_shape (Suc g) c" "bt_fat c"
      using n root fat by (auto simp: root_fill_def length_Suc_conv)
    then have "\<forall>d \<in> set (node_children c). 7 \<le> length (inorder d)"
      using big by (cases c) auto
    then show False
      using inorder_ge [OF c(3), of 7] c(2) length_inorder [of "Suc g" ks vs cs] sh small n(1) h c(1) by simp
  next
    case (Cons k ks')
    have "\<forall>c \<in> set (node_children n). 63 \<le> length (inorder c)" using sixty n(1) by simp
    then show False
      using inorder_ge [of "Suc g" n 63] sh h small n(1) Cons by simp
  qed
qed


section \<open>The root\<close>

lemma insert_root_fill:
  assumes "bt_shape h n" "length (node_keys n) < 15" "sorted_keys (inorder n)" "key \<notin> fst ` set (inorder n)"
    and "root_fill n" "insert_non_full n key v = Some (r, n')" "bt_shape h n'"
  shows "root_fill n'"
proof (cases h)
  case 0
  then show ?thesis using assms(7) by (cases n') (simp add: root_fill_def)
next
  case (Suc g)
  then have "\<not> is_leaf n" "node_children n \<noteq> []" using assms(1) by (cases n; auto)+
  then show ?thesis
    using insert_non_full_fat [OF assms(1-4) _ assms(6)] assms(5) Suc
    by (auto simp: root_fill_def hd_conv_nth)
qed

lemma root_split_fat:
  assumes sh: "bt_shape h n" and "root_fill n" "length (node_keys n) = 15"
  shows "bt_fat (split_left n)" "bt_fat (split_right n)"
proof -
  have "\<forall>c \<in> set (node_children n). bt_fat c"
    using assms(2) sh by (cases h; cases n) (auto simp: root_fill_def)
  then have "bt_fat n" using assms(3) bt_fat_iff [of n] by simp
  then show "bt_fat (split_left n)" "bt_fat (split_right n)"
    using split_halves_fat [OF sh _ assms(3)] by simp_all
qed

text \<open>
  After a removal from a small tree: a failed one leaves the root filled, a successful one too,
  unless the root lost its last separator; then its only child is a leaf, which becomes the root.
\<close>

lemma remove_root_fill:
  fixes n :: "('k::linorder, 'v) BTreeNode"
  assumes sh: "bt_shape h n" and st: "sorted_keys (inorder n)" and root: "root_fill n"
    and small: "length (inorder n) < 127" and rm: "remove_from_node n key = Some (r, n')" and sh': "bt_shape h n'"
  shows "r = None \<Longrightarrow> root_fill n'" "\<not> (node_keys n' = [] \<and> \<not> is_leaf n') \<Longrightarrow> root_fill n'"
    "\<forall>c \<in> set (node_children n'). is_leaf c"
proof -
  have "(r = None \<longrightarrow> root_fill n') \<and> (\<not> (node_keys n' = [] \<and> \<not> is_leaf n') \<longrightarrow> root_fill n') \<and>
      (\<forall>c \<in> set (node_children n'). is_leaf c)"
  proof (cases h)
    case 0
    then show ?thesis using sh' by (cases n') (simp add: root_fill_def)
  next
    case (Suc g)
    then have h: "h = Suc 0" using root_height [OF sh root small] by simp
    have "is_leaf c" if "c \<in> set (node_children n')" for c
    proof -
      have "bt_shape 0 c" using that sh' h by (cases n') auto
      then show ?thesis by (cases c) simp
    qed
    moreover have "\<not> is_leaf n'" using sh' h by (cases n') simp
    ultimately show ?thesis
      using remove_fill [OF sh [unfolded h] st root rm] fill_one_root [of n'] sh' h by auto
  qed
  then show "r = None \<Longrightarrow> root_fill n'" "\<not> (node_keys n' = [] \<and> \<not> is_leaf n') \<Longrightarrow> root_fill n'"
    "\<forall>c \<in> set (node_children n'). is_leaf c"
    by blast+
qed

section \<open>Updating a value\<close>

abbreviation skeleton :: "('k, 'v) BTreeNode \<Rightarrow> ('k, unit) BTreeNode" where
  "skeleton \<equiv> map_BTreeNode (\<lambda>k. k) (\<lambda>_. ())"

lemma skeleton_sels:
  "is_leaf (skeleton n) = is_leaf n" "node_keys (skeleton n) = node_keys n"
  "node_children (skeleton n) = map skeleton (node_children n)"
  by (cases n; simp)+

lemma skeleton_fat: "bt_fat (skeleton n) = bt_fat n"
  by (induction n) auto

lemma get_mut_skeleton: "get_mut_in_node n key f = Some (r, n') \<Longrightarrow> skeleton n' = skeleton n"
proof (induction n key f arbitrary: r n' rule: get_mut_in_node.induct)
  case (1 n key f)
  obtain l ks vs cs where n: "n = Node l ks vs cs" by (cases n)
  show ?case
  proof (cases "position (\<lambda>k. k = key) ks")
    case (Some i)
    then show ?thesis
      using 1(2) n by (auto simp: node_simps vec_simps map_replicate_const split: if_splits Option.bind_splits)
  next
    case None
    let ?i = "child_index ks key"
    consider "l" "n' = n" | c' where "\<not> l" "?i < length cs" "get_mut_in_node (cs ! ?i) key f = Some (r, c')"
        "n' = Node l ks vs (cs[?i := c'])"
      using 1(2) None n by (auto simp: node_simps vec_simps Let_def split: if_splits Option.bind_splits)
    then show ?thesis
    proof cases
      case 2
      then have "skeleton c' = skeleton (cs ! ?i)"
        using 1(1) None n by (simp add: vec_simps)
      then show ?thesis using 2 n by (simp add: map_update list_update_same_conv)
    qed simp
  qed
qed

lemma get_mut_root_fill:
  fixes n :: "('k::linorder, 'v) BTreeNode"
  assumes "get_mut_in_node n key f = Some (r, n')" "root_fill n" "bt_shape h n" "bt_shape h n'"
  shows "root_fill n'"
proof -
  have "root_fill (skeleton m) = root_fill m" if "bt_shape h m" for m :: "('k, 'v) BTreeNode"
    using that by (cases "node_children m"; cases m; cases h) (auto simp: root_fill_def skeleton_sels skeleton_fat)
  then show ?thesis
    using get_mut_skeleton [OF assms(1)] assms(2-4) by metis
qed

section \<open>First and last from the root\<close>

lemma ends_in_root:
  assumes sh: "bt_shape h n" and root: "root_fill n" and ne: "inorder n \<noteq> []"
  shows "first_in_node n = Some (Some (hd (inorder n)))" "last_in_node n = Some (Some (last (inorder n)))"
proof -
  have "first_in_node n = Some (Some (hd (inorder n))) \<and> last_in_node n = Some (Some (last (inorder n)))"
  proof (cases "bt_nonempty n")
    case True
    then show ?thesis using first_in_node_spec [OF sh] last_in_node_spec [OF sh] by simp
  next
    case False
    have "node_keys n \<noteq> []" if "is_leaf n" using that ne sh by (cases n) auto
    then have "\<not> is_leaf n" using False sh by (cases h; cases n) auto
    then have "\<forall>c \<in> set (node_children n). bt_nonempty c" using root bt_fat_nonempty by (auto simp: root_fill_def)
    then have "node_keys n = []" using False by (cases n) auto
    then obtain g c where c: "n = Node False [] [] [c]" "bt_shape g c" "bt_nonempty c"
      using sh \<open>\<not> is_leaf n\<close> \<open>\<forall>c \<in> set (node_children n). bt_nonempty c\<close>
      by (cases h; cases n) (auto simp: length_Suc_conv)
    then show ?thesis
      using first_in_node_spec [OF c(2,3)] last_in_node_spec [OF c(2,3)]
      by (simp add: node_simps vec_simps inorder_internal interleave_def)
  qed
  then show "first_in_node n = Some (Some (hd (inorder n)))" "last_in_node n = Some (Some (last (inorder n)))"
    by blast+
qed

end
