(* ===== verification/BTree_Map.thy ===== *)
theory BTree_Map
  imports BTree_Fill
begin

text \<open>
  The B-tree as an ordered map. The locale \<open>ordered_map\<close> is the contract that the maple tree and
  the other clients rely on: lookup, insertion of a new key, removal and in-order iteration over a
  sorted association list. It is interpreted on \<^verbatim>\<open>BTree\<close>. The theory closes with the properties of
  the tree and with two executions that show where the code leaves the contract.
\<close>

section \<open>Updating a value in place\<close>

definition alist_upd :: "'k \<Rightarrow> ('v \<Rightarrow> 'v) \<Rightarrow> ('k \<times> 'v) list \<Rightarrow> ('k \<times> 'v) list" where
  "alist_upd k f kvs = map (\<lambda>(k', v). (k', if k' = k then f v else v)) kvs"

lemma alist_upd_append: "alist_upd k f (xs @ ys) = alist_upd k f xs @ alist_upd k f ys"
  by (simp add: alist_upd_def)

lemma alist_upd_absent: "k \<notin> fst ` set kvs \<Longrightarrow> alist_upd k f kvs = kvs"
  by (induction kvs) (auto simp: alist_upd_def)

lemma keys_alist_upd [simp]: "map fst (alist_upd k f kvs) = map fst kvs"
  by (induction kvs) (auto simp: alist_upd_def)

lemma length_alist_upd [simp]: "length (alist_upd k f kvs) = length kvs"
  by (simp add: alist_upd_def)

lemma around_absent: "around k L R \<Longrightarrow> k \<notin> fst ` set L \<and> k \<notin> fst ` set R"
  by (auto simp: around_def)

lemma alist_upd_local: "around k L R \<Longrightarrow> alist_upd k f (L @ C @ R) = L @ alist_upd k f C @ R"
  by (simp add: alist_upd_append alist_upd_absent around_absent)

lemma alist_upd_middle:
  assumes "sorted_keys (L @ (k, v) # R)"
  shows "alist_upd k f (L @ (k, v) # R) = L @ (k, f v) # R"
proof -
  have "around k L R" using assms by (auto simp: around_def sorted_wrt_append)
  then show ?thesis
    using alist_upd_local [of k L R f "[(k, v)]"] by (simp add: alist_upd_def)
qed

lemma get_mut_found:
  fixes f :: "'v \<Rightarrow> 'v" and n :: "('k::linorder, 'v) BTreeNode"
  assumes sh: "bt_shape h n" and st: "sorted_keys (inorder n)"
    and pos: "position (\<lambda>k. k = key) (node_keys n) = Some i"
  defines "n' \<equiv> Node (is_leaf n) (node_keys n) ((node_values n)[i := f (node_values n ! i)]) (node_children n)"
  shows "bt_shape h n' \<and> inorder n' = alist_upd key f (inorder n)"
proof -
  obtain l ks vs cs where n: "n = Node l ks vs cs" by (cases n)
  have i: "i < length ks" "ks ! i = key" "length vs = length ks"
    using position_SomeD [OF pos] inorder_keys(3) [OF sh [unfolded n] st [unfolded n]] n by auto
  have shape: "bt_shape h n'" using sh n by (cases h) (auto simp: n'_def)
  show ?thesis
  proof (cases h)
    case 0
    then have "l" using sh n by simp
    have eq: "zip ks vs = take i (zip ks vs) @ (key, vs ! i) # drop (Suc i) (zip ks vs)"
      using i id_take_nth_drop [of i "zip ks vs"] by simp
    have "alist_upd key f (zip ks vs) = take i (zip ks vs) @ (key, f (vs ! i)) # drop (Suc i) (zip ks vs)"
      using st n \<open>l\<close> alist_upd_middle [of "take i (zip ks vs)" key "vs ! i" "drop (Suc i) (zip ks vs)" f]
      unfolding eq [symmetric] by simp
    moreover have "zip ks (vs[i := f (vs ! i)]) = take i (zip ks vs) @ (key, f (vs ! i)) # drop (Suc i) (zip ks vs)"
      using i id_take_nth_drop [of i "zip ks (vs[i := f (vs ! i)])"] by (simp add: take_zip drop_zip)
    ultimately show ?thesis
      using shape \<open>l\<close> n by (simp add: n'_def)
  next
    case (Suc g)
    then have n0: "n = Node False ks vs cs" using sh n by simp
    obtain ls k rs lv v rv as a b bs where d: "ks = ls @ k # rs" "vs = lv @ v # rv" "cs = as @ a # b # bs"
      "length ls = i" "length lv = i" "length as = i"
      using parent_split [of g ks vs cs i] sh Suc n0 i(1) by metis
    have k: "k = key" "vs ! i = v" "vs[i := f v] = lv @ f v # rv"
      using i(2) d by (auto simp: nth_append list_update_append)
    let ?L = "left_part (map inorder as) (zip ls lv) @ inorder a" and ?R = "inorder b @ right_part (zip rs rv) (map inorder bs)"
    have "inorder n = ?L @ (key, v) # ?R" "inorder n' = ?L @ (key, f v) # ?R"
      using inorder_pair(1) [of as ls lv] d k n0 by (simp_all add: n'_def)
    then show ?thesis
      using shape alist_upd_middle st by metis
  qed
qed

lemma get_mut_in_node_spec:
  "bt_shape h n \<Longrightarrow> sorted_keys (inorder n) \<Longrightarrow>
   \<exists>n'. get_mut_in_node n key f = Some (map_of (inorder n) key, n') \<and> bt_shape h n' \<and>
     inorder n' = alist_upd key f (inorder n)"
proof (induction h arbitrary: n)
  case 0
  then obtain ks vs where n: "n = Node True ks vs []" "length vs = length ks"
    by (auto elim: bt_shape_cases)
  show ?case
  proof (cases "position (\<lambda>k. k = key) ks")
    case None
    then have a: "map_of (inorder n) key = None" "key \<notin> fst ` set (inorder n)"
      using n by (auto simp: position_None_iff dest: set_zip_leftD)
    show ?thesis
      unfolding a(1) alist_upd_absent [OF a(2)] using None n 0(1) by (simp add: node_simps)
  next
    case (Some i)
    then show ?thesis
      using key_in_node [OF 0, of key i] get_mut_found [OF 0, of key i f] n by (simp add: node_simps vec_simps)
  qed
next
  case (Suc h)
  then obtain ks vs cs where n: "n = Node False ks vs cs" "\<forall>c \<in> set cs. bt_shape h c"
    by (auto elim: bt_shape_cases)
  show ?case
  proof (cases "position (\<lambda>k. k = key) ks")
    case None
    let ?i = "child_index ks key"
    obtain L R where LR: "\<And>c. inorder (Node False ks vs (cs[?i := c])) = L @ inorder c @ R" "around key L R"
      using locate_key(2) [OF Suc.prems [unfolded n(1)] None] by blast
    have i: "?i < length cs" by (rule locate_key(1) [OF Suc.prems [unfolded n(1)] None])
    have n_eq: "inorder n = L @ inorder (cs ! ?i) @ R"
      using LR(1) [of "cs ! ?i"] n(1) by simp
    have "bt_shape h (cs ! ?i)" "sorted_keys (inorder (cs ! ?i))"
      using n(2) i Suc.prems(2) sorted_keys_middle [of L _ R] unfolding n_eq by auto
    then obtain c' where c': "get_mut_in_node (cs ! ?i) key f = Some (map_of (inorder (cs ! ?i)) key, c')"
        "bt_shape h c'" "inorder c' = alist_upd key f (inorder (cs ! ?i))"
      using Suc.IH by blast
    have "get_mut_in_node n key f = Some (map_of (inorder n) key, Node False ks vs (cs[?i := c']))"
      unfolding n_eq map_of_local [OF LR(2)] using None n(1) i c'(1) by (simp add: node_simps vec_simps Let_def)
    moreover have "bt_shape (Suc h) (Node False ks vs (cs[?i := c']))"
      using Suc.prems(1) n(1) c'(2) by (auto dest: in_update_cases)
    ultimately show ?thesis
      using LR(1) [of c'] c'(3) n_eq alist_upd_local [OF LR(2)] by simp
  next
    case (Some i)
    then show ?thesis
      using key_in_node [OF Suc.prems, of key i] get_mut_found [OF Suc.prems, of key i f] n(1)
      by (simp add: node_simps vec_simps)
  qed
qed

section \<open>The tree\<close>

definition bt_list :: "('k, 'v) BTree \<Rightarrow> ('k \<times> 'v) list" where
  "bt_list t = inorder (root t)"

definition btree_ok :: "('k::linorder, 'v) BTree \<Rightarrow> bool" where
  "btree_ok t \<longleftrightarrow> (\<exists>h. bt_shape h (root t)) \<and> root_fill (root t) \<and> sorted_keys (bt_list t) \<and>
     bt_len t = length (bt_list t)"

text \<open>The number of entries from which on a tree may have three levels.\<close>

abbreviation btree_bound :: nat where
  "btree_bound \<equiv> 127"

lemma btree_new_ok [simp]: "btree_ok btree_new" "bt_list btree_new = []"
  by (auto simp: btree_ok_def btree_new_def new_leaf_def bt_list_def root_fill_def intro: exI [of _ 0])

lemma btree_get_ok: "btree_ok t \<Longrightarrow> btree_get t key = Some (map_of (bt_list t) key)"
  using get_in_node_spec by (auto simp: btree_ok_def bt_list_def btree_get_def)

lemma btree_insert_ok:
  assumes ok: "btree_ok t" and new: "key \<notin> fst ` set (bt_list t)"
  shows "\<exists>t'. btree_insert t key v = Some (None, t') \<and> btree_ok t' \<and> bt_list t' = alist_put key v (bt_list t)"
proof -
  obtain h where sh: "bt_shape h (root t)" and st: "sorted_keys (inorder (root t))"
      and len: "bt_len t = length (inorder (root t))" and fill: "root_fill (root t)"
    using ok by (auto simp: btree_ok_def bt_list_def)
  have "\<exists>r g. (if is_full (root t) then split_child (Node False [] [] [root t]) 0 else Some (root t)) = Some r \<and>
      bt_shape g r \<and> length (node_keys r) < 15 \<and> inorder r = inorder (root t) \<and> root_fill r"
  proof (cases "is_full (root t)")
    case True
    then have full: "length (node_keys (root t)) = 15"
      using shape_keys_le [OF sh] by (simp add: is_full_def)
    have top: "bt_shape (Suc h) (Node False [] [] [root t])" using sh by simp
    show ?thesis
      using split_child_spec [OF top, of 0] full True
      by (intro exI [of _ "Node False [node_keys (root t) ! 7] [node_values (root t) ! 7]
          [split_left (root t), split_right (root t)]"] exI [of _ "Suc h"])
        (auto simp: inorder_internal interleave_def root_fill_def root_split_fat [OF sh fill full])
  next
    case False
    then show ?thesis using sh fill by (auto simp: is_full_def)
  qed
  then obtain r g where r: "(if is_full (root t) then split_child (Node False [] [] [root t]) 0 else Some (root t)) = Some r"
      "bt_shape g r" "length (node_keys r) < 15" "inorder r = inorder (root t)" "root_fill r"
    by blast
  then obtain r' where r': "insert_non_full r key v = Some (None, r')" "bt_shape g r'"
      "inorder r' = alist_put key v (inorder (root t))"
    using insert_non_full_spec [OF r(2,3), of key v] st new unfolding r(4) bt_list_def by blast
  have "root_fill r'"
    using insert_root_fill [OF r(2,3) _ _ r(5) r'(1,2)] st new unfolding r(4) bt_list_def by blast
  moreover have "btree_insert t key v = Some (None, \<lparr>root = r', bt_len = bt_len t + 1\<rparr>)"
    using r(1) r'(1) by (simp add: btree_insert_def)
  ultimately show ?thesis
    using r'(2,3) sorted_keys_put [OF st] length_put_new [OF new [unfolded bt_list_def]] len
    by (auto simp: btree_ok_def bt_list_def)
qed

lemma btree_remove_ok:
  assumes ok: "btree_ok t" and small: "length (bt_list t) < btree_bound"
  shows "\<exists>t'. btree_remove t key = Some (map_of (bt_list t) key, t') \<and> btree_ok t' \<and>
    bt_list t' = alist_del key (bt_list t)"
proof -
  obtain h where sh: "bt_shape h (root t)" and st: "sorted_keys (inorder (root t))"
      and len: "bt_len t = length (inorder (root t))" and fill: "root_fill (root t)"
    using ok by (auto simp: btree_ok_def bt_list_def)
  obtain r where r: "remove_from_node (root t) key = Some (map_of (bt_list t) key, r)" "bt_shape h r"
      "inorder r = alist_del key (inorder (root t))"
    using remove_from_node_spec [OF sh st root_fill_removable [OF fill]] by (auto simp: bt_list_def)
  note rf = remove_root_fill [OF sh st fill small [unfolded bt_list_def] r(1,2)]
  show ?thesis
  proof (cases "map_of (bt_list t) key")
    case None
    then have "alist_del key (inorder (root t)) = inorder (root t)"
      by (intro alist_del_absent) (simp add: bt_list_def map_of_eq_None_iff)
    then show ?thesis
      using None r st len rf(1) by (auto simp: btree_remove_def btree_ok_def bt_list_def)
  next
    case (Some v)
    let ?r = "if node_keys r = [] \<and> \<not> is_leaf r
        then (case vec_pop (node_children r) of Some (child, _) \<Rightarrow> child | None \<Rightarrow> r) else r"
    have r': "(\<exists>g. bt_shape g ?r) \<and> inorder ?r = inorder r \<and> root_fill ?r"
    proof (cases "node_keys r = [] \<and> \<not> is_leaf r")
      case True
      then obtain g c where "r = Node False [] [] [c]" "bt_shape g c"
        using r(2) by (cases h; cases r) (auto simp: length_Suc_conv)
      then show ?thesis using rf(3) by (auto simp: vec_simps inorder_internal interleave_def root_fill_def)
    next
      case False
      then show ?thesis using r(2) rf(2) by auto
    qed
    have "(key, v) \<in> set (inorder (root t))"
      using Some by (simp add: bt_list_def map_of_SomeD)
    then obtain L R where LR: "inorder (root t) = L @ (key, v) # R"
      by (meson split_list)
    then have "length (alist_del key (inorder (root t))) = length (inorder (root t)) - 1"
      using alist_del_middle st by (metis add_Suc_right diff_Suc_1 length_Cons length_append)
    moreover have "btree_remove t key = Some (Some v, \<lparr>root = ?r, bt_len = bt_len t - 1\<rparr>)"
      using r(1) Some by (simp add: btree_remove_def Let_def)
    ultimately show ?thesis
      using Some r' r(3) sorted_keys_del [OF st] len by (auto simp: btree_ok_def bt_list_def)
  qed
qed

lemma btree_to_list_ok: "btree_ok t \<Longrightarrow> btree_to_list t = Some (bt_list t)"
  using btree_to_list_spec by (auto simp: btree_ok_def bt_list_def)

lemma btree_get_mut_ok:
  assumes "btree_ok t"
  shows "\<exists>t'. btree_get_mut t key f = Some (map_of (bt_list t) key, t') \<and> btree_ok t' \<and>
    bt_list t' = alist_upd key f (bt_list t)"
proof -
  obtain h where sh: "bt_shape h (root t)" "sorted_keys (inorder (root t))"
    using assms by (auto simp: btree_ok_def bt_list_def)
  then obtain n' where "get_mut_in_node (root t) key f = Some (map_of (inorder (root t)) key, n')" "bt_shape h n'"
      "inorder n' = alist_upd key f (inorder (root t))"
    using get_mut_in_node_spec by blast
  then show ?thesis
    using assms get_mut_root_fill [of "root t" key f _ n' h] sh(1) by (auto simp: btree_get_mut_def btree_ok_def bt_list_def)
qed

lemma filter_split_sorted:
  "sorted_keys kvs \<Longrightarrow> k \<notin> fst ` set kvs \<Longrightarrow>
   filter (\<lambda>p. fst p < k) kvs @ filter (\<lambda>p. k < fst p) kvs = kvs"
proof (induction kvs)
  case (Cons p kvs)
  show ?case
  proof (cases "fst p < k")
    case False
    then have above: "\<forall>q \<in> set (p # kvs). k < fst q"
      using Cons.prems by (auto simp: not_less)
    have "filter (\<lambda>q. fst q < k) (p # kvs) = []"
      by (rule filter_none) (meson above order.asym)
    moreover have "filter (\<lambda>q. k < fst q) (p # kvs) = p # kvs"
      by (rule filter_True [OF above])
    ultimately show ?thesis by simp
  qed (use Cons in auto)
qed simp

section \<open>The ordered map contract\<close>

locale ordered_map =
  fixes invar :: "'t \<Rightarrow> bool"
    and contents :: "'t \<Rightarrow> ('k::linorder \<times> 'v) list"
    and bound :: nat
    and lookup :: "'t \<Rightarrow> 'k \<Rightarrow> 'v option option"
    and insert_key :: "'t \<Rightarrow> 'k \<Rightarrow> 'v \<Rightarrow> ('v option \<times> 't) option"
    and remove_key :: "'t \<Rightarrow> 'k \<Rightarrow> ('v option \<times> 't) option"
    and modify :: "'t \<Rightarrow> 'k \<Rightarrow> ('v \<Rightarrow> 'v) \<Rightarrow> ('v option \<times> 't) option"
    and entries :: "'t \<Rightarrow> ('k \<times> 'v) list option"
  assumes contents_sorted: "invar t \<Longrightarrow> sorted_keys (contents t)"
    and lookup_eq: "invar t \<Longrightarrow> lookup t k = Some (map_of (contents t) k)"
    and insert_new: "invar t \<Longrightarrow> k \<notin> fst ` set (contents t) \<Longrightarrow>
      \<exists>t'. insert_key t k v = Some (None, t') \<and> invar t' \<and> contents t' = alist_put k v (contents t)"
    and remove_eq: "invar t \<Longrightarrow> length (contents t) < bound \<Longrightarrow>
      \<exists>t'. remove_key t k = Some (map_of (contents t) k, t') \<and> invar t' \<and> contents t' = alist_del k (contents t)"
    and modify_eq: "invar t \<Longrightarrow>
      \<exists>t'. modify t k f = Some (map_of (contents t) k, t') \<and> invar t' \<and> contents t' = alist_upd k f (contents t)"
    and entries_eq: "invar t \<Longrightarrow> entries t = Some (contents t)"
begin

lemma lookup_insert:
  assumes "invar t" "k \<notin> fst ` set (contents t)"
  shows "\<exists>t'. insert_key t k v = Some (None, t') \<and> invar t' \<and> lookup t' k = Some (Some v) \<and>
    (\<forall>j. j \<noteq> k \<longrightarrow> lookup t' j = lookup t j)"
proof -
  obtain t' where t': "insert_key t k v = Some (None, t')" "invar t'" "contents t' = alist_put k v (contents t)"
    using insert_new [OF assms] by blast
  then show ?thesis
    using lookup_eq [OF t'(2)] lookup_eq [OF assms(1)] map_of_put [OF contents_sorted [OF assms(1)]] by simp
qed

lemma lookup_remove:
  assumes "invar t" "length (contents t) < bound"
  shows "\<exists>t'. remove_key t k = Some (the (lookup t k), t') \<and> invar t' \<and> lookup t' k = Some None \<and>
    (\<forall>j. j \<noteq> k \<longrightarrow> lookup t' j = lookup t j)"
proof -
  obtain t' where t': "remove_key t k = Some (map_of (contents t) k, t')" "invar t'"
      "contents t' = alist_del k (contents t)"
    using remove_eq [OF assms] by blast
  then show ?thesis
    using lookup_eq [OF t'(2)] lookup_eq [OF assms(1)] by (simp add: map_of_del)
qed

lemma insert_then_remove:
  assumes "invar t" "k \<notin> fst ` set (contents t)" "insert_key t k v = Some (None, t1)"
    and small: "Suc (length (contents t)) < bound"
  shows "\<exists>t2. remove_key t1 k = Some (Some v, t2) \<and> invar t2 \<and> contents t2 = contents t"
proof -
  have t1: "invar t1" "contents t1 = alist_put k v (contents t)"
    using insert_new [OF assms(1,2), of v] assms(3) by auto
  have "sorted_keys (alist_put k v (contents t))"
    by (rule sorted_keys_put [OF contents_sorted [OF assms(1)]])
  then have "alist_del k (alist_put k v (contents t)) =
      filter (\<lambda>p. fst p < k) (contents t) @ filter (\<lambda>p. k < fst p) (contents t)"
    unfolding alist_put_def by (rule alist_del_middle)
  also have "\<dots> = contents t"
    by (rule filter_split_sorted [OF contents_sorted [OF assms(1)] assms(2)])
  finally show ?thesis
    using remove_eq [OF t1(1), of k] t1(2) small length_put_new [OF assms(2)] map_of_put [OF contents_sorted [OF assms(1)]] by auto
qed

end

interpretation btree: ordered_map btree_ok bt_list btree_bound btree_get btree_insert btree_remove
  btree_get_mut btree_to_list
proof
  fix t :: "('k::linorder, 'v) BTree" and k :: 'k and v :: 'v and f :: "'v \<Rightarrow> 'v"
  assume ok: "btree_ok t"
  then show "sorted_keys (bt_list t)" by (simp add: btree_ok_def)
  show "btree_get t k = Some (map_of (bt_list t) k)" by (rule btree_get_ok [OF ok])
  show "k \<notin> fst ` set (bt_list t) \<Longrightarrow> \<exists>t'. btree_insert t k v = Some (None, t') \<and> btree_ok t' \<and>
      bt_list t' = alist_put k v (bt_list t)"
    by (rule btree_insert_ok [OF ok])
  show "length (bt_list t) < btree_bound \<Longrightarrow> \<exists>t'. btree_remove t k = Some (map_of (bt_list t) k, t') \<and> btree_ok t' \<and>
      bt_list t' = alist_del k (bt_list t)"
    by (rule btree_remove_ok [OF ok])
  show "\<exists>t'. btree_get_mut t k f = Some (map_of (bt_list t) k, t') \<and> btree_ok t' \<and>
      bt_list t' = alist_upd k f (bt_list t)"
    by (rule btree_get_mut_ok [OF ok])
  show "btree_to_list t = Some (bt_list t)" by (rule btree_to_list_ok [OF ok])
qed

lemma btree_first_last_ok:
  assumes "btree_ok t"
  shows "btree_first t = Some (if bt_list t = [] then None else Some (hd (bt_list t)))"
    "btree_last t = Some (if bt_list t = [] then None else Some (last (bt_list t)))"
  using assms ends_in_root [of _ "root t"]
  by (auto simp: btree_ok_def btree_first_def btree_last_def btree_is_empty_def bt_list_def)

lemma alist_put_last:
  assumes "\<forall>p \<in> set kvs. fst p < k"
  shows "alist_put k v kvs = kvs @ [(k, v)]"
  using alist_put_local [of k kvs "[]" v "[]"] assms by (simp add: around_def alist_put_def)

lemma btree_extend_sorted:
  "btree_ok t \<Longrightarrow> sorted_keys (bt_list t @ kvs) \<Longrightarrow>
   \<exists>t'. btree_extend t kvs = Some t' \<and> btree_ok t' \<and> bt_list t' = bt_list t @ kvs"
proof (induction kvs arbitrary: t)
  case (Cons p kvs)
  obtain k v where p: "p = (k, v)" by (cases p)
  have below: "\<forall>q \<in> set (bt_list t). fst q < k"
    using Cons.prems(2) p by (simp add: sorted_wrt_append)
  then have "k \<notin> fst ` set (bt_list t)" by auto
  then obtain t1 where t1: "btree_insert t k v = Some (None, t1)" "btree_ok t1" "bt_list t1 = bt_list t @ [(k, v)]"
    using btree.insert_new [OF Cons.prems(1)] alist_put_last [OF below] by metis
  have "sorted_keys (bt_list t1 @ kvs)"
    using Cons.prems(2) t1(3) p by simp
  then show ?case
    using Cons.IH [OF t1(2)] t1 p by auto
qed simp

section \<open>Properties\<close>

text \<open>
  C5: inserting a key that is not in a well-formed B-tree never panics, reports no old value, keeps
  the tree well formed (sorted, all leaves at the same depth, at most 15 keys per node, the length
  field right) and adds exactly that entry to the contents; looking the key up then gives the value,
  and every other key is as before.
\<close>

theorem btree_insert_new_key:
  assumes "btree_ok t" "btree_get t k = Some None"
  shows "\<exists>t'. btree_insert t k v = Some (None, t') \<and> btree_ok t' \<and>
    bt_list t' = alist_put k v (bt_list t) \<and> bt_len t' = Suc (bt_len t) \<and>
    btree_get t' k = Some (Some v) \<and> (\<forall>j. j \<noteq> k \<longrightarrow> btree_get t' j = btree_get t j)"
proof -
  have new: "k \<notin> fst ` set (bt_list t)"
    using assms by (simp add: btree_get_ok map_of_eq_None_iff)
  obtain t' where "btree_insert t k v = Some (None, t')" "btree_ok t'" "bt_list t' = alist_put k v (bt_list t)"
    using btree.insert_new [OF assms(1) new] by blast
  then show ?thesis
    using btree.lookup_insert [OF assms(1) new, of v] length_put_new [OF new, of v] assms(1)
    by (auto simp: btree_ok_def)
qed

lemma btree_insert_new_key_witness:
  "\<exists>t'. btree_insert (btree_new :: (nat, nat) BTree) 3 7 = Some (None, t') \<and> btree_get t' 3 = Some (Some 7)"
  using btree_insert_new_key [of "btree_new :: (nat, nat) BTree" 3 7]
  by (auto simp: btree_get_ok)

text \<open>
  C6: removing a key from a well-formed B-tree of fewer than 127 entries never panics, returns the
  value the key had, and leaves a well-formed tree with the same contents without that key; so any
  sequence of insertions of new keys and removals that stays below 127 entries is safe.
\<close>

theorem btree_remove_key:
  assumes "btree_ok t" "bt_len t < btree_bound"
  shows "\<exists>t'. btree_remove t k = Some (map_of (bt_list t) k, t') \<and> btree_ok t' \<and>
    bt_list t' = alist_del k (bt_list t) \<and> btree_get t' k = Some None \<and>
    (\<forall>j. j \<noteq> k \<longrightarrow> btree_get t' j = btree_get t j)"
proof -
  have "length (bt_list t) < btree_bound" using assms by (simp add: btree_ok_def)
  then show ?thesis
    using btree.remove_eq [OF assms(1), of k] btree.lookup_remove [OF assms(1), of k] by force
qed

lemma btree_remove_key_witness:
  "\<exists>t'. btree_remove \<lparr>root = Node True [1, 4, 6] [10, 40, 60] [], bt_len = 3\<rparr> (4 :: nat) = Some (Some (40 :: nat), t') \<and>
     bt_list t' = [(1, 10), (6, 60)]"
proof -
  let ?t = "\<lparr>root = Node True [1, 4, 6] [10, 40, 60] [], bt_len = 3\<rparr> :: (nat, nat) BTree"
  have "btree_ok ?t" by (auto simp: btree_ok_def bt_list_def root_fill_def intro: exI [of _ 0])
  then show ?thesis
    using btree_remove_key [of ?t 4] by (auto simp: bt_list_def alist_del_def)
qed

text \<open>
  C20: iterating over a well-formed B-tree ends, does not panic and yields every entry once, in
  increasing key order; cloning a tree inserts that sequence into an empty tree and gives a
  well-formed tree with the same contents.
\<close>

theorem btree_iter_clone:
  assumes "btree_ok t"
  shows "btree_to_list t = Some (bt_list t) \<and> sorted_keys (bt_list t) \<and>
    (\<exists>t'. btree_clone t = Some t' \<and> btree_ok t' \<and> bt_list t' = bt_list t)"
  using btree.entries_eq [OF assms] btree.contents_sorted [OF assms] btree_extend_sorted [of btree_new "bt_list t"]
  by (auto simp: btree_clone_def)

lemma btree_iter_clone_witness:
  "\<exists>t'. btree_clone \<lparr>root = Node True [1, 4, 6] [10, 40, 60] [], bt_len = 3\<rparr> = Some t' \<and>
     bt_list t' = [(1 :: nat, 10 :: nat), (4, 40), (6, 60)]"
proof -
  let ?t = "\<lparr>root = Node True [1, 4, 6] [10, 40, 60] [], bt_len = 3\<rparr> :: (nat, nat) BTree"
  have "btree_ok ?t" "bt_list ?t = [(1, 10), (4, 40), (6, 60)]"
    by (auto simp: btree_ok_def bt_list_def root_fill_def intro: exI [of _ 0])
  then show ?thesis
    using btree_iter_clone [of ?t] by auto
qed

section \<open>Executions that leave the contract\<close>

text \<open>
  Overwriting a key that is the median of a full child: the child is split, the key moves up into
  the parent, and the insertion goes on into the left half, which no longer holds it. The key is
  then in the tree twice, the call reports no old value, and lookup still finds the old one.
\<close>

lemma btree_insert_overwrite_lost:
  "case btree_from (map (\<lambda>i. (i, i)) [1..<24]) of
     Some t \<Rightarrow>
       (case btree_insert t (16 :: nat) 99 of
          Some (old, t') \<Rightarrow> btree_get t 16 = Some (Some 16) \<and> old = None \<and> bt_len t' = 24 \<and>
            btree_get t' 16 = Some (Some 16) \<and>
            map_option (filter (\<lambda>p. fst p = 16)) (btree_to_list t') = Some [(16, 99), (16, 16)]
        | None \<Rightarrow> False)
   | None \<Rightarrow> False"
  by code_simp

text \<open>
  Removing a key of an internal node takes its predecessor or successor out of a leaf without
  rebalancing the path. In a tree of three levels a leaf runs empty, and the next removal of that
  kind panics: after inserting 1 to 137, removing 64 to 70 succeeds and removing 71 panics.
\<close>

lemma btree_remove_panics:
  "case btree_from (map (\<lambda>i. (i, ())) [1..137]) of
     Some t \<Rightarrow>
       (case btree_remove_all t [64..70] of
          Some t' \<Rightarrow> btree_get t' (71 :: int) = Some (Some ()) \<and> btree_remove t' 71 = None
        | None \<Rightarrow> False)
   | None \<Rightarrow> False"
  by code_simp

end
