(* ===== verification/Maple_Tree.thy ===== *)
theory Maple_Tree
  imports BTree_Map
begin

text \<open>
  The maple tree (\<^verbatim>\<open>libs/mptree/tree.rs\<close>): disjoint half-open ranges of addresses, kept in a B-tree
  under their start address. The contents are read as the list \<open>maple_ranges\<close> of triples
  (start, end, value), and every operation is specified on that list. Addresses are 64-bit words,
  so the sums and differences of the gap searches wrap as they do in the code.
\<close>

section \<open>Types\<close>

datatype MapleInsertError = InvalidRange | Overlap

record 'v RangeEntry =
  re_start :: u64
  re_end :: u64
  re_value :: 'v

record 'v MapleTree =
  mt_tree :: "(u64, 'v RangeEntry) BTree"

type_synonym 'v range = "u64 \<times> u64 \<times> 'v"

section \<open>Operations\<close>

definition maple_new :: "'v MapleTree" where
  "maple_new = \<lparr>mt_tree = btree_new\<rparr>"

definition maple_len :: "'v MapleTree \<Rightarrow> nat" where
  "maple_len mt = bt_len (mt_tree mt)"

definition maple_is_empty :: "'v MapleTree \<Rightarrow> bool" where
  "maple_is_empty mt = btree_is_empty (mt_tree mt)"

definition maple_clear :: "'v MapleTree \<Rightarrow> 'v MapleTree" where
  "maple_clear mt = mt\<lparr>mt_tree := btree_new\<rparr>"

text \<open>The test \<^verbatim>\<open>!(end <= e.start || start >= e.end)\<close> that the operations share.\<close>

definition re_overlaps :: "u64 \<Rightarrow> u64 \<Rightarrow> 'v RangeEntry \<Rightarrow> bool" where
  "re_overlaps s e en = (\<not> (e \<le> re_start en \<or> re_end en \<le> s))"

definition re_holds :: "u64 \<Rightarrow> 'v RangeEntry \<Rightarrow> bool" where
  "re_holds point en = (re_start en \<le> point \<and> point < re_end en)"

definition re_triple :: "'v RangeEntry \<Rightarrow> 'v range" where
  "re_triple en = (re_start en, re_end en, re_value en)"

definition maple_has_overlap :: "'v MapleTree \<Rightarrow> u64 \<Rightarrow> u64 \<Rightarrow> bool option" where
  "maple_has_overlap mt s e = do {
     kvs \<leftarrow> btree_to_list (mt_tree mt);
     Some (list_ex (\<lambda>(_, en). re_overlaps s e en) kvs)
   }"

definition maple_insert ::
    "'v MapleTree \<Rightarrow> u64 \<Rightarrow> u64 \<Rightarrow> 'v \<Rightarrow> ((MapleInsertError + 'v option) \<times> 'v MapleTree) option" where
  "maple_insert mt s e v =
     (if e \<le> s then Some (Inl InvalidRange, mt)
      else do {
        o_lap \<leftarrow> maple_has_overlap mt s e;
        if o_lap then Some (Inl Overlap, mt)
        else do {
          (old, t) \<leftarrow> btree_insert (mt_tree mt) s \<lparr>re_start = s, re_end = e, re_value = v\<rparr>;
          Some (Inr (map_option re_value old), mt\<lparr>mt_tree := t\<rparr>)
        }
      })"

definition maple_find :: "'v MapleTree \<Rightarrow> u64 \<Rightarrow> 'v range option option" where
  "maple_find mt point = do {
     kvs \<leftarrow> btree_to_list (mt_tree mt);
     Some (map_option (\<lambda>(_, en). re_triple en) (List.find (\<lambda>(_, en). re_holds point en) kvs))
   }"

definition maple_remove :: "'v MapleTree \<Rightarrow> u64 \<Rightarrow> ((u64 \<times> 'v) option \<times> 'v MapleTree) option" where
  "maple_remove mt s = do {
     (old, t) \<leftarrow> btree_remove (mt_tree mt) s;
     Some (map_option (\<lambda>en. (re_end en, re_value en)) old, mt\<lparr>mt_tree := t\<rparr>)
   }"

text \<open>The bounds of the ranges, sorted by start address, as the gap searches collect them.\<close>

definition maple_bounds :: "'v MapleTree \<Rightarrow> (u64 \<times> u64) list option" where
  "maple_bounds mt = do {
     kvs \<leftarrow> btree_to_list (mt_tree mt);
     Some (sort_key fst (map (\<lambda>(_, en). (re_start en, re_end en)) kvs))
   }"

text \<open>The loops over neighbouring ranges, upwards and downwards.\<close>

fun gap_between :: "u64 \<Rightarrow> u64 \<Rightarrow> u64 \<Rightarrow> (u64 \<times> u64) list \<Rightarrow> u64 option" where
  "gap_between sz lo hi ((s1, e1) # (s2, e2) # rs) =
     (let gap_start = max e1 lo; gap_end = min s2 hi
      in if gap_start < gap_end \<and> sz \<le> gap_end - gap_start then Some gap_start
         else gap_between sz lo hi ((s2, e2) # rs))"
| "gap_between sz lo hi _ = None"

fun gap_between_rev :: "u64 \<Rightarrow> u64 \<Rightarrow> u64 \<Rightarrow> (u64 \<times> u64) list \<Rightarrow> u64 option" where
  "gap_between_rev sz lo hi ((s1, e1) # (s2, e2) # rs) =
     (case gap_between_rev sz lo hi ((s2, e2) # rs) of
        Some g \<Rightarrow> Some g
      | None \<Rightarrow>
          let gap_start = max e1 lo; gap_end = min s2 hi
          in if gap_start < gap_end \<and> sz \<le> gap_end - gap_start then Some (gap_end - sz) else None)"
| "gap_between_rev sz lo hi _ = None"

definition maple_find_gap :: "'v MapleTree \<Rightarrow> u64 \<Rightarrow> u64 \<Rightarrow> u64 \<Rightarrow> u64 option option" where
  "maple_find_gap mt sz lo hi =
     (if hi \<le> lo \<or> sz = 0 then Some None
      else do {
        ranges \<leftarrow> maple_bounds mt;
        let gap_end = (case ranges of [] \<Rightarrow> hi | (s, _) # _ \<Rightarrow> s);
        if (ranges = [] \<or> lo + sz \<le> fst (hd ranges)) \<and> sz \<le> gap_end - lo then Some (Some lo)
        else case gap_between sz lo hi ranges of
          Some g \<Rightarrow> Some (Some g)
        | None \<Rightarrow>
            if ranges = [] then Some None
            else
              let gap_start = max (snd (last ranges)) lo
              in if gap_start < hi \<and> sz \<le> hi - gap_start then Some (Some gap_start) else Some None
      })"

text \<open>The downward search runs from \<^verbatim>\<open>start\<close> (here \<open>hi\<close>) down to \<^verbatim>\<open>end\<close> (here \<open>lo\<close>).\<close>

definition maple_find_gap_reverse :: "'v MapleTree \<Rightarrow> u64 \<Rightarrow> u64 \<Rightarrow> u64 \<Rightarrow> u64 option option" where
  "maple_find_gap_reverse mt sz hi lo =
     (if hi \<le> lo \<or> sz = 0 then Some None
      else do {
        ranges \<leftarrow> maple_bounds mt;
        let gap_start = max (snd (last ranges)) lo;
        if ranges \<noteq> [] \<and> gap_start < hi \<and> sz \<le> hi - gap_start then Some (Some (hi - sz))
        else case gap_between_rev sz lo hi ranges of
          Some g \<Rightarrow> Some (Some g)
        | None \<Rightarrow>
            if ranges = [] then (if sz \<le> hi - lo then Some (Some (hi - sz)) else Some None)
            else if lo < fst (hd ranges) then
              let gap_end = min (fst (hd ranges)) hi
              in if lo < gap_end \<and> sz \<le> gap_end - lo then Some (Some (gap_end - sz)) else Some None
            else Some None
      })"

definition maple_iter :: "'v MapleTree \<Rightarrow> 'v range list option" where
  "maple_iter mt = do {
     kvs \<leftarrow> btree_to_list (mt_tree mt);
     Some (map (\<lambda>(_, en). re_triple en) kvs)
   }"

definition maple_update_end ::
    "'v MapleTree \<Rightarrow> u64 \<Rightarrow> u64 \<Rightarrow> ((MapleInsertError + unit) \<times> 'v MapleTree) option" where
  "maple_update_end mt s new_end = do {
     (r, mt1) \<leftarrow> maple_remove mt s;
     (case r of
        Some (old_end, v) \<Rightarrow> do {
          o_lap \<leftarrow> maple_has_overlap mt1 s new_end;
          if o_lap then do {
            (_, mt2) \<leftarrow> maple_insert mt1 s old_end v;
            Some (Inl Overlap, mt2)
          } else do {
            (res, mt2) \<leftarrow> maple_insert mt1 s new_end v;
            Some (map_sum id (\<lambda>_. ()) res, mt2)
          }
        }
      | None \<Rightarrow> Some (Inl InvalidRange, mt1))
   }"

definition maple_replace ::
    "'v MapleTree \<Rightarrow> u64 \<Rightarrow> u64 \<Rightarrow> 'v \<Rightarrow> ((MapleInsertError + (u64 \<times> 'v) option) \<times> 'v MapleTree) option" where
  "maple_replace mt s e v = do {
     (old, mt1) \<leftarrow> maple_remove mt s;
     (res, mt2) \<leftarrow> maple_insert mt1 s e v;
     (case res of
        Inr _ \<Rightarrow> Some (Inr old, mt2)
      | Inl err \<Rightarrow>
          (case old of
             Some (old_end, old_value) \<Rightarrow> do {
               (_, mt3) \<leftarrow> maple_insert mt2 s old_end old_value;
               Some (Inl err, mt3)
             }
           | None \<Rightarrow> Some (Inl err, mt2)))
   }"

definition maple_move_start ::
    "'v MapleTree \<Rightarrow> u64 \<Rightarrow> u64 \<Rightarrow> ((MapleInsertError + u64 \<times> u64) \<times> 'v MapleTree) option" where
  "maple_move_start mt old_start new_start = do {
     existing \<leftarrow> btree_get (mt_tree mt) old_start;
     (case existing of
        None \<Rightarrow> Some (Inl InvalidRange, mt)
      | Some ex \<Rightarrow>
          let old_end = re_end ex
          in if old_end \<le> new_start then Some (Inl InvalidRange, mt)
             else do {
               kvs \<leftarrow> btree_to_list (mt_tree mt);
               if list_ex (\<lambda>(_, en). re_start en \<noteq> old_start \<and> re_overlaps new_start old_end en) kvs
               then Some (Inl Overlap, mt)
               else do {
                 (old_entry, t) \<leftarrow> btree_remove (mt_tree mt) old_start;
                 (case old_entry of
                    None \<Rightarrow> Some (Inl InvalidRange, mt\<lparr>mt_tree := t\<rparr>)
                  | Some oe \<Rightarrow> do {
                      (_, t') \<leftarrow> btree_insert t new_start
                        \<lparr>re_start = new_start, re_end = old_end, re_value = re_value oe\<rparr>;
                      Some (Inr (old_start, old_end), mt\<lparr>mt_tree := t'\<rparr>)
                    })
               }
             })
   }"

text \<open>The loop that removes the collected start addresses and gathers what was removed.\<close>

fun maple_remove_starts :: "'v MapleTree \<Rightarrow> u64 list \<Rightarrow> ('v range list \<times> 'v MapleTree) option" where
  "maple_remove_starts mt [] = Some ([], mt)"
| "maple_remove_starts mt (s # ss) = do {
     (r, mt1) \<leftarrow> maple_remove mt s;
     (removed, mt2) \<leftarrow> maple_remove_starts mt1 ss;
     Some (case r of Some (e, v) \<Rightarrow> (s, e, v) # removed | None \<Rightarrow> removed, mt2)
   }"

definition maple_insert_overwrite ::
    "'v MapleTree \<Rightarrow> u64 \<Rightarrow> u64 \<Rightarrow> 'v \<Rightarrow> ((MapleInsertError + 'v range list) \<times> 'v MapleTree) option" where
  "maple_insert_overwrite mt s e v =
     (if e \<le> s then Some (Inl InvalidRange, mt)
      else do {
        kvs \<leftarrow> btree_to_list (mt_tree mt);
        let overlapping = map fst (filter (\<lambda>(_, en). re_overlaps s e en) kvs);
        (removed, mt1) \<leftarrow> maple_remove_starts mt overlapping;
        (res, mt2) \<leftarrow> maple_insert mt1 s e v;
        Some (map_sum id (\<lambda>_. removed) res, mt2)
      })"

definition maple_split_at :: "'v MapleTree \<Rightarrow> u64 \<Rightarrow> (bool \<times> 'v MapleTree) option" where
  "maple_split_at mt point = do {
     kvs \<leftarrow> btree_to_list (mt_tree mt);
     (case List.find (\<lambda>(_, en). re_start en < point \<and> point < re_end en) kvs of
        Some (s, en) \<Rightarrow> do {
          (r, mt1) \<leftarrow> maple_remove mt s;
          (case r of
             Some _ \<Rightarrow> do {
               (_, mt2) \<leftarrow> maple_insert mt1 s point (re_value en);
               (_, mt3) \<leftarrow> maple_insert mt2 point (re_end en) (re_value en);
               Some (True, mt3)
             }
           | None \<Rightarrow> Some (False, mt1))
        }
      | None \<Rightarrow> Some (False, mt))
   }"

text \<open>The first pair of neighbours that touch and hold equal values.\<close>

fun find_mergeable :: "'v range list \<Rightarrow> ('v range \<times> 'v range) option" where
  "find_mergeable ((s1, e1, v1) # (s2, e2, v2) # rs) =
     (if e1 = s2 \<and> v1 = v2 then Some ((s1, e1, v1), (s2, e2, v2)) else find_mergeable ((s2, e2, v2) # rs))"
| "find_mergeable _ = None"

text \<open>The merge loop; \<open>None\<close> is a panic or a run that never ends.\<close>

partial_function (option) maple_merge_loop :: "'v MapleTree \<Rightarrow> nat \<Rightarrow> (nat \<times> 'v MapleTree) option" where
  "maple_merge_loop mt merged_count =
     Option.bind (btree_to_list (mt_tree mt)) (\<lambda>kvs.
       (case find_mergeable (sort_key fst (map (\<lambda>(_, en). re_triple en) kvs)) of
          Some ((s1, e1, v), (s2, e2, _)) \<Rightarrow>
            Option.bind (maple_remove mt s1) (\<lambda>(r, mt1).
              (case r of
                 Some _ \<Rightarrow>
                   Option.bind (maple_remove mt1 s2) (\<lambda>(_, mt2).
                   Option.bind (maple_insert mt2 s1 e2 v) (\<lambda>(_, mt3).
                     maple_merge_loop mt3 (merged_count + 1)))
               | None \<Rightarrow> Some (merged_count, mt1)))
        | None \<Rightarrow> Some (merged_count, mt)))"

definition maple_merge_adjacent_equal :: "'v MapleTree \<Rightarrow> (nat \<times> 'v MapleTree) option" where
  "maple_merge_adjacent_equal mt = maple_merge_loop mt 0"

definition maple_lower_bound :: "'v MapleTree \<Rightarrow> u64 \<Rightarrow> 'v range option option" where
  "maple_lower_bound mt s = do {
     kvs \<leftarrow> btree_to_list (mt_tree mt);
     Some (map_option (\<lambda>(_, en). re_triple en) (List.find (\<lambda>(_, en). s \<le> re_start en) kvs))
   }"

definition maple_iter_intersecting :: "'v MapleTree \<Rightarrow> u64 \<Rightarrow> u64 \<Rightarrow> 'v range list option" where
  "maple_iter_intersecting mt s e = do {
     kvs \<leftarrow> btree_to_list (mt_tree mt);
     Some (map (\<lambda>(_, en). re_triple en) (filter (\<lambda>(_, en). re_overlaps s e en) kvs))
   }"

text \<open>A mutable reference is a function applied to the value; the result is the value before it.\<close>

definition maple_get_mut :: "'v MapleTree \<Rightarrow> u64 \<Rightarrow> ('v \<Rightarrow> 'v) \<Rightarrow> ('v option \<times> 'v MapleTree) option" where
  "maple_get_mut mt point f = do {
     kvs \<leftarrow> btree_to_list (mt_tree mt);
     (case List.find (\<lambda>(_, en). re_holds point en) kvs of
        None \<Rightarrow> Some (None, mt)
      | Some (s, _) \<Rightarrow> do {
          (r, t) \<leftarrow> btree_get_mut (mt_tree mt) s (re_value_update f);
          Some (map_option re_value r, mt\<lparr>mt_tree := t\<rparr>)
        })
   }"

definition maple_get_mut_at ::
    "'v MapleTree \<Rightarrow> u64 \<Rightarrow> ('v \<Rightarrow> 'v) \<Rightarrow> ((u64 \<times> 'v) option \<times> 'v MapleTree) option" where
  "maple_get_mut_at mt s f = do {
     (r, t) \<leftarrow> btree_get_mut (mt_tree mt) s (re_value_update f);
     Some (map_option (\<lambda>en. (re_end en, re_value en)) r, mt\<lparr>mt_tree := t\<rparr>)
   }"

definition maple_first :: "'v MapleTree \<Rightarrow> 'v range option option" where
  "maple_first mt = do { r \<leftarrow> btree_first (mt_tree mt); Some (map_option (\<lambda>(_, en). re_triple en) r) }"

definition maple_last :: "'v MapleTree \<Rightarrow> 'v range option option" where
  "maple_last mt = do { r \<leftarrow> btree_last (mt_tree mt); Some (map_option (\<lambda>(_, en). re_triple en) r) }"

definition maple_pop_first :: "'v MapleTree \<Rightarrow> ('v range option \<times> 'v MapleTree) option" where
  "maple_pop_first mt = do {
     (r, t) \<leftarrow> btree_pop_first (mt_tree mt);
     Some (map_option (\<lambda>(_, en). re_triple en) r, mt\<lparr>mt_tree := t\<rparr>)
   }"

definition maple_pop_last :: "'v MapleTree \<Rightarrow> ('v range option \<times> 'v MapleTree) option" where
  "maple_pop_last mt = do {
     (r, t) \<leftarrow> btree_pop_last (mt_tree mt);
     Some (map_option (\<lambda>(_, en). re_triple en) r, mt\<lparr>mt_tree := t\<rparr>)
   }"

definition maple_starts :: "'v MapleTree \<Rightarrow> u64 list option" where
  "maple_starts mt = btree_keys (mt_tree mt)"

definition maple_values :: "'v MapleTree \<Rightarrow> 'v list option" where
  "maple_values mt = do { vs \<leftarrow> btree_values (mt_tree mt); Some (map re_value vs) }"

record 'v MapleValuesMut =
  mv_starts :: "u64 list"
  mv_index :: nat
  mv_tree :: "'v MapleTree"

definition maple_values_mut :: "'v MapleTree \<Rightarrow> 'v MapleValuesMut option" where
  "maple_values_mut mt = do {
     ss \<leftarrow> maple_starts mt;
     Some \<lparr>mv_starts = ss, mv_index = 0, mv_tree = mt\<rparr>
   }"

function maple_values_mut_next ::
    "'v MapleValuesMut \<Rightarrow> ('v \<Rightarrow> 'v) \<Rightarrow> ('v option \<times> 'v MapleValuesMut) option" where
  "maple_values_mut_next it f =
     (if mv_index it < length (mv_starts it) then do {
        (r, mt) \<leftarrow> maple_get_mut_at (mv_tree it) (mv_starts it ! mv_index it) f;
        (let it' = it\<lparr>mv_index := mv_index it + 1, mv_tree := mt\<rparr>
         in case r of Some (_, v) \<Rightarrow> Some (Some v, it') | None \<Rightarrow> maple_values_mut_next it' f)
      } else Some (None, it))"
  by pat_completeness auto
termination
  by (relation "measure (\<lambda>(it, f). length (mv_starts it) - mv_index it)") auto

declare maple_values_mut_next.simps [simp del]

definition maple_contains :: "'v MapleTree \<Rightarrow> u64 \<Rightarrow> bool option" where
  "maple_contains mt point = do { r \<leftarrow> maple_find mt point; Some (\<not> Option.is_none r) }"

definition maple_contains_start :: "'v MapleTree \<Rightarrow> u64 \<Rightarrow> bool option" where
  "maple_contains_start mt s = btree_contains_key (mt_tree mt) s"

definition maple_retain :: "'v MapleTree \<Rightarrow> (u64 \<Rightarrow> u64 \<Rightarrow> 'v \<Rightarrow> bool) \<Rightarrow> 'v MapleTree option" where
  "maple_retain mt f = do {
     t \<leftarrow> btree_retain (mt_tree mt) (\<lambda>_ en. f (re_start en) (re_end en) (re_value en));
     Some (mt\<lparr>mt_tree := t\<rparr>)
   }"

fun btree_take_keys :: "('k::linorder, 'v) BTree \<Rightarrow> 'k list \<Rightarrow> ('v list \<times> ('k, 'v) BTree) option" where
  "btree_take_keys t [] = Some ([], t)"
| "btree_take_keys t (k # ks) = do {
     (r, t1) \<leftarrow> btree_remove t k;
     (taken, t2) \<leftarrow> btree_take_keys t1 ks;
     Some (case r of Some v \<Rightarrow> v # taken | None \<Rightarrow> taken, t2)
   }"

definition maple_remove_intersecting ::
    "'v MapleTree \<Rightarrow> u64 \<Rightarrow> u64 \<Rightarrow> ('v range list \<times> 'v MapleTree) option" where
  "maple_remove_intersecting mt s e = do {
     kvs \<leftarrow> btree_to_list (mt_tree mt);
     let to_remove = map fst (filter (\<lambda>(_, en). re_overlaps s e en) kvs);
     (taken, t) \<leftarrow> btree_take_keys (mt_tree mt) to_remove;
     Some (map re_triple taken, mt\<lparr>mt_tree := t\<rparr>)
   }"

definition maple_total_length :: "'v MapleTree \<Rightarrow> u64 option" where
  "maple_total_length mt = do {
     vs \<leftarrow> btree_values (mt_tree mt);
     Some (sum_list (map (\<lambda>en. re_end en - re_start en) vs))
   }"

definition maple_has_intersection :: "'v MapleTree \<Rightarrow> u64 \<Rightarrow> u64 \<Rightarrow> bool option" where
  "maple_has_intersection mt s e = do {
     kvs \<leftarrow> btree_to_list (mt_tree mt);
     Some (list_ex (\<lambda>(_, en). re_overlaps s e en) kvs)
   }"

fun maple_insert_all :: "'v MapleTree \<Rightarrow> 'v range list \<Rightarrow> 'v MapleTree option" where
  "maple_insert_all mt [] = Some mt"
| "maple_insert_all mt ((s, e, v) # rs) = do {
     (_, mt') \<leftarrow> maple_insert mt s e v;
     maple_insert_all mt' rs
   }"

definition maple_clone :: "'v MapleTree \<Rightarrow> 'v MapleTree option" where
  "maple_clone mt = do { rs \<leftarrow> maple_iter mt; maple_insert_all maple_new rs }"

end
