(* ===== verification/Maple_Proofs.thy ===== *)
theory Maple_Proofs
  imports Maple_Tree
begin

text \<open>
  Correctness of the maple tree over its list of ranges: the invariant (sorted, disjoint, non-empty
  ranges) and that every operation keeps it, point queries, updates with their error branches, and
  the two gap searches.
\<close>

section \<open>Lists of ranges\<close>

definition entry :: "'v range \<Rightarrow> u64 \<times> 'v RangeEntry" where
  "entry = (\<lambda>(s, e, v). (s, \<lparr>re_start = s, re_end = e, re_value = v\<rparr>))"

definition r_overlaps :: "u64 \<Rightarrow> u64 \<Rightarrow> 'v range \<Rightarrow> bool" where
  "r_overlaps lo hi = (\<lambda>(s, e, v). \<not> (hi \<le> s \<or> e \<le> lo))"

definition r_holds :: "u64 \<Rightarrow> 'v range \<Rightarrow> bool" where
  "r_holds p = (\<lambda>(s, e, v). s \<le> p \<and> p < e)"

definition ranges_ok :: "'v range list \<Rightarrow> bool" where
  "ranges_ok rs \<longleftrightarrow> (\<forall>(s, e, v) \<in> set rs. s < e) \<and> sorted_wrt (\<lambda>(s, e, v) (s', e', v'). e \<le> s') rs"

definition range_put :: "u64 \<Rightarrow> u64 \<Rightarrow> 'v \<Rightarrow> 'v range list \<Rightarrow> 'v range list" where
  "range_put s e v rs = filter (\<lambda>r. fst r < s) rs @ (s, e, v) # filter (\<lambda>r. s < fst r) rs"

definition range_del :: "u64 \<Rightarrow> 'v range list \<Rightarrow> 'v range list" where
  "range_del s rs = filter (\<lambda>r. fst r \<noteq> s) rs"

lemma entry_simps [simp]: "fst (entry r) = fst r" "re_triple (snd (entry r)) = r"
  "re_start (snd (entry r)) = fst r" "re_end (snd (entry r)) = fst (snd r)" "re_value (snd (entry r)) = snd (snd r)"
  by (auto simp: entry_def re_triple_def split: prod.splits)

lemma entry_eq: "entry (s, e, v) = (s, \<lparr>re_start = s, re_end = e, re_value = v\<rparr>)"
  by (simp add: entry_def)

lemma entry_inject: "entry r = (s, en) \<longleftrightarrow> r = re_triple en \<and> s = re_start en"
  by (cases r) (auto simp: entry_def re_triple_def)

lemma entry_preds [simp]:
  "(case entry r of (k, en) \<Rightarrow> re_overlaps lo hi en) = r_overlaps lo hi r"
  "(case entry r of (k, en) \<Rightarrow> re_holds p en) = r_holds p r"
  "(case entry r of (k, en) \<Rightarrow> re_triple en) = r"
  "(case entry r of (k, en) \<Rightarrow> (re_start en, re_end en)) = (fst r, fst (snd r))"
  by (cases r; simp add: entry_def re_overlaps_def r_overlaps_def re_holds_def r_holds_def re_triple_def)+

lemma entry_put: "alist_put s \<lparr>re_start = s, re_end = e, re_value = v\<rparr> (map entry rs) = map entry (range_put s e v rs)"
  by (simp add: alist_put_def range_put_def filter_map comp_def) (simp add: entry_def)

lemma entry_del: "alist_del s (map entry rs) = map entry (range_del s rs)"
  by (simp add: alist_del_def range_del_def filter_map comp_def)

lemma ranges_ok_Nil [simp]: "ranges_ok []"
  by (simp add: ranges_ok_def)

lemma ranges_ok_Cons: "ranges_ok ((s, e, v) # rs) \<longleftrightarrow> s < e \<and> (\<forall>r \<in> set rs. e \<le> fst r) \<and> ranges_ok rs"
  by (auto simp: ranges_ok_def split: prod.splits)

lemma ranges_ok_append:
  "ranges_ok (xs @ ys) \<longleftrightarrow> ranges_ok xs \<and> ranges_ok ys \<and> (\<forall>x \<in> set xs. \<forall>y \<in> set ys. fst (snd x) \<le> fst y)"
  by (auto simp: ranges_ok_def sorted_wrt_append split_def)

lemma ranges_ok_filter: "ranges_ok rs \<Longrightarrow> ranges_ok (filter P rs)"
  by (auto simp: ranges_ok_def sorted_wrt_filter)

lemma ranges_ok_starts: "ranges_ok rs \<Longrightarrow> sorted_wrt (<) (map fst rs)"
proof (induction rs)
  case (Cons r rs)
  then show ?case by (cases r) (auto simp: ranges_ok_Cons intro: less_le_trans)
qed simp

lemma ranges_ok_sort: "ranges_ok rs \<Longrightarrow> sort_key fst rs = rs"
  by (rule sort_key_id_if_sorted) (rule strict_sorted_imp_sorted [OF ranges_ok_starts])

lemma ranges_ok_del: "ranges_ok rs \<Longrightarrow> ranges_ok (range_del s rs)"
  by (simp add: range_del_def ranges_ok_filter)

lemma ranges_ok_put:
  assumes ok: "ranges_ok rs" and "s < e" and free: "\<forall>r \<in> set rs. \<not> r_overlaps s e r"
  shows "ranges_ok (range_put s e v rs)"
proof -
  have "fst (snd r) \<le> s" if "r \<in> set rs" "fst r < s" for r
    using free that assms(2) by (force simp: r_overlaps_def)
  moreover have "e \<le> fst r" if "r \<in> set rs" "s < fst r" for r
    using free that ok by (force simp: r_overlaps_def ranges_ok_def)
  ultimately show ?thesis
    using ok assms(2) by (auto simp: range_put_def ranges_ok_append ranges_ok_Cons ranges_ok_filter)
      (meson order.strict_implies_order order_trans)
qed


section \<open>The invariant\<close>

definition maple_ranges :: "'v MapleTree \<Rightarrow> 'v range list" where
  "maple_ranges mt = map (\<lambda>(_, en). re_triple en) (bt_list (mt_tree mt))"

definition maple_ok :: "'v MapleTree \<Rightarrow> bool" where
  "maple_ok mt \<longleftrightarrow> btree_ok (mt_tree mt) \<and> bt_list (mt_tree mt) = map entry (maple_ranges mt) \<and>
     ranges_ok (maple_ranges mt)"

text \<open>The well-formed tree \<open>mt\<close> holds the ranges \<open>rs\<close>.\<close>

definition holds :: "'v MapleTree \<Rightarrow> 'v range list \<Rightarrow> bool" where
  "holds mt rs \<longleftrightarrow> maple_ok mt \<and> maple_ranges mt = rs"

lemma maple_ranges_entry: "bt_list (mt_tree mt) = map entry rs \<Longrightarrow> maple_ranges mt = rs"
  by (simp add: maple_ranges_def comp_def)

lemma holds_iff:
  "holds mt rs \<longleftrightarrow> btree_ok (mt_tree mt) \<and> bt_list (mt_tree mt) = map entry rs \<and> ranges_ok rs"
  using maple_ranges_entry [of mt rs] by (auto simp: holds_def maple_ok_def)

lemma maple_ok_holds: "maple_ok mt \<longleftrightarrow> holds mt (maple_ranges mt)"
  by (simp add: holds_def)

lemma holds_ranges_ok: "holds mt rs \<Longrightarrow> ranges_ok rs"
  by (simp add: holds_iff)

lemma holds_list: "holds mt rs \<Longrightarrow> btree_to_list (mt_tree mt) = Some (map entry rs)"
  by (simp add: holds_iff btree_to_list_ok)

lemma holds_len: "holds mt rs \<Longrightarrow> maple_len mt = length rs"
  by (simp add: holds_iff maple_len_def btree_ok_def)

lemma maple_new_holds: "holds maple_new []"
  by (simp add: holds_iff maple_new_def)

lemma maple_clear_holds: "holds (maple_clear mt) []"
  by (simp add: holds_iff maple_clear_def)

lemma has_overlap_holds: "holds mt rs \<Longrightarrow> maple_has_overlap mt s e = Some (list_ex (r_overlaps s e) rs)"
  by (simp add: maple_has_overlap_def holds_list list_ex_iff)

section \<open>Insertion, lookup and removal\<close>

lemma start_free:
  assumes "ranges_ok rs" "s < e" "\<forall>r \<in> set rs. \<not> r_overlaps s e r"
  shows "s \<notin> fst ` set rs"
  using assms by (fastforce simp: r_overlaps_def ranges_ok_def)

lemma insert_holds:
  assumes h: "holds mt rs" and se: "s < e" and free: "\<forall>r \<in> set rs. \<not> r_overlaps s e r"
  shows "\<exists>mt'. maple_insert mt s e v = Some (Inr None, mt') \<and> holds mt' (range_put s e v rs)"
proof -
  let ?en = "\<lparr>re_start = s, re_end = e, re_value = v\<rparr>"
  have rs: "ranges_ok rs" "btree_ok (mt_tree mt)" "bt_list (mt_tree mt) = map entry rs"
    using h by (auto simp: holds_iff)
  have "s \<notin> fst ` set (bt_list (mt_tree mt))"
    using start_free [OF rs(1) se free] rs(3) by (simp add: image_image)
  then obtain t where "btree_insert (mt_tree mt) s ?en = Some (None, t)" "btree_ok t"
      "bt_list t = map entry (range_put s e v rs)"
    using btree.insert_new [OF rs(2)] rs(3) entry_put by metis
  moreover have "maple_has_overlap mt s e = Some False"
    using has_overlap_holds [OF h] free by (simp add: list_ex_iff)
  ultimately show ?thesis
    using se ranges_ok_put [OF rs(1) se free] by (auto simp: maple_insert_def holds_iff)
qed

lemma insert_rejects:
  assumes "holds mt rs"
  shows "e \<le> s \<Longrightarrow> maple_insert mt s e v = Some (Inl InvalidRange, mt)"
    "s < e \<Longrightarrow> \<exists>r \<in> set rs. r_overlaps s e r \<Longrightarrow> maple_insert mt s e v = Some (Inl Overlap, mt)"
  using has_overlap_holds [OF assms] by (auto simp: maple_insert_def list_ex_iff)

lemma find_map_entry: "(\<And>r. P (entry r) = Q r) \<Longrightarrow> List.find P (map entry rs) = map_option entry (List.find Q rs)"
  by (induction rs) auto

lemma find_holds: "holds mt rs \<Longrightarrow> maple_find mt p = Some (List.find (r_holds p) rs)"
  by (simp add: maple_find_def holds_list find_map_entry [where Q = "r_holds p"] option.map_comp comp_def
      option.map_ident)

lemma find_unique:
  assumes "ranges_ok rs" "r \<in> set rs" "r_holds p r"
  shows "List.find (r_holds p) rs = Some r"
  using assms
proof (induction rs)
  case (Cons x xs)
  have "\<not> r_holds p x" if "r \<noteq> x"
    using that Cons.prems by (cases x; cases r) (force simp: ranges_ok_Cons r_holds_def)
  then show ?case
    using Cons by (cases x) (auto simp: ranges_ok_Cons)
qed simp

lemma map_of_entry:
  "ranges_ok rs \<Longrightarrow> (s, e, v) \<in> set rs \<Longrightarrow> map_of (map entry rs) s = Some \<lparr>re_start = s, re_end = e, re_value = v\<rparr>"
proof (induction rs)
  case (Cons x xs)
  then show ?case
    by (cases x) (force simp: ranges_ok_Cons entry_def)
qed simp

lemma remove_holds:
  assumes h: "holds mt rs" and small: "length rs < btree_bound"
  shows "(s, e, v) \<in> set rs \<Longrightarrow> \<exists>mt'. maple_remove mt s = Some (Some (e, v), mt') \<and> holds mt' (range_del s rs)"
    "s \<notin> fst ` set rs \<Longrightarrow> \<exists>mt'. maple_remove mt s = Some (None, mt') \<and> holds mt' rs"
proof -
  have rs: "ranges_ok rs" "btree_ok (mt_tree mt)" "bt_list (mt_tree mt) = map entry rs"
    using h by (auto simp: holds_iff)
  obtain t where t: "btree_remove (mt_tree mt) s = Some (map_of (map entry rs) s, t)" "btree_ok t"
      "bt_list t = map entry (range_del s rs)"
    using btree.remove_eq [OF rs(2), of s] rs(3) entry_del small by (metis length_map)
  show "\<exists>mt'. maple_remove mt s = Some (Some (e, v), mt') \<and> holds mt' (range_del s rs)" if "(s, e, v) \<in> set rs"
    using t map_of_entry [OF rs(1) that] ranges_ok_del [OF rs(1)] by (auto simp: maple_remove_def holds_iff)
  show "\<exists>mt'. maple_remove mt s = Some (None, mt') \<and> holds mt' rs" if "s \<notin> fst ` set rs"
  proof -
    have "map_of (map entry rs) s = None" "range_del s rs = rs"
      using that by (auto simp: map_of_eq_None_iff image_image range_del_def intro!: filter_True)
    then show ?thesis
      using t ranges_ok_del [OF rs(1), of s] by (auto simp: maple_remove_def holds_iff)
  qed
qed


section \<open>Gap searches\<close>

text \<open>
  \<open>gap_fits rs sz lo hi g\<close>: the \<open>sz\<close> addresses from \<open>g\<close> on lie in \<open>[lo, hi)\<close> and meet no range.
\<close>

definition gap_fits :: "'v range list \<Rightarrow> u64 \<Rightarrow> u64 \<Rightarrow> u64 \<Rightarrow> u64 \<Rightarrow> bool" where
  "gap_fits rs sz lo hi g \<longleftrightarrow> lo \<le> g \<and> unat g + unat sz \<le> unat hi \<and>
     list_all (\<lambda>(s, e, v). unat g + unat sz \<le> unat s \<or> e \<le> g) rs"

definition bounds_of :: "'v range list \<Rightarrow> (u64 \<times> u64) list" where
  "bounds_of rs = map (\<lambda>(s, e, v). (s, e)) rs"

lemma bounds_of_simps [simp]:
  "bounds_of [] = []" "bounds_of ((s, e, v) # rs) = (s, e) # bounds_of rs" "bounds_of rs = [] \<longleftrightarrow> rs = []"
  by (simp_all add: bounds_of_def)

lemma bounds_of_ends: "rs \<noteq> [] \<Longrightarrow> snd (last (bounds_of rs)) = fst (snd (last rs)) \<and> fst (hd (bounds_of rs)) = fst (hd rs)"
  by (cases rs) (auto simp: bounds_of_def last_map hd_map split_def)

lemma bounds_holds: "holds mt rs \<Longrightarrow> maple_bounds mt = Some (bounds_of rs)"
proof -
  assume h: "holds mt rs"
  have "sorted (map fst rs)"
    by (rule strict_sorted_imp_sorted [OF ranges_ok_starts [OF holds_ranges_ok [OF h]]])
  then have "sorted (map fst (bounds_of rs))"
    by (simp add: bounds_of_def comp_def split_def)
  then show ?thesis
    using h by (simp add: maple_bounds_def holds_list comp_def bounds_of_def sort_key_id_if_sorted split_def)
qed

lemma gap_room: "0 < sz \<Longrightarrow> (a < b \<and> sz \<le> b - a) \<longleftrightarrow> unat a + unat sz \<le> unat (b :: u64)"
proof -
  assume "0 < sz"
  then have "0 < unat sz" by (simp add: word_less_nat_alt)
  then show ?thesis
    by (auto simp: word_less_nat_alt word_le_nat_alt unat_sub_if')
qed

lemma gap_fits_Cons:
  "gap_fits ((s, e, v) # rs) sz lo hi g \<longleftrightarrow> (unat g + unat sz \<le> unat s \<or> e \<le> g) \<and> gap_fits rs sz lo hi g"
  by (auto simp: gap_fits_def)

lemma gap_fits_above:
  assumes "\<forall>r \<in> set rs. b \<le> fst r" "lo \<le> g" "unat g + unat sz \<le> unat b" "unat g + unat sz \<le> unat hi"
  shows "gap_fits rs sz lo hi g"
  using assms by (auto simp: gap_fits_def list_all_iff word_le_nat_alt dest!: bspec)

lemma gap_fits_below:
  assumes "\<forall>r \<in> set rs. fst (snd r) \<le> g" "lo \<le> g" "unat g + unat sz \<le> unat hi"
  shows "gap_fits rs sz lo hi g"
  using assms by (auto simp: gap_fits_def list_all_iff)

lemma ranges_ok_above: "ranges_ok ((s, e, v) # rs) \<Longrightarrow> \<forall>r \<in> set ((s, e, v) # rs). s \<le> fst r"
  by (auto simp: ranges_ok_Cons dest!: bspec)

lemmas u64_nat = word_le_nat_alt word_less_nat_alt unat_max_u64 unat_min_u64

text \<open>The loop between neighbours finds the lowest fit above the first range and below the last.\<close>

lemma gap_between_spec:
  assumes sz: "0 < sz"
  shows "ranges_ok ((s1, e1, v1) # rs) \<Longrightarrow>
    (case gap_between sz lo hi ((s1, e1) # bounds_of rs) of
       Some g \<Rightarrow> gap_fits ((s1, e1, v1) # rs) sz lo hi g \<and> e1 \<le> g \<and>
         (\<forall>g'. gap_fits rs sz lo hi g' \<and> e1 \<le> g' \<longrightarrow> g \<le> g')
     | None \<Rightarrow> \<forall>g'. gap_fits rs sz lo hi g' \<and> e1 \<le> g' \<longrightarrow> fst (snd (last ((s1, e1, v1) # rs))) \<le> g')"
proof (induction rs arbitrary: s1 e1 v1)
  case (Cons r2 rs)
  obtain s2 e2 v2 where r2: "r2 = (s2, e2, v2)" by (cases r2)
  have ok: "ranges_ok ((s2, e2, v2) # rs)" "e1 \<le> s2" "s2 < e2" "\<forall>r \<in> set rs. e2 \<le> fst r"
    using Cons.prems by (auto simp: r2 ranges_ok_Cons)
  let ?gs = "max e1 lo" and ?ge = "min s2 hi"
  show ?case
  proof (cases "unat ?gs + unat sz \<le> unat ?ge")
    case True
    note above = ranges_ok_above [OF ok(1)]
    have "gap_fits ((s2, e2, v2) # rs) sz lo hi ?gs"
      using True by (intro gap_fits_above [OF above]) (simp_all add: u64_nat)
    moreover have "gap_between sz lo hi ((s1, e1) # bounds_of (r2 # rs)) = Some ?gs"
      using True gap_room [OF sz, of ?gs ?ge] by (simp add: r2 Let_def)
    ultimately show ?thesis
      by (simp add: r2 gap_fits_Cons) (simp add: gap_fits_def)
  next
    case False
    have eq: "gap_between sz lo hi ((s1, e1) # bounds_of (r2 # rs)) = gap_between sz lo hi ((s2, e2) # bounds_of rs)"
      using False gap_room [OF sz, of ?gs ?ge] by (auto simp: r2 Let_def)
    have skip: "e2 \<le> g' \<and> gap_fits rs sz lo hi g'" if "gap_fits (r2 # rs) sz lo hi g'" "e1 \<le> g'" for g'
      using that False unfolding r2 gap_fits_Cons by (auto simp: gap_fits_def u64_nat)
    have le: "e1 \<le> e2" using ok(2,3) by simp
    note IH = Cons.IH [OF ok(1)]
    show ?thesis
    proof (cases "gap_between sz lo hi ((s2, e2) # bounds_of rs)")
      case None
      have top: "\<And>g'. gap_fits rs sz lo hi g' \<Longrightarrow> e2 \<le> g' \<Longrightarrow> fst (snd (last (r2 # rs))) \<le> g'"
        using IH unfolding None r2 by simp
      have "last ((s1, e1, v1) # r2 # rs) = last (r2 # rs)" by simp
      then show ?thesis
        unfolding eq None option.case using skip top by metis
    next
      case (Some g)
      have g: "gap_fits ((s2, e2, v2) # rs) sz lo hi g" "e2 \<le> g"
        and min: "\<And>g'. gap_fits rs sz lo hi g' \<Longrightarrow> e2 \<le> g' \<Longrightarrow> g \<le> g'"
        using IH unfolding Some by simp_all
      have "e1 \<le> g" using le g(2) by (rule order_trans)
      moreover have "gap_fits ((s1, e1, v1) # r2 # rs) sz lo hi g"
        using g(1) \<open>e1 \<le> g\<close> unfolding r2 gap_fits_Cons [of s1] by blast
      moreover have "\<forall>g'. gap_fits (r2 # rs) sz lo hi g' \<and> e1 \<le> g' \<longrightarrow> g \<le> g'"
        using skip min by blast
      ultimately show ?thesis
        unfolding eq Some option.case by blast
    qed
  qed
qed simp


lemma gap_between_rev_spec:
  assumes sz: "0 < sz"
  shows "ranges_ok ((s1, e1, v1) # rs) \<Longrightarrow>
    (case gap_between_rev sz lo hi ((s1, e1) # bounds_of rs) of
       Some g \<Rightarrow> gap_fits ((s1, e1, v1) # rs) sz lo hi g \<and> e1 \<le> g \<and>
         (\<forall>g'. gap_fits ((s1, e1, v1) # rs) sz lo hi g' \<and> \<not> fst (snd (last ((s1, e1, v1) # rs))) \<le> g' \<longrightarrow> g' \<le> g)
     | None \<Rightarrow> \<forall>g'. gap_fits ((s1, e1, v1) # rs) sz lo hi g' \<and> \<not> fst (snd (last ((s1, e1, v1) # rs))) \<le> g' \<longrightarrow>
         unat g' + unat sz \<le> unat s1)"
proof (induction rs arbitrary: s1 e1 v1)
  case (Cons r2 rs)
  obtain s2 e2 v2 where r2: "r2 = (s2, e2, v2)" by (cases r2)
  have ok: "ranges_ok ((s2, e2, v2) # rs)" "e1 \<le> s2" "s2 < e2" "\<forall>r \<in> set rs. e2 \<le> fst r"
    using Cons.prems by (auto simp: r2 ranges_ok_Cons)
  let ?gs = "max e1 lo" and ?ge = "min s2 hi" and ?last = "fst (snd (last ((s2, e2, v2) # rs)))"
  note IH = Cons.IH [OF ok(1)]
  show ?case
  proof (cases "gap_between_rev sz lo hi ((s2, e2) # bounds_of rs)")
    case (Some g)
    have "g' \<le> g" if "gap_fits (r2 # rs) sz lo hi g'" "\<not> ?last \<le> g'" for g'
      using that IH Some by (simp add: r2)
    then show ?thesis
      using IH Some ok(2,3) by (auto simp: r2 gap_fits_Cons)
  next
    case None
    have low: "unat g' + unat sz \<le> unat s2" if "gap_fits ((s2, e2, v2) # rs) sz lo hi g'" "\<not> ?last \<le> g'" for g'
      using that IH None by simp
    show ?thesis
    proof (cases "unat ?gs + unat sz \<le> unat ?ge")
      case True
      let ?g = "?ge - sz"
      have "sz \<le> ?ge" using True by (simp add: word_le_nat_alt)
      then have g: "unat ?g + unat sz = unat ?ge" by (simp add: unat_sub word_le_nat_alt)
      note above = ranges_ok_above [OF ok(1)]
      have "gap_fits ((s2, e2, v2) # rs) sz lo hi ?g"
        using True g by (intro gap_fits_above [OF above]) (auto simp: u64_nat)
      moreover have "e1 \<le> ?g" using True g by (auto simp: u64_nat)
      moreover have "g' \<le> ?g" if "gap_fits ((s2, e2, v2) # rs) sz lo hi g'" "\<not> ?last \<le> g'" for g'
        using low [OF that] that(1) g by (auto simp: gap_fits_def u64_nat)
      ultimately show ?thesis
        using None True gap_room [OF sz, of ?gs ?ge] by (auto simp: r2 Let_def gap_fits_Cons)
    next
      case False
      have "unat g' + unat sz \<le> unat s1"
        if "gap_fits ((s1, e1, v1) # (s2, e2, v2) # rs) sz lo hi g'" "\<not> ?last \<le> g'" for g'
        using low [of g'] that False by (auto simp: gap_fits_def u64_nat)
      moreover have "gap_between_rev sz lo hi ((s1, e1) # bounds_of (r2 # rs)) = None"
        using None False gap_room [OF sz, of ?gs ?ge] by (auto simp: r2 Let_def)
      ultimately show ?thesis by (simp add: r2)
    qed
  qed
qed (auto simp: gap_fits_def)

lemma last_end_max:
  assumes "ranges_ok rs" "r \<in> set rs"
  shows "fst (snd r) \<le> fst (snd (last rs))"
proof -
  obtain rs' l where rs: "rs = rs' @ [l]" using assms(2) by (cases rs rule: rev_cases) auto
  then show ?thesis
    using assms by (cases l) (auto simp: ranges_ok_append ranges_ok_Cons intro: order_trans less_imp_le)
qed

lemma find_gap_spec:
  assumes h: "holds mt rs" and sz: "0 < sz" and room: "unat lo + unat sz \<le> unat hi"
  shows "case maple_find_gap mt sz lo hi of
     Some (Some g) \<Rightarrow> gap_fits rs sz lo hi g \<and> (\<forall>g'. gap_fits rs sz lo hi g' \<longrightarrow> g \<le> g')
   | Some None \<Rightarrow> \<forall>g'. \<not> gap_fits rs sz lo hi g'
   | None \<Rightarrow> False"
proof -
  have start: "\<not> (hi \<le> lo \<or> sz = 0)" using room sz by (auto simp: u64_nat)
  note ok = holds_ranges_ok [OF h]
  have nowrap: "unat (lo + sz) = unat lo + unat sz"
    using room by (intro unat_add_no_wrap) (simp add: le_less_trans)
  show ?thesis
  proof (cases rs)
    case Nil
    have "sz \<le> hi - lo" using room gap_room [OF sz, of lo hi] by simp
    then have "maple_find_gap mt sz lo hi = Some (Some lo)"
      using start Nil by (simp add: maple_find_gap_def bounds_holds [OF h])
    then show ?thesis using Nil room by (simp add: gap_fits_def)
  next
    case (Cons r rs')
    obtain s0 e0 v0 where r: "r = (s0, e0, v0)" by (cases r)
    have ok0: "ranges_ok ((s0, e0, v0) # rs')" "s0 < e0" using ok Cons r by (auto simp: ranges_ok_Cons)
    show ?thesis
    proof (cases "lo + sz \<le> s0")
      case True
      have "sz \<le> s0 - lo" using True nowrap gap_room [OF sz, of lo s0] by (simp add: word_le_nat_alt)
      then have "maple_find_gap mt sz lo hi = Some (Some lo)"
        using start Cons r True by (simp add: maple_find_gap_def bounds_holds [OF h])
      moreover have "gap_fits rs sz lo hi lo"
        unfolding Cons r using True nowrap room
        by (intro gap_fits_above [OF ranges_ok_above [OF ok0(1)]]) (auto simp: word_le_nat_alt)
      ultimately show ?thesis by (simp add: gap_fits_def)
    next
      case False
      let ?le = "fst (snd (last rs))" and ?gb = "gap_between sz lo hi ((s0, e0) # bounds_of rs')"
      have past: "e0 \<le> g'" if "gap_fits rs sz lo hi g'" for g'
        using that False nowrap Cons r by (auto simp: gap_fits_def u64_nat)
      have tail: "gap_fits rs' sz lo hi g'" if "gap_fits rs sz lo hi g'" for g'
        using that Cons r by (simp add: gap_fits_Cons)
      note gb = gap_between_spec [OF sz ok0(1), of lo hi]
      show ?thesis
      proof (cases ?gb)
        case (Some g)
        then have "maple_find_gap mt sz lo hi = Some (Some g)"
          using start Cons r False by (simp add: maple_find_gap_def bounds_holds [OF h])
        then show ?thesis using gb Some past tail Cons r by simp
      next
        case None
        have top: "?le \<le> g'" if "gap_fits rs sz lo hi g'" for g'
          using that gb None past tail Cons r by simp
        have le: "snd (last (bounds_of rs)) = ?le" using Cons bounds_of_ends by blast
        have result: "maple_find_gap mt sz lo hi =
            Some (if unat (max ?le lo) + unat sz \<le> unat hi then Some (max ?le lo) else None)"
          using start None Cons r False le gap_room [OF sz, of "max ?le lo" hi]
          by (auto simp: maple_find_gap_def bounds_holds [OF h] Let_def)
        have "gap_fits rs sz lo hi (max ?le lo)" if "unat (max ?le lo) + unat sz \<le> unat hi"
          using that last_end_max [OF ok] by (intro gap_fits_below) (auto intro: le_max_iff_disj [THEN iffD2])
        moreover have "max ?le lo \<le> g'" "unat (max ?le lo) + unat sz \<le> unat hi" if "gap_fits rs sz lo hi g'" for g'
          using top [OF that] that by (auto simp: gap_fits_def u64_nat)
        ultimately show ?thesis unfolding result by auto
      qed
    qed
  qed
qed


lemma find_gap_reverse_spec:
  assumes h: "holds mt rs" and sz: "0 < sz"
  shows "case maple_find_gap_reverse mt sz hi lo of
     Some (Some g) \<Rightarrow> gap_fits rs sz lo hi g \<and> (\<forall>g'. gap_fits rs sz lo hi g' \<longrightarrow> g' \<le> g)
   | Some None \<Rightarrow> \<forall>g'. \<not> gap_fits rs sz lo hi g'
   | None \<Rightarrow> False"
proof (cases "hi \<le> lo")
  case True
  have "\<not> gap_fits rs sz lo hi g'" for g'
    using True sz by (auto simp: gap_fits_def u64_nat)
  then show ?thesis using True by (simp add: maple_find_gap_reverse_def)
next
  case start: False
  note ok = holds_ranges_ok [OF h]
  have sz0: "sz \<noteq> 0" using sz by auto
  have top: "unat (b - sz) + unat sz = unat b" if "unat a + unat sz \<le> unat b" for a b :: u64
    using that by (simp add: unat_sub word_le_nat_alt)
  show ?thesis
  proof (cases rs)
    case Nil
    have "maple_find_gap_reverse mt sz hi lo = Some (if unat lo + unat sz \<le> unat hi then Some (hi - sz) else None)"
      using start Nil sz0 gap_room [OF sz, of lo hi] by (auto simp: maple_find_gap_reverse_def bounds_holds [OF h] not_le)
    then show ?thesis using Nil top [of lo hi] by (auto simp: gap_fits_def u64_nat)
  next
    case (Cons r rs')
    obtain s0 e0 v0 where r: "r = (s0, e0, v0)" by (cases r)
    have ok0: "ranges_ok ((s0, e0, v0) # rs')" using ok Cons r by simp
    let ?le = "fst (snd (last rs))" and ?gb = "gap_between_rev sz lo hi ((s0, e0) # bounds_of rs')"
    have le: "snd (last (bounds_of rs)) = ?le" using Cons bounds_of_ends by blast
    note gb = gap_between_rev_spec [OF sz ok0, of lo hi]
    show ?thesis
    proof (cases "unat (max ?le lo) + unat sz \<le> unat hi")
      case True
      have "maple_find_gap_reverse mt sz hi lo = Some (Some (hi - sz))"
        using start sz0 Cons True le gap_room [OF sz, of "max ?le lo" hi]
        by (auto simp: maple_find_gap_reverse_def bounds_holds [OF h] Let_def)
      moreover have "max ?le lo \<le> hi - sz" using top [OF True] True by (simp add: word_le_nat_alt)
      then have "gap_fits rs sz lo hi (hi - sz)"
        using top [OF True] last_end_max [OF ok] by (intro gap_fits_below) (auto intro: order_trans)
      ultimately show ?thesis using top [OF True] by (auto simp: gap_fits_def u64_nat)
    next
      case False
      have below: "\<not> ?le \<le> g'" if "gap_fits rs sz lo hi g'" for g'
        using that False by (auto simp: gap_fits_def u64_nat)
      show ?thesis
      proof (cases ?gb)
        case (Some g)
        then have "maple_find_gap_reverse mt sz hi lo = Some (Some g)"
          using start sz0 Cons r False le gap_room [OF sz, of "max ?le lo" hi]
          by (auto simp: maple_find_gap_reverse_def bounds_holds [OF h] Let_def)
        then show ?thesis using gb Some below Cons r by simp
      next
        case None
        have low: "unat g' + unat sz \<le> unat s0" if "gap_fits rs sz lo hi g'" for g'
          using that gb None below Cons r by simp
        let ?ge = "min s0 hi"
        have pos: "lo < s0" if "unat lo + unat sz \<le> unat s0"
          using that sz by (simp add: u64_nat)
        have result: "maple_find_gap_reverse mt sz hi lo =
            Some (if unat lo + unat sz \<le> unat ?ge then Some (?ge - sz) else None)"
          using start sz0 None Cons r False le gap_room [OF sz, of "max ?le lo" hi] gap_room [OF sz, of lo ?ge] pos
          by (auto simp: maple_find_gap_reverse_def bounds_holds [OF h] Let_def)
        have "gap_fits rs sz lo hi (?ge - sz)" if "unat lo + unat sz \<le> unat ?ge"
          unfolding Cons r using top [OF that] that
          by (intro gap_fits_above [OF ranges_ok_above [OF ok0]]) (auto simp: u64_nat)
        moreover have "g' \<le> ?ge - sz" "unat lo + unat sz \<le> unat ?ge" if "gap_fits rs sz lo hi g'" for g'
          using low [OF that] that top [of lo ?ge] by (auto simp: gap_fits_def u64_nat)
        ultimately show ?thesis unfolding result by auto
      qed
    qed
  qed
qed


section \<open>Updates\<close>

text \<open>When a range can be inserted, the outcome of the insertion, and the ranges after it.\<close>

definition can_put :: "u64 \<Rightarrow> u64 \<Rightarrow> 'v range list \<Rightarrow> bool" where
  "can_put s e rs \<longleftrightarrow> s < e \<and> list_all (\<lambda>r. \<not> r_overlaps s e r) rs"

definition put_error :: "u64 \<Rightarrow> u64 \<Rightarrow> MapleInsertError" where
  "put_error s e = (if e \<le> s then InvalidRange else Overlap)"

definition try_put :: "u64 \<Rightarrow> u64 \<Rightarrow> 'v \<Rightarrow> 'v range list \<Rightarrow> 'v range list" where
  "try_put s e v rs = (if can_put s e rs then range_put s e v rs else rs)"

lemma insert_eq:
  assumes "holds mt rs"
  shows "\<exists>mt'. maple_insert mt s e v = Some (if can_put s e rs then Inr None else Inl (put_error s e), mt') \<and>
    holds mt' (try_put s e v rs)"
proof (cases "can_put s e rs")
  case True
  then show ?thesis
    using insert_holds [OF assms, of s e v] by (auto simp: can_put_def try_put_def list_all_iff)
next
  case False
  then show ?thesis
    using insert_rejects(1) [OF assms, of e s v] insert_rejects(2) [OF assms, of s e v] assms
    by (cases "s < e") (auto simp: can_put_def try_put_def put_error_def list_all_iff not_less)
qed

lemma range_del_absent: "s \<notin> fst ` set rs \<Longrightarrow> range_del s rs = rs"
  by (auto simp: range_del_def intro!: filter_True)

lemma map_of_start: "ranges_ok rs \<Longrightarrow> map_of rs s = Some (e, v) \<longleftrightarrow> (s, e, v) \<in> set rs"
  using sorted_distinct [OF ranges_ok_starts] by (intro map_of_eq_Some_iff) blast

lemma remove_eq_map_of:
  assumes "holds mt rs" "length rs < btree_bound"
  shows "\<exists>mt'. maple_remove mt s = Some (map_of rs s, mt') \<and> holds mt' (range_del s rs)"
proof (cases "map_of rs s")
  case None
  then have "s \<notin> fst ` set rs" by (simp add: map_of_eq_None_iff)
  then show ?thesis
    using remove_holds(2) [OF assms] None by (simp add: range_del_absent)
next
  case (Some ev)
  then have "(s, fst ev, snd ev) \<in> set rs"
    using map_of_start [OF holds_ranges_ok [OF assms(1)], of s "fst ev" "snd ev"] by simp
  then show ?thesis
    using remove_holds(1) [OF assms, of s "fst ev" "snd ev"] Some by simp
qed

lemma ranges_ok_middle:
  assumes "ranges_ok (L @ (s, e, v) # R)"
  shows "s < e" "\<forall>r \<in> set L. fst r < s \<and> fst (snd r) \<le> s" "\<forall>r \<in> set R. s < fst r \<and> e \<le> fst r"
    "range_del s (L @ (s, e, v) # R) = L @ R"
proof -
  have ok: "ranges_ok L" "s < e" "\<forall>r \<in> set L. fst (snd r) \<le> s" "\<forall>r \<in> set R. e \<le> fst r"
    using assms by (auto simp: ranges_ok_append ranges_ok_Cons)
  show "s < e" by (rule ok(2))
  have "\<forall>r \<in> set L. fst r < fst (snd r)" using ok(1) by (simp add: ranges_ok_def split_def)
  then show L: "\<forall>r \<in> set L. fst r < s \<and> fst (snd r) \<le> s"
    using ok(3) less_le_trans by blast
  show R: "\<forall>r \<in> set R. s < fst r \<and> e \<le> fst r"
    using ok(2,4) less_le_trans by blast
  have "filter (\<lambda>r. fst r \<noteq> s) L = L" "filter (\<lambda>r. fst r \<noteq> s) R = R"
    using L R by (auto intro!: filter_True)
  then show "range_del s (L @ (s, e, v) # R) = L @ R"
    unfolding range_del_def by simp
qed

lemma del_split:
  assumes "ranges_ok rs" "(s, e, v) \<in> set rs"
  obtains L R where "rs = L @ (s, e, v) # R" "range_del s rs = L @ R"
    "\<forall>r \<in> set L. fst r < s \<and> fst (snd r) \<le> s" "\<forall>r \<in> set R. s < fst r \<and> e \<le> fst r"
  using assms ranges_ok_middle by (metis split_list)

lemma range_put_split:
  assumes "\<forall>r \<in> set L. fst r < s" "\<forall>r \<in> set R. s < fst r"
  shows "range_put s e v (L @ R) = L @ (s, e, v) # R"
proof -
  have "filter (\<lambda>r. fst r < s) (L @ R) = L" "filter (\<lambda>r. s < fst r) (L @ R) = R"
    using assms by (auto intro!: filter_True filter_none order.asym)
  then show ?thesis by (simp add: range_put_def)
qed

lemma can_put_split:
  assumes "s < e" "\<forall>r \<in> set L. fst (snd r) \<le> s" "\<forall>r \<in> set R. e \<le> fst r"
  shows "can_put s e (L @ R)"
  using assms by (force simp: can_put_def r_overlaps_def list_all_iff)

lemma can_put_back:
  assumes "ranges_ok rs" "(s, e, v) \<in> set rs"
  shows "can_put s e (range_del s rs)" "range_put s e' v' (range_del s rs) = map (\<lambda>r. if fst r = s then (s, e', v') else r) rs"
    "range_put s e v (range_del s rs) = rs"
proof -
  obtain L R where d: "rs = L @ (s, e, v) # R" "range_del s rs = L @ R"
      "\<forall>r \<in> set L. fst r < s \<and> fst (snd r) \<le> s" "\<forall>r \<in> set R. s < fst r \<and> e \<le> fst r"
    using del_split [OF assms] by metis
  have "s < e" using assms by (auto simp: ranges_ok_def)
  then show "can_put s e (range_del s rs)"
    unfolding d(2) by (rule can_put_split) (use d(3,4) in auto)
  have put: "range_put s e' v' (L @ R) = L @ (s, e', v') # R" for e' v'
    using d(3,4) by (intro range_put_split) auto
  show "range_put s e v (range_del s rs) = rs"
    using put d(1,2) by simp
  have "map (\<lambda>r. if fst r = s then (s, e', v') else r) L = L" "map (\<lambda>r. if fst r = s then (s, e', v') else r) R = R"
    using d(3,4) by (auto intro!: map_idI)
  then show "range_put s e' v' (range_del s rs) = map (\<lambda>r. if fst r = s then (s, e', v') else r) rs"
    using put d(1,2) by simp
qed

lemma replace_eq:
  assumes h: "holds mt rs" "length rs < btree_bound"
  shows "\<exists>mt'. maple_replace mt s e v =
      Some (if can_put s e (range_del s rs) then Inr (map_of rs s) else Inl (put_error s e), mt') \<and>
    holds mt' (if can_put s e (range_del s rs) then range_put s e v (range_del s rs) else rs)"
proof -
  obtain mt1 where mt1: "maple_remove mt s = Some (map_of rs s, mt1)" "holds mt1 (range_del s rs)"
    using remove_eq_map_of [OF h] by blast
  obtain mt2 where mt2: "maple_insert mt1 s e v =
      Some (if can_put s e (range_del s rs) then Inr None else Inl (put_error s e), mt2)"
      "holds mt2 (try_put s e v (range_del s rs))"
    using insert_eq [OF mt1(2)] by blast
  show ?thesis
  proof (cases "can_put s e (range_del s rs)")
    case True
    then show ?thesis using mt1 mt2 by (auto simp: maple_replace_def try_put_def)
  next
    case False
    then have mt2': "holds mt2 (range_del s rs)" using mt2(2) by (simp add: try_put_def)
    show ?thesis
    proof (cases "map_of rs s")
      case None
      then have "range_del s rs = rs" by (intro range_del_absent) (simp add: map_of_eq_None_iff)
      then show ?thesis using mt1(1) mt2(1) mt2' False None by (auto simp: maple_replace_def)
    next
      case (Some ev)
      obtain oe ov where ev: "ev = (oe, ov)" by (cases ev)
      then have mem: "(s, oe, ov) \<in> set rs" using map_of_start [OF holds_ranges_ok [OF h(1)]] Some by simp
      note pb = can_put_back [OF holds_ranges_ok [OF h(1)] mem]
      show ?thesis
        using insert_eq [OF mt2', of s oe ov] mt1(1) mt2(1) False Some ev pb
        by (auto simp: maple_replace_def try_put_def)
    qed
  qed
qed

lemma update_end_eq:
  assumes h: "holds mt rs" "length rs < btree_bound" and mem: "(s, e, v) \<in> set rs"
  shows "\<exists>mt'. maple_update_end mt s e' =
      Some (if can_put s e' (range_del s rs) then Inr () else
            Inl (if list_ex (r_overlaps s e') (range_del s rs) then Overlap else InvalidRange), mt') \<and>
    holds mt' (if can_put s e' (range_del s rs) then range_put s e' v (range_del s rs)
      else if list_ex (r_overlaps s e') (range_del s rs) then rs else range_del s rs)"
proof -
  have some: "map_of rs s = Some (e, v)" using map_of_start [OF holds_ranges_ok [OF h(1)]] mem by simp
  obtain mt1 where mt1: "maple_remove mt s = Some (Some (e, v), mt1)" "holds mt1 (range_del s rs)"
    using remove_eq_map_of [OF h] some by metis
  note pb = can_put_back [OF holds_ranges_ok [OF h(1)] mem]
  show ?thesis
  proof (cases "list_ex (r_overlaps s e') (range_del s rs)")
    case True
    then have "\<not> can_put s e' (range_del s rs)" by (auto simp: can_put_def list_ex_iff list_all_iff)
    then show ?thesis
      using True insert_eq [OF mt1(2), of s e v] mt1 has_overlap_holds [OF mt1(2), of s e'] pb
      by (auto simp: maple_update_end_def try_put_def)
  next
    case False
    then have "can_put s e' (range_del s rs) \<longleftrightarrow> s < e'" by (auto simp: can_put_def list_ex_iff list_all_iff)
    then show ?thesis
      using False insert_eq [OF mt1(2), of s e' v] mt1 has_overlap_holds [OF mt1(2), of s e']
      by (auto simp: maple_update_end_def try_put_def put_error_def)
  qed
qed


lemma entry_get: "holds mt rs \<Longrightarrow> btree_get (mt_tree mt) s = Some (map_option (\<lambda>(e, v). \<lparr>re_start = s, re_end = e, re_value = v\<rparr>) (map_of rs s))"
proof -
  assume h: "holds mt rs"
  have "map_of (map entry rs) s = map_option (\<lambda>(e, v). \<lparr>re_start = s, re_end = e, re_value = v\<rparr>) (map_of rs s)"
    by (induction rs) (auto simp: entry_def)
  then show ?thesis
    using h btree_get_ok [of "mt_tree mt" s] by (simp add: holds_iff)
qed

text \<open>
  Moving a start keeps the end and the value; it fails without a change when the start is unknown,
  the new start is not below the end, or another range is in the way.
\<close>

lemma move_start_eq:
  assumes h: "holds mt rs" "length rs < btree_bound" and mem: "(s, e, v) \<in> set rs"
  shows "\<exists>mt'. maple_move_start mt s s' =
      Some (if can_put s' e (range_del s rs) then Inr (s, e) else Inl (put_error s' e), mt') \<and>
    holds mt' (if can_put s' e (range_del s rs) then range_put s' e v (range_del s rs) else rs)"
proof -
  have ok: "ranges_ok rs" "btree_ok (mt_tree mt)" "bt_list (mt_tree mt) = map entry rs"
    using h(1) by (auto simp: holds_iff)
  have some: "map_of rs s = Some (e, v)" using map_of_start [OF ok(1)] mem by simp
  have get: "btree_get (mt_tree mt) s = Some (Some \<lparr>re_start = s, re_end = e, re_value = v\<rparr>)"
    using entry_get [OF h(1), of s] some by simp
  have lap: "list_ex (\<lambda>(_, en). re_start en \<noteq> s \<and> re_overlaps s' e en) (map entry rs) =
      list_ex (r_overlaps s' e) (range_del s rs)"
    by (auto simp: list_ex_iff range_del_def entry_def re_overlaps_def r_overlaps_def) force+
  show ?thesis
  proof (cases "can_put s' e (range_del s rs)")
    case False
    then show ?thesis
      using h(1) get lap holds_list [OF h(1)]
      by (cases "e \<le> s'") (auto simp: maple_move_start_def can_put_def put_error_def list_ex_iff list_all_iff not_le)
  next
    case True
    then have c: "s' < e" "\<forall>r \<in> set (range_del s rs). \<not> r_overlaps s' e r"
      by (auto simp: can_put_def list_all_iff)
    obtain t where t: "btree_remove (mt_tree mt) s = Some (Some \<lparr>re_start = s, re_end = e, re_value = v\<rparr>, t)"
        "btree_ok t" "bt_list t = map entry (range_del s rs)"
      using btree.remove_eq [OF ok(2), of s] ok(3) entry_del h(2) map_of_entry [OF ok(1) mem] by (metis length_map)
    have "s' \<notin> fst ` set (bt_list t)"
      using start_free [OF ranges_ok_del [OF ok(1), of s] c] t(3) by (simp add: image_image)
    then obtain t' where t': "btree_insert t s' \<lparr>re_start = s', re_end = e, re_value = v\<rparr> = Some (None, t')" "btree_ok t'"
        "bt_list t' = map entry (range_put s' e v (range_del s rs))"
      using btree.insert_new [OF t(2)] t(3) entry_put by metis
    have "maple_move_start mt s s' = Some (Inr (s, e), mt\<lparr>mt_tree := t'\<rparr>)"
      using get lap holds_list [OF h(1)] c t(1) t'(1)
      by (auto simp: maple_move_start_def list_ex_iff not_le)
    then show ?thesis
      using True t'(2,3) ranges_ok_put [OF ranges_ok_del [OF ok(1), of s] c] by (auto simp: holds_iff)
  qed
qed

lemma move_start_unknown:
  "holds mt rs \<Longrightarrow> s \<notin> fst ` set rs \<Longrightarrow> maple_move_start mt s s' = Some (Inl InvalidRange, mt)"
  using map_of_eq_None_iff [of rs s] by (simp add: maple_move_start_def entry_get)

lemma iter_holds: "holds mt rs \<Longrightarrow> maple_iter mt = Some rs"
  by (simp add: maple_iter_def holds_list comp_def)

lemma iter_intersecting_holds: "holds mt rs \<Longrightarrow> maple_iter_intersecting mt s e = Some (filter (r_overlaps s e) rs)"
  by (simp add: maple_iter_intersecting_def holds_list filter_map comp_def)

lemma lower_bound_holds: "holds mt rs \<Longrightarrow> maple_lower_bound mt s = Some (List.find (\<lambda>r. s \<le> fst r) rs)"
proof -
  have "(case entry r of (_, en) \<Rightarrow> s \<le> re_start en) = (s \<le> fst r)" for r :: "'a range"
    by (cases r) (simp add: entry_def)
  then show "holds mt rs \<Longrightarrow> maple_lower_bound mt s = Some (List.find (\<lambda>r. s \<le> fst r) rs)"
    by (simp add: maple_lower_bound_def holds_list find_map_entry [where Q = "\<lambda>r. s \<le> fst r"] option.map_comp
        comp_def option.map_ident)
qed

section \<open>Removing, splitting and merging ranges\<close>

lemma remove_starts_eq:
  "holds mt rs \<Longrightarrow> length rs < btree_bound \<Longrightarrow> set dead \<subseteq> set rs \<Longrightarrow> distinct (map fst dead) \<Longrightarrow>
   \<exists>mt'. maple_remove_starts mt (map fst dead) = Some (dead, mt') \<and>
     holds mt' (filter (\<lambda>r. fst r \<notin> fst ` set dead) rs)"
proof (induction dead arbitrary: mt rs)
  case (Cons r dead)
  obtain s e v where r: "r = (s, e, v)" by (cases r)
  obtain mt1 where mt1: "maple_remove mt s = Some (Some (e, v), mt1)" "holds mt1 (range_del s rs)"
    using remove_holds(1) [OF Cons.prems(1,2), of s e v] Cons.prems(3) r by auto
  have "set dead \<subseteq> set (range_del s rs)" "length (range_del s rs) < btree_bound"
    using Cons.prems r by (auto simp: range_del_def intro: le_less_trans [OF length_filter_le])
  then obtain mt2 where "maple_remove_starts mt1 (map fst dead) = Some (dead, mt2)"
      "holds mt2 (filter (\<lambda>r. fst r \<notin> fst ` set dead) (range_del s rs))"
    using Cons.IH [OF mt1(2)] Cons.prems(4) by auto
  moreover have "filter (\<lambda>r. fst r \<notin> fst ` set dead) (range_del s rs) =
      filter (\<lambda>r. fst r \<notin> fst ` set ((s, e, v) # dead)) rs"
    by (simp add: range_del_def conj_commute)
  ultimately show ?case using mt1(1) r by auto
qed simp

lemma filter_starts:
  assumes "ranges_ok rs"
  shows "filter (\<lambda>r. fst r \<notin> fst ` set (filter P rs)) rs = filter (\<lambda>r. \<not> P r) rs"
proof (rule filter_cong [OF refl])
  fix x assume "x \<in> set rs"
  then have "y = x" if "y \<in> set rs" "fst y = fst x" for y
    using that sorted_distinct [OF ranges_ok_starts [OF assms]] by (simp add: eq_key_imp_eq_value distinct_map inj_on_def)
  then show "fst x \<notin> fst ` set (filter P rs) \<longleftrightarrow> \<not> P x"
    using \<open>x \<in> set rs\<close> by force
qed

lemma insert_overwrite_eq:
  assumes h: "holds mt rs" "length rs < btree_bound" and se: "s < e"
  shows "\<exists>mt'. maple_insert_overwrite mt s e v = Some (Inr (filter (r_overlaps s e) rs), mt') \<and>
    holds mt' (range_put s e v (filter (\<lambda>r. \<not> r_overlaps s e r) rs))"
proof -
  note ok = holds_ranges_ok [OF h(1)]
  let ?dead = "filter (r_overlaps s e) rs" and ?rest = "filter (\<lambda>r. \<not> r_overlaps s e r) rs"
  have "distinct (map fst ?dead)"
    using sorted_distinct [OF ranges_ok_starts [OF ranges_ok_filter [OF ok]]] .
  then obtain mt1 where mt1: "maple_remove_starts mt (map fst ?dead) = Some (?dead, mt1)" "holds mt1 ?rest"
    using remove_starts_eq [OF h, of ?dead] filter_starts [OF ok, of "r_overlaps s e"] by auto
  have "can_put s e ?rest" using se by (simp add: can_put_def list_all_iff)
  then obtain mt2 where "maple_insert mt1 s e v = Some (Inr None, mt2)" "holds mt2 (range_put s e v ?rest)"
    using insert_eq [OF mt1(2), of s e v] by (auto simp: try_put_def)
  moreover have "map fst (filter (\<lambda>(_, en). re_overlaps s e en) (map entry rs)) = map fst ?dead"
    by (simp add: filter_map comp_def)
  ultimately show ?thesis
    using mt1(1) se holds_list [OF h(1)] by (auto simp: maple_insert_overwrite_def not_le)
qed


text \<open>The partial map from addresses to values that a list of ranges stands for.\<close>

definition value_at :: "'v range list \<Rightarrow> u64 \<Rightarrow> 'v option" where
  "value_at rs p = map_option (\<lambda>r. snd (snd r)) (List.find (r_holds p) rs)"

lemma value_at_append:
  "value_at (xs @ ys) p = (case value_at xs p of Some v \<Rightarrow> Some v | None \<Rightarrow> value_at ys p)"
  by (induction xs) (auto simp: value_at_def)

lemma value_at_Cons: "value_at ((s, e, v) # rs) p = (if s \<le> p \<and> p < e then Some v else value_at rs p)"
  by (auto simp: value_at_def r_holds_def)

lemma value_at_Nil [simp]: "value_at [] p = None"
  by (simp add: value_at_def)

lemma split_at_eq:
  assumes h: "holds mt rs" "length rs < btree_bound"
  shows "\<exists>mt' rs'. maple_split_at mt p = Some (list_ex (\<lambda>(s, e, v). s < p \<and> p < e) rs, mt') \<and> holds mt' rs' \<and>
    value_at rs' = value_at rs \<and> (\<forall>r \<in> set rs'. \<not> (fst r < p \<and> p < fst (snd r)))"
proof -
  note ok = holds_ranges_ok [OF h(1)]
  let ?P = "\<lambda>r :: 'a range. fst r < p \<and> p < fst (snd r)"
  have P: "(case entry r of (_, en) \<Rightarrow> re_start en < p \<and> p < re_end en) = ?P r" for r :: "'a range"
    by (cases r) (simp add: entry_def)
  note fm = find_map_entry [where P = "\<lambda>(_, en). re_start en < p \<and> p < re_end en" and Q = ?P, OF P]
  have ex: "list_ex (\<lambda>(s, e, v). s < p \<and> p < e) rs \<longleftrightarrow> List.find ?P rs \<noteq> None"
    by (auto simp: list_ex_iff find_None_iff)
  show ?thesis
  proof (cases "List.find ?P rs")
    case None
    then have "maple_split_at mt p = Some (False, mt)"
      by (simp add: maple_split_at_def holds_list [OF h(1)] fm)
    moreover have "\<forall>r \<in> set rs. \<not> ?P r" using None unfolding find_None_iff by blast
    ultimately show ?thesis
      using None ex h(1) by (intro exI [of _ mt] exI [of _ rs]) simp
  next
    case (Some r)
    obtain s e v where r: "r = (s, e, v)" by (cases r)
    have mem: "(s, e, v) \<in> set rs" "s < p" "p < e"
      using Some r unfolding find_Some_iff by (metis fst_conv nth_mem snd_conv)+
    obtain L R where d: "rs = L @ (s, e, v) # R" "range_del s rs = L @ R"
        "\<forall>r \<in> set L. fst r < s \<and> fst (snd r) \<le> s" "\<forall>r \<in> set R. s < fst r \<and> e \<le> fst r"
      using del_split [OF ok mem(1)] by metis
    obtain mt1 where mt1: "maple_remove mt s = Some (Some (e, v), mt1)" "holds mt1 (L @ R)"
      using remove_holds(1) [OF h mem(1)] d(2) by auto
    have around: "\<forall>r \<in> set (L @ [(s, p, v)]). fst r < p \<and> fst (snd r) \<le> p" "\<forall>r \<in> set R. p < fst r \<and> p \<le> fst r"
      using d(3,4) mem(2,3) by fastforce+
    have put: "range_put s p v (L @ R) = L @ (s, p, v) # R"
      "range_put p e v (L @ (s, p, v) # R) = L @ (s, p, v) # (p, e, v) # R"
      using range_put_split [of L s R p v] range_put_split [of "L @ [(s, p, v)]" p R e v] d(3,4) around by auto
    have free: "can_put s p (L @ R)" "can_put p e (L @ (s, p, v) # R)"
      using can_put_split [of s p L R] can_put_split [of p e "L @ [(s, p, v)]" R] d(3,4) around mem(2,3) by auto
    obtain mt2 where mt2: "maple_insert mt1 s p v = Some (Inr None, mt2)" "holds mt2 (L @ (s, p, v) # R)"
      using insert_eq [OF mt1(2), of s p v] free put by (auto simp: try_put_def)
    obtain mt3 where mt3: "maple_insert mt2 p e v = Some (Inr None, mt3)" "holds mt3 (L @ (s, p, v) # (p, e, v) # R)"
      using insert_eq [OF mt2(2), of p e v] free put by (auto simp: try_put_def)
    have "maple_split_at mt p = Some (True, mt3)"
      using Some r mt1(1) mt2(1) mt3(1) by (simp add: maple_split_at_def holds_list [OF h(1)] fm entry_eq)
    moreover have "value_at (L @ (s, p, v) # (p, e, v) # R) = value_at rs"
      using mem by (auto simp: fun_eq_iff d(1) value_at_append value_at_Cons split: option.splits)
    moreover have "\<forall>r \<in> set (L @ (s, p, v) # (p, e, v) # R). \<not> ?P r"
      using d(3,4) mem by (auto dest!: bspec)
    ultimately show ?thesis
      using mt3(2) ex Some by (intro exI [of _ mt3] exI [of _ "L @ (s, p, v) # (p, e, v) # R"]) simp
  qed
qed


lemma find_mergeable_Some:
  "find_mergeable rs = Some (a, b) \<Longrightarrow>
   \<exists>L R s1 e1 e2 v. rs = L @ a # b # R \<and> a = (s1, e1, v) \<and> b = (e1, e2, v)"
proof (induction rs rule: find_mergeable.induct)
  case (1 s1 e1 v1 s2 e2 v2 rs)
  show ?case
  proof (cases "e1 = s2 \<and> v1 = v2")
    case True
    then show ?thesis using 1 by (intro exI [of _ "[]"] exI [of _ rs]) auto
  next
    case False
    then obtain L R s e e' v where "(s2, e2, v2) # rs = L @ a # b # R" "a = (s, e, v)" "b = (e, e', v)"
      using 1 by auto
    then show ?thesis by (intro exI [of _ "(s1, e1, v1) # L"] exI [of _ R]) auto
  qed
qed auto

lemma merge_loop_eq:
  "holds mt rs \<Longrightarrow> length rs < btree_bound \<Longrightarrow>
   \<exists>mt' rs' k. maple_merge_loop mt c = Some (c + k, mt') \<and> holds mt' rs' \<and> value_at rs' = value_at rs \<and>
     find_mergeable rs' = None \<and> length rs = length rs' + k"
proof (induction "length rs" arbitrary: mt rs c rule: less_induct)
  case less
  note h = less.prems
  note ok = holds_ranges_ok [OF h(1)]
  have ranges: "sort_key fst (map (\<lambda>(_, en). re_triple en) (map entry rs)) = rs"
    using ranges_ok_sort [OF ok] by (simp add: comp_def)
  show ?case
  proof (cases "find_mergeable rs")
    case None
    have "maple_merge_loop mt c = Some (c, mt)"
      by (subst maple_merge_loop.simps) (use None ranges in \<open>simp add: holds_list [OF h(1)]\<close>)
    then show ?thesis using None h(1) by auto
  next
    case (Some ab)
    obtain a b where ab: "ab = (a, b)" by (cases ab)
    then obtain L R s1 e1 e2 v where d: "rs = L @ (s1, e1, v) # (e1, e2, v) # R" "ab = ((s1, e1, v), (e1, e2, v))"
      using find_mergeable_Some [of rs a b] Some by blast
    note m1 = ranges_ok_middle [OF ok [unfolded d(1)]]
    have "ranges_ok (L @ (e1, e2, v) # R)"
      using ranges_ok_del [OF ok, of s1] m1(4) d(1) by simp
    note m2 = ranges_ok_middle [OF this]
    have o: "s1 < e1" "e1 < e2" "\<forall>r \<in> set L. fst r < s1 \<and> fst (snd r) \<le> s1" "\<forall>r \<in> set R. e1 < fst r \<and> e2 \<le> fst r"
      using m1 m2 by auto
    have del: "range_del s1 rs = L @ (e1, e2, v) # R" "range_del e1 (L @ (e1, e2, v) # R) = L @ R"
      using m1(4) m2(4) d(1) by simp_all
    obtain mt1 where mt1: "maple_remove mt s1 = Some (Some (e1, v), mt1)" "holds mt1 (L @ (e1, e2, v) # R)"
      using remove_holds(1) [OF h, of s1 e1 v] d(1) del(1) by auto
    obtain mt2 where mt2: "maple_remove mt1 e1 = Some (Some (e2, v), mt2)" "holds mt2 (L @ R)"
      using remove_holds(1) [OF mt1(2), of e1 e2 v] h(2) d(1) del(2) by auto
    have "can_put s1 e2 (L @ R)" "range_put s1 e2 v (L @ R) = L @ (s1, e2, v) # R"
      using o by (auto intro!: can_put_split range_put_split)
    then obtain mt3 where mt3: "maple_insert mt2 s1 e2 v = Some (Inr None, mt3)" "holds mt3 (L @ (s1, e2, v) # R)"
      using insert_eq [OF mt2(2), of s1 e2 v] by (auto simp: try_put_def)
    obtain mt' rs' k where r: "maple_merge_loop mt3 (c + 1) = Some (c + 1 + k, mt')" "holds mt' rs'"
        "value_at rs' = value_at (L @ (s1, e2, v) # R)" "find_mergeable rs' = None"
        "length (L @ (s1, e2, v) # R) = length rs' + k"
      using less.hyps [OF _ mt3(2), of "c + 1"] h(2) d(1) by auto
    have "value_at (L @ (s1, e2, v) # R) = value_at rs"
      using o(1,2) by (auto simp: fun_eq_iff d(1) value_at_append value_at_Cons split: option.splits)
    moreover have "maple_merge_loop mt c = Some (c + (1 + k), mt')"
      by (subst maple_merge_loop.simps)
        (use Some d(2) ranges mt1(1) mt2(1) mt3(1) r(1) in \<open>simp add: holds_list [OF h(1)]\<close>)
    ultimately show ?thesis
      using r d(1) by (intro exI [of _ mt'] exI [of _ rs'] exI [of _ "1 + k"]) auto
  qed
qed

lemma insert_all_eq:
  "holds mt rs \<Longrightarrow> ranges_ok (rs @ new) \<Longrightarrow> \<exists>mt'. maple_insert_all mt new = Some mt' \<and> holds mt' (rs @ new)"
proof (induction new arbitrary: mt rs)
  case (Cons r new)
  obtain s e v where r: "r = (s, e, v)" by (cases r)
  have "s < e" "\<forall>r \<in> set rs. fst (snd r) \<le> s" "\<forall>r \<in> set rs. fst r < s"
    using ranges_ok_middle(1,2) [of rs s e v new] Cons.prems(2) r by auto
  then have "can_put s e rs" "range_put s e v rs = rs @ [(s, e, v)]"
    using can_put_split [of s e rs "[]"] range_put_split [of rs s "[]" e v] by auto
  then obtain mt1 where "maple_insert mt s e v = Some (Inr None, mt1)" "holds mt1 (rs @ [(s, e, v)])"
    using insert_eq [OF Cons.prems(1), of s e v] by (auto simp: try_put_def)
  then show ?case
    using Cons.IH [of mt1 "rs @ [(s, e, v)]"] Cons.prems(2) r by auto
qed simp

lemma clone_eq: "holds mt rs \<Longrightarrow> \<exists>mt'. maple_clone mt = Some mt' \<and> holds mt' rs"
  using insert_all_eq [OF maple_new_holds, of rs] holds_ranges_ok by (auto simp: maple_clone_def iter_holds)

end
