(* ===== verification/Maple_Map.thy ===== *)
theory Maple_Map
  imports Maple_Proofs
begin

text \<open>
  The contract of the maple tree for its clients, as the locale \<open>range_map\<close>, its interpretation on
  the tree, and the properties of the tree. The clients are the address spaces of processes and the
  kernel's virtual allocator.
\<close>

section \<open>The range map contract\<close>

locale range_map =
  fixes rep :: "'t \<Rightarrow> 'v range list \<Rightarrow> bool"
    and bound :: nat
    and insert_range :: "'t \<Rightarrow> u64 \<Rightarrow> u64 \<Rightarrow> 'v \<Rightarrow> ((MapleInsertError + 'v option) \<times> 't) option"
    and remove_range :: "'t \<Rightarrow> u64 \<Rightarrow> ((u64 \<times> 'v) option \<times> 't) option"
    and replace_range :: "'t \<Rightarrow> u64 \<Rightarrow> u64 \<Rightarrow> 'v \<Rightarrow> ((MapleInsertError + (u64 \<times> 'v) option) \<times> 't) option"
    and find_range :: "'t \<Rightarrow> u64 \<Rightarrow> 'v range option option"
    and gap_up :: "'t \<Rightarrow> u64 \<Rightarrow> u64 \<Rightarrow> u64 \<Rightarrow> u64 option option"
  assumes rep_ok: "rep t rs \<Longrightarrow> ranges_ok rs"
    and insert_rep: "rep t rs \<Longrightarrow> \<exists>t'. insert_range t s e v =
        Some (if can_put s e rs then Inr None else Inl (put_error s e), t') \<and> rep t' (try_put s e v rs)"
    and remove_rep: "rep t rs \<Longrightarrow> length rs < bound \<Longrightarrow>
        \<exists>t'. remove_range t s = Some (map_of rs s, t') \<and> rep t' (range_del s rs)"
    and replace_rep: "rep t rs \<Longrightarrow> length rs < bound \<Longrightarrow> \<exists>t'. replace_range t s e v =
        Some (if can_put s e (range_del s rs) then Inr (map_of rs s) else Inl (put_error s e), t') \<and>
        rep t' (if can_put s e (range_del s rs) then range_put s e v (range_del s rs) else rs)"
    and find_rep: "rep t rs \<Longrightarrow> find_range t p = Some (List.find (r_holds p) rs)"
    and gap_rep: "rep t rs \<Longrightarrow> 0 < sz \<Longrightarrow> unat lo + unat sz \<le> unat hi \<Longrightarrow>
        (case gap_up t sz lo hi of
           Some (Some g) \<Rightarrow> gap_fits rs sz lo hi g \<and> (\<forall>g'. gap_fits rs sz lo hi g' \<longrightarrow> g \<le> g')
         | Some None \<Rightarrow> \<forall>g'. \<not> gap_fits rs sz lo hi g'
         | None \<Rightarrow> False)"
begin

text \<open>A gap that was found can be inserted, and the new range is found at all of its addresses.\<close>

lemma gap_can_put:
  assumes "gap_fits rs sz lo hi g" "0 < sz"
  shows "can_put g (g + sz) rs" "unat (g + sz) = unat g + unat sz"
proof -
  have "unat g + unat sz < 2 ^ 64"
    using assms(1) by (auto simp: gap_fits_def intro: le_less_trans)
  then show nat: "unat (g + sz) = unat g + unat sz" by (rule unat_add_no_wrap)
  then show "can_put g (g + sz) rs"
    using assms by (auto simp: gap_fits_def can_put_def r_overlaps_def list_all_iff u64_nat split: prod.splits)
qed

lemma insert_gap:
  assumes "rep t rs" "gap_up t sz lo hi = Some (Some g)" "0 < sz" "unat lo + unat sz \<le> unat hi"
  shows "\<exists>t'. insert_range t g (g + sz) v = Some (Inr None, t') \<and> rep t' (range_put g (g + sz) v rs)"
proof -
  have "gap_fits rs sz lo hi g" using gap_rep [OF assms(1,3,4)] assms(2) by simp
  then have "can_put g (g + sz) rs" by (rule gap_can_put(1) [OF _ assms(3)])
  then show ?thesis
    using insert_rep [OF assms(1), of g "g + sz" v] by (auto simp: try_put_def)
qed

lemma value_at_put:
  assumes "ranges_ok rs" "can_put s e rs"
  shows "value_at (range_put s e v rs) p = (if s \<le> p \<and> p < e then Some v else value_at rs p)"
proof -
  have no: "s \<notin> fst ` set rs"
    using start_free [OF assms(1)] assms(2) by (auto simp: can_put_def list_all_iff)
  let ?L = "filter (\<lambda>r. fst r < s) rs" and ?R = "filter (\<lambda>r. s < fst r) rs"
  have "?L @ ?R = rs"
    using filter_split_sorted [OF ranges_ok_starts [OF assms(1)] no] .
  moreover have "value_at ?L p = None" if "s \<le> p" "p < e"
  proof -
    have "\<not> r_holds p r" if "r \<in> set ?L" for r
      using that assms(2) \<open>s \<le> p\<close> \<open>p < e\<close> by (auto simp: can_put_def list_all_iff r_overlaps_def r_holds_def dest!: bspec)
    then show ?thesis by (auto simp: value_at_def find_None_iff)
  qed
  ultimately show ?thesis
    using value_at_append [of ?L ?R p] by (auto simp: range_put_def value_at_append value_at_Cons split: option.splits)
qed

lemma find_inserted:
  assumes "rep t rs" "can_put s e rs" "insert_range t s e v = Some (r, t')" "s \<le> p" "p < e"
  shows "find_range t' p = Some (Some (s, e, v))"
proof -
  have t': "rep t' (range_put s e v rs)"
    using insert_rep [OF assms(1), of s e v] assms(2,3) by (auto simp: try_put_def)
  then show ?thesis
    using find_rep [OF t'] find_unique [OF rep_ok [OF t'], of "(s, e, v)" p] assms(4,5)
    by (simp add: range_put_def r_holds_def)
qed

end

interpretation mt: range_map holds btree_bound maple_insert maple_remove maple_replace maple_find maple_find_gap
proof
  fix t :: "'v MapleTree" and rs :: "'v range list" and s e p sz lo hi :: u64 and v :: 'v
  assume h: "holds t rs"
  show "ranges_ok rs" by (rule holds_ranges_ok [OF h])
  show "\<exists>t'. maple_insert t s e v = Some (if can_put s e rs then Inr None else Inl (put_error s e), t') \<and>
      holds t' (try_put s e v rs)"
    by (rule insert_eq [OF h])
  show "maple_find t p = Some (List.find (r_holds p) rs)" by (rule find_holds [OF h])
  show "length rs < btree_bound \<Longrightarrow> \<exists>t'. maple_remove t s = Some (map_of rs s, t') \<and> holds t' (range_del s rs)"
    by (rule remove_eq_map_of [OF h])
  show "length rs < btree_bound \<Longrightarrow> \<exists>t'. maple_replace t s e v =
      Some (if can_put s e (range_del s rs) then Inr (map_of rs s) else Inl (put_error s e), t') \<and>
      holds t' (if can_put s e (range_del s rs) then range_put s e v (range_del s rs) else rs)"
    by (rule replace_eq [OF h])
  show "0 < sz \<Longrightarrow> unat lo + unat sz \<le> unat hi \<Longrightarrow>
      (case maple_find_gap t sz lo hi of
         Some (Some g) \<Rightarrow> gap_fits rs sz lo hi g \<and> (\<forall>g'. gap_fits rs sz lo hi g' \<longrightarrow> g \<le> g')
       | Some None \<Rightarrow> \<forall>g'. \<not> gap_fits rs sz lo hi g'
       | None \<Rightarrow> False)"
    by (rule find_gap_spec [OF h])
qed

section \<open>Properties\<close>

text \<open>
  C12: inserting into a well-formed maple tree never panics. It fails with \<^verbatim>\<open>InvalidRange\<close> on an
  empty range and with \<^verbatim>\<open>Overlap\<close> on one that meets a stored range, both without a change of the
  stored ranges; otherwise the tree stays well formed, the new range is stored, and the map from
  addresses to values changes on exactly the addresses of the range.
\<close>

theorem maple_insert_cases:
  assumes "maple_ok mt"
  shows "\<exists>mt'. maple_ok mt' \<and>
    (if e \<le> s then maple_insert mt s e v = Some (Inl InvalidRange, mt') \<and> maple_ranges mt' = maple_ranges mt
     else if list_ex (r_overlaps s e) (maple_ranges mt)
       then maple_insert mt s e v = Some (Inl Overlap, mt') \<and> maple_ranges mt' = maple_ranges mt
     else maple_insert mt s e v = Some (Inr None, mt') \<and> maple_ranges mt' = range_put s e v (maple_ranges mt) \<and>
       (\<forall>p. value_at (maple_ranges mt') p = (if s \<le> p \<and> p < e then Some v else value_at (maple_ranges mt) p)))"
proof -
  let ?rs = "maple_ranges mt"
  have h: "holds mt ?rs" using assms by (simp add: holds_def)
  obtain mt' where mt': "maple_insert mt s e v = Some (if can_put s e ?rs then Inr None else Inl (put_error s e), mt')"
      "maple_ok mt'" "maple_ranges mt' = try_put s e v ?rs"
    using mt.insert_rep [OF h, of s e v] by (auto simp: holds_def)
  have "can_put s e ?rs \<longleftrightarrow> \<not> e \<le> s \<and> \<not> list_ex (r_overlaps s e) ?rs"
    by (auto simp: can_put_def list_all_iff list_ex_iff)
  then show ?thesis
    using mt' mt.value_at_put [OF mt.rep_ok [OF h], of s e v]
    by (intro exI [of _ mt']) (auto simp: try_put_def put_error_def)
qed

lemma maple_insert_cases_witness:
  "\<exists>mt'. maple_insert (maple_new :: nat MapleTree) 4096 8192 7 = Some (Inr None, mt') \<and>
     value_at (maple_ranges mt') 5000 = Some 7"
proof -
  have "holds (maple_new :: nat MapleTree) []" by (rule maple_new_holds)
  then show ?thesis
    using maple_insert_cases [of "maple_new :: nat MapleTree" 8192 4096 7] by (auto simp: holds_def)
qed

text \<open>
  C21: when a region of the wanted size fits between the limits, the upward gap search of the maple
  tree returns the lowest address at which it fits without meeting a stored range, or nothing when
  there is no such address.
\<close>

theorem maple_find_gap_lowest:
  assumes "maple_ok mt" "0 < sz" "unat lo + unat sz \<le> unat hi"
  shows "case maple_find_gap mt sz lo hi of
     Some (Some g) \<Rightarrow> gap_fits (maple_ranges mt) sz lo hi g \<and> (\<forall>g'. gap_fits (maple_ranges mt) sz lo hi g' \<longrightarrow> g \<le> g')
   | Some None \<Rightarrow> \<forall>g'. \<not> gap_fits (maple_ranges mt) sz lo hi g'
   | None \<Rightarrow> False"
  using mt.gap_rep [of mt "maple_ranges mt"] assms by (simp add: holds_def)

definition one_range :: "unit MapleTree" where
  "one_range = \<lparr>mt_tree = \<lparr>root = Node True [4096] [\<lparr>re_start = 4096, re_end = 8192, re_value = ()\<rparr>] [], bt_len = 1\<rparr>\<rparr>"

lemma one_range_holds: "holds one_range [(4096, 8192, ())]"
  by (auto simp: holds_iff one_range_def btree_ok_def root_fill_def bt_list_def entry_def ranges_ok_def
      intro!: exI [of _ 0])

lemma maple_find_gap_lowest_witness:
  "maple_find_gap one_range 4096 4096 65536 = Some (Some 8192) \<and> gap_fits (maple_ranges one_range) 4096 4096 65536 8192"
proof -
  have ok: "maple_ok one_range" "maple_ranges one_range = [(4096, 8192, ())]"
    using one_range_holds by (auto simp: holds_def)
  have "maple_find_gap one_range 4096 4096 65536 = Some (Some 8192)"
    by (simp add: maple_find_gap_def bounds_holds [OF one_range_holds] Let_def)
  then show ?thesis
    using maple_find_gap_lowest [OF ok(1), of 4096 4096 65536] by simp
qed

text \<open>
  C22: the downward gap search returns the highest address at which a region of the wanted size
  fits between the limits without meeting a stored range, or nothing when there is none.
\<close>

theorem maple_find_gap_highest:
  assumes "maple_ok mt" "0 < sz"
  shows "case maple_find_gap_reverse mt sz hi lo of
     Some (Some g) \<Rightarrow> gap_fits (maple_ranges mt) sz lo hi g \<and> (\<forall>g'. gap_fits (maple_ranges mt) sz lo hi g' \<longrightarrow> g' \<le> g)
   | Some None \<Rightarrow> \<forall>g'. \<not> gap_fits (maple_ranges mt) sz lo hi g'
   | None \<Rightarrow> False"
  using find_gap_reverse_spec [of mt "maple_ranges mt"] assms by (simp add: holds_def)

lemma maple_find_gap_highest_witness:
  "maple_find_gap_reverse one_range 4096 12288 0 = Some (Some 8192) \<and> gap_fits (maple_ranges one_range) 4096 0 12288 8192"
proof -
  have ok: "maple_ok one_range" using one_range_holds by (simp add: holds_def)
  have "maple_find_gap_reverse one_range 4096 12288 0 = Some (Some 8192)"
    by (simp add: maple_find_gap_reverse_def bounds_holds [OF one_range_holds] Let_def)
  then show ?thesis
    using maple_find_gap_highest [OF ok, of 4096 0 12288] by simp
qed





section \<open>Executions that leave the contract\<close>

text \<open>
  When the size does not fit below the upper limit, the first branch of the gap search compares with
  the first stored range instead of the limit and returns a region that ends above the limit.
\<close>

lemma find_gap_beyond_limit: "maple_find_gap one_range 4096 0 1024 = Some (Some 0)"
  by (simp add: maple_find_gap_def bounds_holds [OF one_range_holds])

text \<open>An update of the end to a value at or below the start reports an error and drops the range.\<close>

lemma update_end_drops_range:
  "\<exists>mt'. maple_update_end one_range 4096 4096 = Some (Inl InvalidRange, mt') \<and> maple_ranges mt' = []"
  using update_end_eq [OF one_range_holds, of 4096 8192 "()" 4096] by (auto simp: range_del_def can_put_def holds_def)

end
