(* ===== verification/Kernel_Error.thy ===== *)
theory Kernel_Error
  imports Prelude
begin

text \<open>
  The error type of the kernel (\<^verbatim>\<open>error.rs\<close>) with its discriminants and descriptions. Operations
  that return \<^verbatim>\<open>KernelResult\<close> are modelled with results of type \<open>KernelError + 'a\<close>.
\<close>

datatype KernelError =
    Success
  | Failed | InvalidParam | NoMemory | Busy | Timeout | NotFound | AlreadyExists | NotSupported | AccessDenied
  | Io | DeviceNotReady | DeviceError | BufferTooSmall
  | InvalidAddress | NotMapped
  | Interrupted | TryAgain

type_synonym 'a KernelResult = "KernelError + 'a"

fun kernel_error_code :: "KernelError \<Rightarrow> int" where
  "kernel_error_code Success = 0"
| "kernel_error_code Failed = - 1"
| "kernel_error_code InvalidParam = - 2"
| "kernel_error_code NoMemory = - 3"
| "kernel_error_code Busy = - 4"
| "kernel_error_code Timeout = - 5"
| "kernel_error_code NotFound = - 6"
| "kernel_error_code AlreadyExists = - 7"
| "kernel_error_code NotSupported = - 8"
| "kernel_error_code AccessDenied = - 9"
| "kernel_error_code Io = - 10"
| "kernel_error_code DeviceNotReady = - 11"
| "kernel_error_code DeviceError = - 12"
| "kernel_error_code BufferTooSmall = - 13"
| "kernel_error_code InvalidAddress = - 20"
| "kernel_error_code NotMapped = - 21"
| "kernel_error_code Interrupted = - 30"
| "kernel_error_code TryAgain = - 31"

fun kernel_error_as_str :: "KernelError \<Rightarrow> string" where
  "kernel_error_as_str Success = ''Success''"
| "kernel_error_as_str Failed = ''Generic failure''"
| "kernel_error_as_str InvalidParam = ''Invalid parameter''"
| "kernel_error_as_str NoMemory = ''Out of memory''"
| "kernel_error_as_str Busy = ''Resource busy''"
| "kernel_error_as_str Timeout = ''Operation timed out''"
| "kernel_error_as_str NotFound = ''Not found''"
| "kernel_error_as_str AlreadyExists = ''Already exists''"
| "kernel_error_as_str NotSupported = ''Not supported''"
| "kernel_error_as_str AccessDenied = ''Access denied''"
| "kernel_error_as_str Io = ''I/O error''"
| "kernel_error_as_str DeviceNotReady = ''Device not ready''"
| "kernel_error_as_str DeviceError = ''Device error''"
| "kernel_error_as_str BufferTooSmall = ''Buffer too small''"
| "kernel_error_as_str InvalidAddress = ''Invalid address''"
| "kernel_error_as_str NotMapped = ''Address not mapped''"
| "kernel_error_as_str Interrupted = ''Interrupted''"
| "kernel_error_as_str TryAgain = ''Try again''"

text \<open>The discriminants identify the errors, and only \<^verbatim>\<open>Success\<close> is not negative.\<close>

lemma kernel_error_code_inject: "kernel_error_code a = kernel_error_code b \<longleftrightarrow> a = b"
  by (cases a; cases b) simp_all

lemma kernel_error_code_negative: "kernel_error_code e < 0 \<longleftrightarrow> e \<noteq> Success"
  by (cases e) simp_all

end
