(* ===== verification/Memblock.thy ===== *)
theory Memblock
  imports Kernel_Error
begin

text \<open>
  The boot-time allocator (\<^verbatim>\<open>mm/phys/memblock.rs\<close>): two sorted tables of physical regions, the
  memory of the machine and the reserved part of it. A table is a fixed array of 128 regions of
  which the first \<open>cnt\<close> are in use; the loops that shift the array are modelled element by element,
  with an access outside the array as a panic. The global instance is passed as an explicit state.
\<close>

unbundle bit_operations_syntax

section \<open>Types\<close>

definition MEMBLOCK_REGIONS_MAX :: nat where
  "MEMBLOCK_REGIONS_MAX = 128"

definition MEMBLOCK_RESERVED_MAX :: nat where
  "MEMBLOCK_RESERVED_MAX = 128"

datatype MemblockFlags = MB_NONE | HOTPLUG | MIRROR | NOMAP | DRIVER_MANAGED

record MemblockRegion =
  mr_base :: u64
  mr_size :: u64
  mr_flags :: MemblockFlags

definition region_empty :: MemblockRegion where
  "region_empty = \<lparr>mr_base = 0, mr_size = 0, mr_flags = MB_NONE\<rparr>"

definition region_is_empty :: "MemblockRegion \<Rightarrow> bool" where
  "region_is_empty r = (mr_size r = 0)"

definition region_end :: "MemblockRegion \<Rightarrow> u64" where
  "region_end r = mr_base r + mr_size r"

definition region_overlaps :: "MemblockRegion \<Rightarrow> MemblockRegion \<Rightarrow> bool" where
  "region_overlaps r r' = (mr_base r < region_end r' \<and> mr_base r' < region_end r)"

definition region_adjacent :: "MemblockRegion \<Rightarrow> MemblockRegion \<Rightarrow> bool" where
  "region_adjacent r r' = (region_end r = mr_base r' \<or> region_end r' = mr_base r)"

record MemblockType =
  mbt_cnt :: nat
  mbt_max :: nat
  mbt_total :: u64
  mbt_regions :: "MemblockRegion list"
  mbt_name :: string

definition memblock_type_new :: "string \<Rightarrow> nat \<Rightarrow> MemblockType" where
  "memblock_type_new name mx =
     \<lparr>mbt_cnt = 0, mbt_max = mx, mbt_total = 0,
      mbt_regions = replicate MEMBLOCK_REGIONS_MAX region_empty, mbt_name = name\<rparr>"

text \<open>The static state, with the atomic flag \<open>MEMBLOCK_INITIALIZED\<close> as its last field.\<close>

record Memblock =
  mb_bottom_up :: bool
  mb_limit :: u64
  mb_memory :: MemblockType
  mb_reserved :: MemblockType
  mb_initialized :: bool

definition memblock_state_new :: Memblock where
  "memblock_state_new =
     \<lparr>mb_bottom_up = False, mb_limit = - 1,
      mb_memory = memblock_type_new ''memory'' MEMBLOCK_REGIONS_MAX,
      mb_reserved = memblock_type_new ''reserved'' MEMBLOCK_RESERVED_MAX,
      mb_initialized = False\<rparr>"

section \<open>Alignment\<close>

definition mb_align_up :: "u64 \<Rightarrow> u64 \<Rightarrow> u64" where
  "mb_align_up addr align = (addr + align - 1) AND NOT (align - 1)"

definition mb_align_down :: "u64 \<Rightarrow> u64 \<Rightarrow> u64" where
  "mb_align_down addr align = addr AND NOT (align - 1)"

section \<open>Adding and removing regions\<close>

text \<open>\<open>for i in (lo..hi).rev() { regions[i + 1] = regions[i]; }\<close>\<close>

fun shift_right :: "MemblockRegion list \<Rightarrow> nat \<Rightarrow> nat \<Rightarrow> MemblockRegion list option" where
  "shift_right rs lo hi =
     (if hi \<le> lo then Some rs
      else do {
        x \<leftarrow> vec_get rs (hi - 1);
        rs' \<leftarrow> vec_set rs hi x;
        shift_right rs' lo (hi - 1)
      })"

declare shift_right.simps [simp del]

text \<open>\<open>for j in lo..hi { regions[j] = regions[j + 1]; }\<close>\<close>

function shift_left :: "MemblockRegion list \<Rightarrow> nat \<Rightarrow> nat \<Rightarrow> MemblockRegion list option" where
  "shift_left rs lo hi =
     (if hi \<le> lo then Some rs
      else do {
        x \<leftarrow> vec_get rs (lo + 1);
        rs' \<leftarrow> vec_set rs lo x;
        shift_left rs' (lo + 1) hi
      })"
  by pat_completeness auto
termination
  by (relation "measure (\<lambda>(rs, lo, hi). hi - lo)") auto

declare shift_left.simps [simp del]

function memblock_merge_adjacent :: "MemblockType \<Rightarrow> nat \<Rightarrow> MemblockType option" where
  "memblock_merge_adjacent t i =
     (if i + 1 < mbt_cnt t then do {
        r \<leftarrow> vec_get (mbt_regions t) i;
        next_r \<leftarrow> vec_get (mbt_regions t) (i + 1);
        (if mr_base next_r \<le> region_end r then do {
           let new_end = max (region_end r) (region_end next_r);
           let old_size = mr_size r + mr_size next_r;
           let r' = r\<lparr>mr_size := new_end - mr_base r\<rparr>;
           rs \<leftarrow> vec_set (mbt_regions t) i r';
           rs' \<leftarrow> shift_left rs (i + 1) (mbt_cnt t - 1);
           memblock_merge_adjacent
             (t\<lparr>mbt_regions := rs', mbt_cnt := mbt_cnt t - 1, mbt_total := mbt_total t - old_size + mr_size r'\<rparr>) i
         } else memblock_merge_adjacent t (i + 1))
      } else Some t)"
  by pat_completeness auto
termination
  by (relation "measure (\<lambda>(t, i). mbt_cnt t - i)") auto

declare memblock_merge_adjacent.simps [simp del]

text \<open>The test \<^verbatim>\<open>region.base <= end && base <= region.end()\<close>.\<close>

definition region_touches :: "u64 \<Rightarrow> u64 \<Rightarrow> MemblockRegion \<Rightarrow> bool" where
  "region_touches base fin r = (mr_base r \<le> fin \<and> base \<le> region_end r)"

function memblock_merge_loop ::
    "MemblockType \<Rightarrow> u64 \<Rightarrow> u64 \<Rightarrow> nat \<Rightarrow> (unit KernelResult \<times> MemblockType) option" where
  "memblock_merge_loop t base fin i =
     (if i < mbt_cnt t then do {
        r \<leftarrow> vec_get (mbt_regions t) i;
        (if region_touches base fin r then do {
           let new_base = min (mr_base r) base;
           let new_end = max (region_end r) fin;
           let r' = r\<lparr>mr_base := new_base, mr_size := new_end - new_base\<rparr>;
           rs \<leftarrow> vec_set (mbt_regions t) i r';
           t' \<leftarrow> memblock_merge_adjacent
             (t\<lparr>mbt_regions := rs, mbt_total := mbt_total t - mr_size r + mr_size r'\<rparr>) i;
           Some (Inr (), t')
         } else memblock_merge_loop t base fin (i + 1))
      } else Some (Inl Failed, t))"
  by pat_completeness auto
termination
  by (relation "measure (\<lambda>(t, base, e, i). mbt_cnt t - i)") auto

declare memblock_merge_loop.simps [simp del]

definition memblock_merge_regions ::
    "MemblockType \<Rightarrow> u64 \<Rightarrow> u64 \<Rightarrow> MemblockFlags \<Rightarrow> (unit KernelResult \<times> MemblockType) option" where
  "memblock_merge_regions t base sz flags = memblock_merge_loop t base (base + sz) 0"

text \<open>The search for the insertion index; \<open>Inl ()\<close> when a region touches the new one.\<close>

function memblock_insert_pos :: "MemblockType \<Rightarrow> u64 \<Rightarrow> u64 \<Rightarrow> nat \<Rightarrow> (unit + nat) option" where
  "memblock_insert_pos t base fin i =
     (if i < mbt_cnt t then do {
        r \<leftarrow> vec_get (mbt_regions t) i;
        (if region_touches base fin r then Some (Inl ())
         else if base < mr_base r then Some (Inr i)
         else memblock_insert_pos t base fin (i + 1))
      } else Some (Inr (mbt_cnt t)))"
  by pat_completeness auto
termination
  by (relation "measure (\<lambda>(t, base, e, i). mbt_cnt t - i)") auto

declare memblock_insert_pos.simps [simp del]

definition memblock_add_range ::
    "MemblockType \<Rightarrow> u64 \<Rightarrow> u64 \<Rightarrow> MemblockFlags \<Rightarrow> (unit KernelResult \<times> MemblockType) option" where
  "memblock_add_range t base sz flags =
     (if sz = 0 then Some (Inr (), t)
      else case u64_checked_add base sz of
        None \<Rightarrow> Some (Inl InvalidAddress, t)
      | Some fin \<Rightarrow> do {
          pos \<leftarrow> memblock_insert_pos t base fin 0;
          (case pos of
             Inl _ \<Rightarrow> memblock_merge_regions t base sz flags
           | Inr insert_idx \<Rightarrow>
               if mbt_max t \<le> mbt_cnt t then Some (Inl NoMemory, t)
               else do {
                 rs \<leftarrow> shift_right (mbt_regions t) insert_idx (mbt_cnt t);
                 rs' \<leftarrow> vec_set rs insert_idx \<lparr>mr_base = base, mr_size = sz, mr_flags = flags\<rparr>;
                 Some (Inr (), t\<lparr>mbt_regions := rs', mbt_cnt := mbt_cnt t + 1, mbt_total := mbt_total t + sz\<rparr>)
               })
        })"

text \<open>
  The removal loop. A full removal stays at the same index with one region less; every other branch
  moves on. A hole in the middle of a region needs a free slot for its upper part.
\<close>

function memblock_remove_loop ::
    "MemblockType \<Rightarrow> u64 \<Rightarrow> u64 \<Rightarrow> u64 \<Rightarrow> nat \<Rightarrow> (unit KernelResult \<times> MemblockType) option" where
  "memblock_remove_loop t base sz fin i =
     (if i < mbt_cnt t then do {
        r \<leftarrow> vec_get (mbt_regions t) i;
        (if fin \<le> mr_base r \<or> region_end r \<le> base then memblock_remove_loop t base sz fin (i + 1)
         else
           let reg_base = mr_base r; reg_end = region_end r
           in if base \<le> reg_base \<and> reg_end \<le> fin then do {
                rs \<leftarrow> shift_left (mbt_regions t) i (mbt_cnt t - 1);
                memblock_remove_loop
                  (t\<lparr>mbt_regions := rs, mbt_cnt := mbt_cnt t - 1, mbt_total := mbt_total t - mr_size r\<rparr>) base sz fin i
              } else if reg_base < base \<and> fin < reg_end then
                (if mbt_max t \<le> mbt_cnt t then Some (Inl NoMemory, t)
                 else do {
                   rs1 \<leftarrow> vec_set (mbt_regions t) i (r\<lparr>mr_size := base - reg_base\<rparr>);
                   rs2 \<leftarrow> shift_right rs1 (i + 1) (mbt_cnt t);
                   rs3 \<leftarrow> vec_set rs2 (i + 1) \<lparr>mr_base = fin, mr_size = reg_end - fin, mr_flags = mr_flags r\<rparr>;
                   memblock_remove_loop
                     (t\<lparr>mbt_regions := rs3, mbt_cnt := mbt_cnt t + 1, mbt_total := mbt_total t - sz\<rparr>) base sz fin (i + 2)
                 })
              else if base \<le> reg_base then do {
                let removed = fin - reg_base;
                rs \<leftarrow> vec_set (mbt_regions t) i (r\<lparr>mr_base := fin, mr_size := mr_size r - removed\<rparr>);
                memblock_remove_loop
                  (t\<lparr>mbt_regions := rs, mbt_total := mbt_total t - removed\<rparr>) base sz fin (i + 1)
              } else do {
                let removed = reg_end - base;
                rs \<leftarrow> vec_set (mbt_regions t) i (r\<lparr>mr_size := mr_size r - removed\<rparr>);
                memblock_remove_loop
                  (t\<lparr>mbt_regions := rs, mbt_total := mbt_total t - removed\<rparr>) base sz fin (i + 1)
              })
      } else Some (Inr (), t))"
  by pat_completeness auto
termination
  by (relation "measure (\<lambda>(t, base, sz, e, i). mbt_cnt t - i)") auto

declare memblock_remove_loop.simps [simp del]

definition memblock_remove_range :: "MemblockType \<Rightarrow> u64 \<Rightarrow> u64 \<Rightarrow> (unit KernelResult \<times> MemblockType) option" where
  "memblock_remove_range t base sz =
     (if sz = 0 then Some (Inr (), t) else memblock_remove_loop t base sz (base + sz) 0)"

section \<open>Searching for free memory\<close>

text \<open>The inner loop of both searches: the first non-empty region that the candidate meets.\<close>

fun first_conflict :: "MemblockRegion list \<Rightarrow> u64 \<Rightarrow> u64 \<Rightarrow> MemblockRegion option" where
  "first_conflict [] candidate candidate_end = None"
| "first_conflict (res # rs) candidate candidate_end =
     (if \<not> region_is_empty res \<and> candidate < region_end res \<and> mr_base res < candidate_end then Some res
      else first_conflict rs candidate candidate_end)"

text \<open>The regions in use, as the loops over \<^verbatim>\<open>0..cnt\<close> visit them; a count beyond the array panics.\<close>

definition mbt_used :: "MemblockType \<Rightarrow> MemblockRegion list option" where
  "mbt_used t = vec_slice (mbt_regions t) 0 (mbt_cnt t)"

lemma first_conflict_Some:
  "first_conflict rs c ce = Some res \<Longrightarrow> res \<in> set rs \<and> c < region_end res \<and> mr_base res < ce"
  by (induction rs c ce rule: first_conflict.induct) (auto split: if_splits)

lemma align_down_le: "mb_align_down a align \<le> a"
  by (simp add: mb_align_down_def word_and_le2)

lemma top_down_progress:
  assumes "first_conflict rs c (c + sz) = Some res" "mb_align_down (u64_saturating_sub (mr_base res) sz) align \<noteq> 0"
  shows "unat (mb_align_down (u64_saturating_sub (mr_base res) sz) align) < unat c"
proof -
  let ?c = "mb_align_down (u64_saturating_sub (mr_base res) sz) align"
  have "unat ?c \<le> unat (mr_base res) - unat sz"
    using align_down_le [of "u64_saturating_sub (mr_base res) sz" align]
    by (simp add: word_le_nat_alt unat_saturating_sub)
  moreover have "0 < unat ?c" using assms(2) by (simp add: unat_gt_0)
  moreover have "unat (mr_base res) < unat (c + sz)"
    using first_conflict_Some [OF assms(1)] by (simp add: word_less_nat_alt)
  moreover have "unat (c + sz) \<le> unat c + unat sz"
    by (simp add: unat_word_ariths)
  ultimately show ?thesis by linarith
qed

function top_down_loop :: "MemblockRegion list \<Rightarrow> u64 \<Rightarrow> u64 \<Rightarrow> u64 \<Rightarrow> u64 \<Rightarrow> u64 option" where
  "top_down_loop reserved sz align start candidate =
     (if start \<le> candidate then
        case first_conflict reserved candidate (candidate + sz) of
          None \<Rightarrow> Some candidate
        | Some res \<Rightarrow>
            if 0 < mr_base res then
              let candidate' = mb_align_down (u64_saturating_sub (mr_base res) sz) align
              in if candidate' = 0 then None else top_down_loop reserved sz align start candidate'
            else None
      else None)"
  by pat_completeness auto
termination
  by (relation "measure (\<lambda>(rs, sz, align, start, c). unat c)") (auto intro: top_down_progress)

declare top_down_loop.simps [simp del]

definition find_free_area_top_down :: "Memblock \<Rightarrow> u64 \<Rightarrow> u64 \<Rightarrow> u64 \<Rightarrow> u64 \<Rightarrow> u64 option option" where
  "find_free_area_top_down mb sz align start fin = do {
     reserved \<leftarrow> mbt_used (mb_reserved mb);
     Some (top_down_loop reserved sz align start (mb_align_down (u64_saturating_sub fin sz) align))
   }"

text \<open>
  The upward search moves the candidate past a conflict; its alignment can wrap around, so the loop
  need not end for every input. \<open>None\<close> is a run that never ends.
\<close>

partial_function (option) bottom_up_loop ::
    "MemblockRegion list \<Rightarrow> u64 \<Rightarrow> u64 \<Rightarrow> u64 \<Rightarrow> u64 \<Rightarrow> u64 option option" where
  "bottom_up_loop reserved sz align fin candidate =
     (if candidate + sz \<le> fin then
        case first_conflict reserved candidate (candidate + sz) of
          None \<Rightarrow> Some (Some candidate)
        | Some res \<Rightarrow> bottom_up_loop reserved sz align fin (mb_align_up (region_end res) align)
      else Some None)"

definition find_free_area_bottom_up :: "Memblock \<Rightarrow> u64 \<Rightarrow> u64 \<Rightarrow> u64 \<Rightarrow> u64 \<Rightarrow> u64 option option" where
  "find_free_area_bottom_up mb sz align start fin = do {
     reserved \<leftarrow> mbt_used (mb_reserved mb);
     bottom_up_loop reserved sz align fin (mb_align_up start align)
   }"

section \<open>Allocation\<close>

text \<open>
  One round of the allocation loops: clip the region, search it, and reserve what was found.
  \<open>Some addr\<close> ends the loop with that address.
\<close>

definition memblock_try_region ::
    "(Memblock \<Rightarrow> u64 \<Rightarrow> u64 \<Rightarrow> u64 \<Rightarrow> u64 \<Rightarrow> u64 option option) \<Rightarrow>
     Memblock \<Rightarrow> u64 \<Rightarrow> u64 \<Rightarrow> u64 \<Rightarrow> u64 \<Rightarrow> MemblockRegion \<Rightarrow> (u64 option \<times> Memblock) option" where
  "memblock_try_region search mb sz align start fin mem =
     (if region_is_empty mem then Some (None, mb)
      else
        let region_start = max (mr_base mem) start; region_fin = min (region_end mem) fin
        in if region_fin \<le> region_start then Some (None, mb)
           else do {
             found \<leftarrow> search mb sz align region_start region_fin;
             (case found of
                None \<Rightarrow> Some (None, mb)
              | Some addr \<Rightarrow> do {
                  (r, res) \<leftarrow> memblock_add_range (mb_reserved mb) addr sz MB_NONE;
                  Some (case r of Inr _ \<Rightarrow> Some addr | Inl _ \<Rightarrow> None, mb\<lparr>mb_reserved := res\<rparr>)
                })
           })"

fun memblock_try_regions ::
    "(Memblock \<Rightarrow> u64 \<Rightarrow> u64 \<Rightarrow> u64 \<Rightarrow> u64 \<Rightarrow> u64 option option) \<Rightarrow>
     Memblock \<Rightarrow> u64 \<Rightarrow> u64 \<Rightarrow> u64 \<Rightarrow> u64 \<Rightarrow> MemblockRegion list \<Rightarrow> (u64 \<times> Memblock) option" where
  "memblock_try_regions search mb sz align start fin [] = Some (0, mb)"
| "memblock_try_regions search mb sz align start fin (mem # mems) = do {
     (r, mb') \<leftarrow> memblock_try_region search mb sz align start fin mem;
     (case r of
        Some addr \<Rightarrow> Some (addr, mb')
      | None \<Rightarrow> memblock_try_regions search mb' sz align start fin mems)
   }"

definition memblock_find_in_range_top_down ::
    "Memblock \<Rightarrow> u64 \<Rightarrow> u64 \<Rightarrow> u64 \<Rightarrow> u64 \<Rightarrow> (u64 \<times> Memblock) option" where
  "memblock_find_in_range_top_down mb sz align start fin = do {
     mems \<leftarrow> mbt_used (mb_memory mb);
     memblock_try_regions find_free_area_top_down mb sz align start fin (rev mems)
   }"

definition memblock_find_in_range_bottom_up ::
    "Memblock \<Rightarrow> u64 \<Rightarrow> u64 \<Rightarrow> u64 \<Rightarrow> u64 \<Rightarrow> (u64 \<times> Memblock) option" where
  "memblock_find_in_range_bottom_up mb sz align start fin = do {
     mems \<leftarrow> mbt_used (mb_memory mb);
     memblock_try_regions find_free_area_bottom_up mb sz align start fin mems
   }"

section \<open>Interface\<close>

definition memblock_init :: "Memblock \<Rightarrow> Memblock" where
  "memblock_init mb =
     mb\<lparr>mb_memory := (mb_memory mb)\<lparr>mbt_cnt := 0, mbt_total := 0\<rparr>,
        mb_reserved := (mb_reserved mb)\<lparr>mbt_cnt := 0, mbt_total := 0\<rparr>,
        mb_bottom_up := False, mb_limit := - 1, mb_initialized := True\<rparr>"

definition memblock_initialized :: "Memblock \<Rightarrow> bool" where
  "memblock_initialized mb = mb_initialized mb"

definition memblock_add :: "Memblock \<Rightarrow> u64 \<Rightarrow> u64 \<Rightarrow> (unit KernelResult \<times> Memblock) option" where
  "memblock_add mb base sz = do {
     (r, t) \<leftarrow> memblock_add_range (mb_memory mb) base sz MB_NONE;
     Some (r, mb\<lparr>mb_memory := t\<rparr>)
   }"

definition memblock_reserve :: "Memblock \<Rightarrow> u64 \<Rightarrow> u64 \<Rightarrow> (unit KernelResult \<times> Memblock) option" where
  "memblock_reserve mb base sz = do {
     (r, t) \<leftarrow> memblock_add_range (mb_reserved mb) base sz MB_NONE;
     Some (r, mb\<lparr>mb_reserved := t\<rparr>)
   }"

definition memblock_alloc_range :: "Memblock \<Rightarrow> u64 \<Rightarrow> u64 \<Rightarrow> u64 \<Rightarrow> u64 \<Rightarrow> (u64 \<times> Memblock) option" where
  "memblock_alloc_range mb sz align start fin =
     (if sz = 0 then Some (0, mb)
      else
        let align' = (if align = 0 then 1 else align)
        in if mb_bottom_up mb then memblock_find_in_range_bottom_up mb sz align' start fin
           else memblock_find_in_range_top_down mb sz align' start fin)"

definition memblock_alloc :: "Memblock \<Rightarrow> u64 \<Rightarrow> u64 \<Rightarrow> (u64 \<times> Memblock) option" where
  "memblock_alloc mb sz align = memblock_alloc_range mb sz align 0 (mb_limit mb)"

definition memblock_free :: "Memblock \<Rightarrow> u64 \<Rightarrow> u64 \<Rightarrow> (unit KernelResult \<times> Memblock) option" where
  "memblock_free mb base sz = do {
     (r, t) \<leftarrow> memblock_remove_range (mb_reserved mb) base sz;
     Some (r, mb\<lparr>mb_reserved := t\<rparr>)
   }"

definition memblock_set_bottom_up :: "Memblock \<Rightarrow> bool \<Rightarrow> Memblock" where
  "memblock_set_bottom_up mb enable = mb\<lparr>mb_bottom_up := enable\<rparr>"

definition memblock_set_current_limit :: "Memblock \<Rightarrow> u64 \<Rightarrow> Memblock" where
  "memblock_set_current_limit mb limit = mb\<lparr>mb_limit := limit\<rparr>"

definition memblock_phys_mem_size :: "Memblock \<Rightarrow> u64" where
  "memblock_phys_mem_size mb = mbt_total (mb_memory mb)"

definition memblock_reserved_size :: "Memblock \<Rightarrow> u64" where
  "memblock_reserved_size mb = mbt_total (mb_reserved mb)"

definition memblock_free_size :: "Memblock \<Rightarrow> u64" where
  "memblock_free_size mb = u64_saturating_sub (memblock_phys_mem_size mb) (memblock_reserved_size mb)"

definition memblock_end_of_phys_mem :: "Memblock \<Rightarrow> u64 option" where
  "memblock_end_of_phys_mem mb =
     (if mbt_cnt (mb_memory mb) = 0 then Some 0
      else map_option region_end (vec_get (mbt_regions (mb_memory mb)) (mbt_cnt (mb_memory mb) - 1)))"

text \<open>
  The walk over the free regions, with the callback as a function on its own state. The walk over
  the reserved regions of one memory region returns the state, the new position, and whether the
  callback asked to stop.
\<close>

fun free_in_region ::
    "('s \<Rightarrow> u64 \<Rightarrow> u64 \<Rightarrow> bool \<times> 's) \<Rightarrow> MemblockRegion list \<Rightarrow> u64 \<Rightarrow> u64 \<Rightarrow> 's \<Rightarrow> bool \<times> u64 \<times> 's" where
  "free_in_region callback [] mem_end current s = (True, current, s)"
| "free_in_region callback (res # rs) mem_end current s =
     (if region_is_empty res then free_in_region callback rs mem_end current s
      else if mem_end \<le> mr_base res then (True, current, s)
      else if region_end res \<le> current then free_in_region callback rs mem_end current s
      else if current < mr_base res then
        (case callback s current (min (mr_base res) mem_end - current) of
           (go, s') \<Rightarrow>
             if go then free_in_region callback rs mem_end (max current (region_end res)) s'
             else (False, current, s'))
      else free_in_region callback rs mem_end (max current (region_end res)) s)"

fun free_in_regions ::
    "('s \<Rightarrow> u64 \<Rightarrow> u64 \<Rightarrow> bool \<times> 's) \<Rightarrow> MemblockRegion list \<Rightarrow> MemblockRegion list \<Rightarrow> 's \<Rightarrow> 's" where
  "free_in_regions callback reserved [] s = s"
| "free_in_regions callback reserved (mem # mems) s =
     (if region_is_empty mem then free_in_regions callback reserved mems s
      else
        (case free_in_region callback reserved (region_end mem) (mr_base mem) s of
           (go, current, s1) \<Rightarrow>
             if \<not> go then s1
             else if current < region_end mem then
               (case callback s1 current (region_end mem - current) of
                  (go', s2) \<Rightarrow> if go' then free_in_regions callback reserved mems s2 else s2)
             else free_in_regions callback reserved mems s1))"

definition memblock_for_each_free_region ::
    "('s \<Rightarrow> u64 \<Rightarrow> u64 \<Rightarrow> bool \<times> 's) \<Rightarrow> Memblock \<Rightarrow> 's \<Rightarrow> 's option" where
  "memblock_for_each_free_region callback mb s = do {
     mems \<leftarrow> mbt_used (mb_memory mb);
     reserved \<leftarrow> mbt_used (mb_reserved mb);
     Some (free_in_regions callback reserved mems s)
   }"

definition memblock_memory_region_count :: "Memblock \<Rightarrow> nat" where
  "memblock_memory_region_count mb = mbt_cnt (mb_memory mb)"

definition memblock_reserved_region_count :: "Memblock \<Rightarrow> nat" where
  "memblock_reserved_region_count mb = mbt_cnt (mb_reserved mb)"

definition memblock_memory_region :: "Memblock \<Rightarrow> nat \<Rightarrow> MemblockRegion option option" where
  "memblock_memory_region mb index =
     (if index < mbt_cnt (mb_memory mb) then map_option Some (vec_get (mbt_regions (mb_memory mb)) index) else Some None)"

definition memblock_reserved_region :: "Memblock \<Rightarrow> nat \<Rightarrow> MemblockRegion option option" where
  "memblock_reserved_region mb index =
     (if index < mbt_cnt (mb_reserved mb) then map_option Some (vec_get (mbt_regions (mb_reserved mb)) index) else Some None)"

end
