(* ===== verification/Memblock_Proofs.thy ===== *)
theory Memblock_Proofs
  imports Memblock
begin

text \<open>
  Correctness of the boot-time allocator. A table of regions stands for the set of addresses it
  covers; adding, reserving and freeing are union and difference on that set, allocation returns
  memory that was not reserved before, and the walk over the free regions visits the difference of
  the two tables.
\<close>

section \<open>Array shifts\<close>

lemma shift_right_eq:
  "lo \<le> hi \<Longrightarrow> hi < length rs \<Longrightarrow>
   shift_right rs lo hi = Some (take lo rs @ rs ! lo # drop lo (take hi rs) @ drop (Suc hi) rs)"
proof (induction hi arbitrary: rs)
  case 0
  then show ?case by (simp add: shift_right.simps nth_split [symmetric] Cons_nth_drop_Suc)
next
  case (Suc h)
  show ?case
  proof (cases "lo \<le> h")
    case True
    let ?rs = "rs[Suc h := rs ! h]"
    have "shift_right ?rs lo h = Some (take lo ?rs @ ?rs ! lo # drop lo (take h ?rs) @ drop (Suc h) ?rs)"
      using Suc True by simp
    moreover have "drop (Suc h) ?rs = rs ! h # drop (Suc (Suc h)) rs"
      using Suc.prems(2) by (simp add: Cons_nth_drop_Suc [symmetric])
    moreover have "drop lo (take (Suc h) rs) = drop lo (take h rs) @ [rs ! h]"
      using True Suc.prems(2) by (simp add: take_Suc_conv_app_nth)
    ultimately show ?thesis
      using Suc.prems True by (subst shift_right.simps) (simp add: vec_simps)
  next
    case False
    then have "lo = Suc h" using Suc.prems by simp
    then show ?thesis using Suc.prems by (subst shift_right.simps) (simp add: nth_split [symmetric])
  qed
qed

lemma shift_left_eq:
  "lo \<le> hi \<Longrightarrow> hi < length rs \<Longrightarrow>
   shift_left rs lo hi = Some (take lo rs @ drop (Suc lo) (take (Suc hi) rs) @ drop hi rs)"
proof (induction "hi - lo" arbitrary: rs lo)
  case 0
  then show ?case by (subst shift_left.simps) simp
next
  case (Suc k)
  let ?rs = "rs[lo := rs ! Suc lo]"
  have "shift_left ?rs (Suc lo) hi =
      Some (take (Suc lo) ?rs @ drop (Suc (Suc lo)) (take (Suc hi) ?rs) @ drop hi ?rs)"
    using Suc by (intro Suc.hyps(1)) auto
  moreover have "take (Suc lo) ?rs = take lo rs @ [rs ! Suc lo]"
    using Suc by (simp add: take_Suc_conv_app_nth)
  moreover have "drop (Suc lo) (take (Suc hi) rs) = rs ! Suc lo # drop (Suc (Suc lo)) (take (Suc hi) rs)"
    using Suc by (simp add: Cons_nth_drop_Suc [symmetric])
  ultimately show ?case
    using Suc by (subst shift_left.simps) (simp add: vec_simps drop_take)
qed

lemma array_insert:
  assumes "i \<le> n" "n < length rs"
  shows "\<exists>rs1 rs2. shift_right rs i n = Some rs1 \<and> vec_set rs1 i x = Some rs2 \<and> length rs2 = length rs \<and>
    take (Suc n) rs2 = take i (take n rs) @ x # drop i (take n rs)"
  using assms shift_right_eq [OF assms] by (auto simp: vec_simps list_update_append min_def Suc_diff_le)

lemma array_delete:
  assumes "i < n" "n \<le> length rs"
  shows "\<exists>rs1. shift_left rs i (n - 1) = Some rs1 \<and> length rs1 = length rs \<and>
    take (n - 1) rs1 = take i (take n rs) @ drop (Suc i) (take n rs)"
proof -
  have "i \<le> n - 1" "n - 1 < length rs" "Suc (n - 1) = n" using assms by auto
  then show ?thesis
    using assms shift_left_eq [of i "n - 1" rs] by (simp add: min_def)
qed

section \<open>Regions as sets of addresses\<close>

abbreviation rb :: "MemblockRegion \<Rightarrow> nat" where
  "rb r \<equiv> unat (mr_base r)"

abbreviation rf :: "MemblockRegion \<Rightarrow> nat" where
  "rf r \<equiv> unat (mr_base r) + unat (mr_size r)"

definition reg_ok :: "MemblockRegion \<Rightarrow> bool" where
  "reg_ok r \<longleftrightarrow> mr_size r \<noteq> 0 \<and> rf r < 2 ^ 64"

definition regs_ok :: "MemblockRegion list \<Rightarrow> bool" where
  "regs_ok rs \<longleftrightarrow> (\<forall>r \<in> set rs. reg_ok r) \<and> sorted_wrt (\<lambda>a b. rf a < rb b) rs"

definition cover :: "MemblockRegion list \<Rightarrow> nat set" where
  "cover rs = (\<Union>r \<in> set rs. {rb r..<rf r})"

lemma reg_end: "reg_ok r \<Longrightarrow> unat (region_end r) = rf r"
  by (simp add: reg_ok_def region_end_def unat_add_no_wrap)

lemma reg_pos: "reg_ok r \<Longrightarrow> rb r < rf r"
  by (simp add: reg_ok_def unat_gt_0)

lemma cover_simps [simp]:
  "cover [] = {}" "cover (r # rs) = {rb r..<rf r} \<union> cover rs" "cover (xs @ ys) = cover xs \<union> cover ys"
  by (auto simp: cover_def)

lemma regs_ok_simps [simp]:
  "regs_ok []" "regs_ok (r # rs) \<longleftrightarrow> reg_ok r \<and> (\<forall>x \<in> set rs. rf r < rb x) \<and> regs_ok rs"
  "regs_ok (xs @ ys) \<longleftrightarrow> regs_ok xs \<and> regs_ok ys \<and> (\<forall>x \<in> set xs. \<forall>y \<in> set ys. rf x < rb y)"
  by (auto simp: regs_ok_def sorted_wrt_append)

lemma regs_ok_take_drop:
  assumes "regs_ok rs"
  shows "regs_ok (take k rs)" "regs_ok (drop k rs)" "\<forall>x \<in> set (take k rs). \<forall>y \<in> set (drop k rs). rf x < rb y"
  using assms regs_ok_simps(3) [of "take k rs" "drop k rs"] by simp_all

lemma regs_ok_around:
  assumes "regs_ok rs" "k < length rs"
  shows "reg_ok (rs ! k)" "\<forall>x \<in> set (drop (Suc k) rs). rf (rs ! k) < rb x" "\<forall>x \<in> set (take k rs). rf x < rb (rs ! k)"
    "\<forall>x \<in> set (take k rs). \<forall>y \<in> set (drop (Suc k) rs). rf x < rb y"
  using assms(1) nth_split [OF assms(2)] regs_ok_simps(3) [of "take k rs" "rs ! k # drop (Suc k) rs"] by auto

lemma cover_take_drop: "cover rs = cover (take k rs) \<union> cover (drop k rs)"
  using cover_simps(3) [of "take k rs" "drop k rs"] by simp

lemma cover_around: "k < length rs \<Longrightarrow> cover rs = cover (take k rs) \<union> {rb (rs ! k)..<rf (rs ! k)} \<union> cover (drop (Suc k) rs)"
  using cover_take_drop [of rs k] Cons_nth_drop_Suc [of k rs] cover_simps(2) [of "rs ! k" "drop (Suc k) rs"] by auto

lemma sum_take_drop:
  fixes f :: "'a \<Rightarrow> 'b::comm_monoid_add"
  shows "(\<Sum>r\<leftarrow>rs. f r) = (\<Sum>r\<leftarrow>take k rs. f r) + (\<Sum>r\<leftarrow>drop k rs. f r)"
  by (metis append_take_drop_id map_append sum_list_append)

text \<open>A region given by its bounds as natural numbers.\<close>

lemma reg_between:
  assumes "unat b < unat f"
  shows "unat b + unat (f - b :: u64) = unat f" "f - b \<noteq> 0"
  using assms by (auto simp: unat_sub word_le_nat_alt)

definition used :: "MemblockType \<Rightarrow> MemblockRegion list" where
  "used t = take (mbt_cnt t) (mbt_regions t)"

definition table_ok :: "MemblockType \<Rightarrow> bool" where
  "table_ok t \<longleftrightarrow> length (mbt_regions t) = MEMBLOCK_REGIONS_MAX \<and> mbt_cnt t \<le> mbt_max t \<and>
     mbt_max t \<le> MEMBLOCK_REGIONS_MAX \<and> regs_ok (used t) \<and> mbt_total t = (\<Sum>r\<leftarrow>used t. mr_size r)"

text \<open>The array part of the invariant, which every step of the loops keeps.\<close>

definition table_fits :: "MemblockType \<Rightarrow> bool" where
  "table_fits t \<longleftrightarrow> length (mbt_regions t) = MEMBLOCK_REGIONS_MAX \<and> mbt_cnt t \<le> mbt_max t \<and>
     mbt_max t \<le> MEMBLOCK_REGIONS_MAX"

definition slack :: "MemblockType \<Rightarrow> u64" where
  "slack t = mbt_total t - (\<Sum>r\<leftarrow>used t. mr_size r)"

lemma table_ok_iff: "table_ok t \<longleftrightarrow> table_fits t \<and> regs_ok (used t) \<and> slack t = 0"
  by (auto simp: table_ok_def table_fits_def slack_def)

lemma used_length: "table_fits t \<Longrightarrow> length (used t) = mbt_cnt t"
  by (simp add: used_def table_fits_def)

lemma used_nth: "table_fits t \<Longrightarrow> i < mbt_cnt t \<Longrightarrow> vec_get (mbt_regions t) i = Some (used t ! i)"
  by (simp add: used_def table_fits_def vec_simps)

lemma mbt_used_eq: "table_fits t \<Longrightarrow> mbt_used t = Some (used t)"
  by (simp add: mbt_used_def used_def table_fits_def vec_simps)

section \<open>Merging\<close>

fun absorb :: "MemblockRegion \<Rightarrow> MemblockRegion list \<Rightarrow> MemblockRegion list" where
  "absorb r [] = [r]"
| "absorb r (x # xs) =
     (if mr_base x \<le> region_end r
      then absorb (r\<lparr>mr_size := max (region_end r) (region_end x) - mr_base r\<rparr>) xs
      else r # absorb x xs)"

lemma absorb_spec:
  "reg_ok r \<Longrightarrow> regs_ok xs \<Longrightarrow> \<forall>x \<in> set xs. rb r \<le> rb x \<Longrightarrow>
   regs_ok (absorb r xs) \<and> cover (absorb r xs) = cover (r # xs) \<and> (\<forall>y \<in> set (absorb r xs). rb r \<le> rb y)"
proof (induction r xs rule: absorb.induct)
  case (2 r x xs)
  have ends: "unat (region_end r) = rf r" "unat (region_end x) = rf x" "rb r < rf r" "rb x < rf x" "reg_ok x"
    using 2 reg_end reg_pos by auto
  show ?case
  proof (cases "mr_base x \<le> region_end r")
    case True
    let ?r = "r\<lparr>mr_size := max (region_end r) (region_end x) - mr_base r\<rparr>"
    have rf: "rf ?r = max (rf r) (rf x)" "mr_size ?r \<noteq> 0"
      using reg_between [of "mr_base r" "max (region_end r) (region_end x)"] ends
      by (simp_all add: unat_max_u64 less_max_iff_disj)
    have ok: "reg_ok ?r" using rf ends(5) 2(3) by (simp add: reg_ok_def)
    have "cover [?r] = cover [r, x]"
      using rf ends True 2(5) by (auto simp: cover_def word_le_nat_alt)
    then show ?thesis
      using 2(1) [OF True ok] 2(4,5) True by auto
  next
    case False
    then have "rf r < rb x" using ends(1) by (simp add: word_le_nat_alt)
    moreover have "\<forall>y \<in> set xs. rb x \<le> rb y" using 2(4) by (auto dest!: bspec)
    then have "regs_ok (absorb x xs) \<and> cover (absorb x xs) = cover (x # xs) \<and> (\<forall>y \<in> set (absorb x xs). rb x \<le> rb y)"
      using 2(2) [OF False ends(5)] 2(4) by simp
    ultimately show ?thesis
      using 2(3) False ends(3) by fastforce
  qed
qed auto


lemma used_update: "i < mbt_cnt t \<Longrightarrow> used (t\<lparr>mbt_regions := (mbt_regions t)[i := r], mbt_total := m\<rparr>) = (used t)[i := r]"
  by (simp add: used_def take_update_swap)

lemma sum_sizes_middle:
  "i < length rs \<Longrightarrow> (\<Sum>r\<leftarrow>rs. mr_size r) = (\<Sum>r\<leftarrow>take i rs. mr_size r) + mr_size (rs ! i) + (\<Sum>r\<leftarrow>drop (Suc i) rs. mr_size r)"
  using sum_take_drop [of mr_size rs i] Cons_nth_drop_Suc [of i rs] by (metis add.assoc list.simps(9) sum_list.Cons)

lemma merge_adjacent_eq:
  "table_fits t \<Longrightarrow> i < mbt_cnt t \<Longrightarrow>
   \<exists>t'. memblock_merge_adjacent t i = Some t' \<and> table_fits t' \<and> slack t' = slack t \<and>
     used t' = take i (used t) @ absorb (used t ! i) (drop (Suc i) (used t))"
proof (induction "mbt_cnt t - i" arbitrary: t i rule: less_induct)
  case less
  note fits = less.prems(1) and i = less.prems(2)
  note len = used_length [OF fits]
  show ?case
  proof (cases "Suc i < mbt_cnt t")
    case False
    then have "drop (Suc i) (used t) = []" using len by simp
    moreover have "take i (used t) @ [used t ! i] = used t"
      using False i len take_Suc_conv_app_nth [of i "used t"] by simp
    ultimately show ?thesis
      using False fits by (subst memblock_merge_adjacent.simps) simp
  next
    case True
    let ?r = "used t ! i" and ?x = "used t ! Suc i"
    have tail: "drop (Suc i) (used t) = ?x # drop (Suc (Suc i)) (used t)"
      using True len by (simp add: Cons_nth_drop_Suc)
    show ?thesis
    proof (cases "mr_base ?x \<le> region_end ?r")
      case False
      have "mbt_cnt t - Suc i < mbt_cnt t - i" using i by simp
      then obtain t' where "memblock_merge_adjacent t (Suc i) = Some t'" "table_fits t'" "slack t' = slack t"
          "used t' = take (Suc i) (used t) @ absorb ?x (drop (Suc (Suc i)) (used t))"
        using less.hyps [OF _ fits True] by blast
      moreover have "take (Suc i) (used t) = take i (used t) @ [?r]"
        using i len by (simp add: take_Suc_conv_app_nth)
      ultimately show ?thesis
        using True False tail used_nth [OF fits i] used_nth [OF fits True]
        by (subst memblock_merge_adjacent.simps) auto
    next
      case m: True
      let ?r' = "?r\<lparr>mr_size := max (region_end ?r) (region_end ?x) - mr_base ?r\<rparr>"
      let ?rs = "(mbt_regions t)[i := ?r']" and ?n = "mbt_cnt t"
      have n: "Suc i < ?n" "?n \<le> length ?rs" using True fits by (auto simp: table_fits_def)
      obtain rs1 where rs1: "shift_left ?rs (Suc i) (?n - 1) = Some rs1" "length rs1 = length ?rs"
          "take (?n - 1) rs1 = take (Suc i) (take ?n ?rs) @ drop (Suc (Suc i)) (take ?n ?rs)"
        using array_delete [OF n] by blast
      let ?t = "t\<lparr>mbt_regions := rs1, mbt_cnt := ?n - 1,
          mbt_total := mbt_total t - (mr_size ?r + mr_size ?x) + mr_size ?r'\<rparr>"
      have u: "used ?t = take i (used t) @ ?r' # drop (Suc (Suc i)) (used t)"
        using rs1(3) n by (simp add: used_def take_update_swap take_Suc_conv_app_nth drop_update_cancel
            min_def list_update_append)
      have fits': "table_fits ?t" using fits rs1(2) by (auto simp: table_fits_def)
      have "slack ?t = slack t"
        unfolding slack_def u
        using sum_sizes_middle [of i "used t"] len i True by (simp add: tail algebra_simps)
      moreover have lt: "mbt_cnt ?t - i < mbt_cnt t - i" "i < mbt_cnt ?t" using True by simp_all
      obtain t' where t': "memblock_merge_adjacent ?t i = Some t'" "table_fits t'" "slack t' = slack ?t"
          "used t' = take i (used ?t) @ absorb (used ?t ! i) (drop (Suc i) (used ?t))"
        using less.hyps [OF lt(1) fits' lt(2)] by blast
      moreover have "take i (used ?t) = take i (used t)" "used ?t ! i = ?r'"
          "drop (Suc i) (used ?t) = drop (Suc (Suc i)) (used t)"
        unfolding u using len i by (auto simp: nth_append)
      moreover have "memblock_merge_adjacent t i = memblock_merge_adjacent ?t i"
        using True m used_nth [OF fits i] used_nth [OF fits True] rs1(1) fits i
        by (subst memblock_merge_adjacent.simps) (simp add: Let_def vec_set_def table_fits_def)
      ultimately show ?thesis
        using m tail by auto
    qed
  qed
qed


section \<open>Adding a region\<close>

lemma touches_nat:
  "reg_ok r \<Longrightarrow> region_touches b f r \<longleftrightarrow> rb r \<le> unat f \<and> unat b \<le> rf r"
  by (simp add: region_touches_def word_le_nat_alt reg_end)

text \<open>The index at which the search stops.\<close>

lemma insert_pos_eq:
  assumes "table_fits t" "i \<le> mbt_cnt t"
  shows "memblock_insert_pos t b f i =
    (case position (\<lambda>r. region_touches b f r \<or> b < mr_base r) (drop i (used t)) of
       None \<Rightarrow> Some (Inr (mbt_cnt t))
     | Some k \<Rightarrow> Some (if region_touches b f (used t ! (i + k)) then Inl () else Inr (i + k)))"
  using assms
proof (induction "mbt_cnt t - i" arbitrary: i)
  case 0
  then show ?case by (subst memblock_insert_pos.simps) (simp add: used_length)
next
  case (Suc n)
  then have i: "i < mbt_cnt t" by simp
  have d: "drop i (used t) = used t ! i # drop (Suc i) (used t)"
    using i used_length [OF Suc.prems(1)] by (simp add: Cons_nth_drop_Suc)
  have "memblock_insert_pos t b f (Suc i) =
    (case position (\<lambda>r. region_touches b f r \<or> b < mr_base r) (drop (Suc i) (used t)) of
       None \<Rightarrow> Some (Inr (mbt_cnt t))
     | Some k \<Rightarrow> Some (if region_touches b f (used t ! (Suc i + k)) then Inl () else Inr (Suc i + k)))"
    using Suc i by (intro Suc.hyps(1)) auto
  then show ?case
    using i used_nth [OF Suc.prems(1) i]
    by (subst memblock_insert_pos.simps) (auto simp: d split: option.splits)
qed

lemma mb_merge_loop_eq:
  assumes "table_fits t" "i \<le> mbt_cnt t" "position (region_touches b f) (drop i (used t)) = Some k"
  shows "memblock_merge_loop t b f i =
    (let r = used t ! (i + k);
         new_base = min (mr_base r) b;
         r' = r\<lparr>mr_base := new_base, mr_size := max (region_end r) f - new_base\<rparr>
     in map_option (Pair (Inr ())) (memblock_merge_adjacent
          (t\<lparr>mbt_regions := (mbt_regions t)[i + k := r'], mbt_total := mbt_total t - mr_size r + mr_size r'\<rparr>) (i + k)))"
  using assms
proof (induction k arbitrary: i)
  case 0
  then have i: "i < mbt_cnt t" using position_SomeD(1) [OF 0(3)] used_length [OF 0(1)] by simp
  have "region_touches b f (used t ! i)"
    using position_SomeD(2) [OF 0(3)] i used_length [OF 0(1)] by simp
  moreover have "i < length (mbt_regions t)" using i 0(1) by (simp add: table_fits_def)
  ultimately show ?case
    using i used_nth [OF 0(1) i] by (subst memblock_merge_loop.simps) (auto simp: Let_def vec_set_def split: Option.bind_splits)
next
  case (Suc k)
  then have i: "i < mbt_cnt t" using position_SomeD(1) [OF Suc.prems(3)] used_length [OF Suc.prems(1)] by simp
  have d: "drop i (used t) = used t ! i # drop (Suc i) (used t)"
    using i used_length [OF Suc.prems(1)] by (simp add: Cons_nth_drop_Suc)
  have "\<not> region_touches b f (used t ! i)" "position (region_touches b f) (drop (Suc i) (used t)) = Some k"
    using Suc.prems(3) d by (auto split: if_splits)
  then show ?case
    using Suc.IH [of "Suc i"] Suc.prems(1) i used_nth [OF Suc.prems(1) i]
    by (subst memblock_merge_loop.simps) simp
qed

text \<open>Where a region lies relative to one that it does not touch.\<close>

lemma untouched_side:
  assumes "reg_ok r" "\<not> region_touches b f r" "unat b < unat f"
  shows "if b < mr_base r then unat f < rb r else rf r < unat b"
  using assms(2,3) touches_nat [OF assms(1), of b f] reg_pos [OF assms(1)] by (auto simp: word_less_nat_alt)

lemma first_stop:
  assumes ok: "regs_ok rs" and bf: "unat b < unat f" and p: "position (\<lambda>r. region_touches b f r \<or> b < mr_base r) rs = Some k"
  shows "\<forall>r \<in> set (take k rs). rf r < unat b"
    "region_touches b f (rs ! k) \<Longrightarrow> position (region_touches b f) rs = Some k"
    "\<not> region_touches b f (rs ! k) \<Longrightarrow> \<forall>r \<in> set (drop k rs). unat f < rb r"
proof -
  note k = position_SomeD [OF p]
  have reg: "reg_ok (rs ! j)" if "j < length rs" for j using ok that by (simp add: regs_ok_def)
  show "\<forall>r \<in> set (take k rs). rf r < unat b"
  proof
    fix r assume "r \<in> set (take k rs)"
    then obtain j where "j < k" "r = rs ! j" using k(1) by (auto simp: in_set_conv_nth)
    then show "rf r < unat b"
      using untouched_side [OF reg _ bf, of j] k(1,3) by auto
  qed
  show "position (region_touches b f) rs = Some k" if "region_touches b f (rs ! k)"
    using k that by (simp add: position_eq_Some_iff)
  show "\<forall>r \<in> set (drop k rs). unat f < rb r" if "\<not> region_touches b f (rs ! k)"
  proof -
    have "unat f < rb (rs ! k)" using k(2) that untouched_side [OF reg [OF k(1)] that bf] by simp
    moreover have "rf (rs ! k) < rb r" if "r \<in> set (drop (Suc k) rs)" for r
      using that regs_ok_around(2) [OF ok k(1)] by blast
    moreover have "drop k rs = rs ! k # drop (Suc k) rs" using k(1) by (simp add: Cons_nth_drop_Suc)
    ultimately show ?thesis by fastforce
  qed
qed

lemma add_insert:
  fixes fl :: MemblockFlags and b s :: u64
  assumes ok: "table_ok t" and room: "mbt_cnt t < mbt_max t" and k: "k \<le> mbt_cnt t"
    and low: "\<forall>r \<in> set (take k (used t)). rf r < unat b" and high: "\<forall>r \<in> set (drop k (used t)). unat b + unat s < rb r"
    and s: "s \<noteq> 0" "unat b + unat s < 2 ^ 64"
  defines "r \<equiv> \<lparr>mr_base = b, mr_size = s, mr_flags = fl\<rparr>"
  shows "\<exists>rs1 rs2. shift_right (mbt_regions t) k (mbt_cnt t) = Some rs1 \<and> vec_set rs1 k r = Some rs2 \<and>
    (let t' = t\<lparr>mbt_regions := rs2, mbt_cnt := mbt_cnt t + 1, mbt_total := mbt_total t + s\<rparr>
     in table_ok t' \<and> cover (used t') = cover (used t) \<union> {unat b..<unat b + unat s})"
proof -
  have fits: "table_fits t" and regs: "regs_ok (used t)" and sl: "slack t = 0"
    using ok by (auto simp: table_ok_iff)
  have "mbt_cnt t < length (mbt_regions t)" using room fits by (simp add: table_fits_def)
  then obtain rs1 rs2 where rs: "shift_right (mbt_regions t) k (mbt_cnt t) = Some rs1" "vec_set rs1 k r = Some rs2"
      "length rs2 = length (mbt_regions t)" "take (Suc (mbt_cnt t)) rs2 = take k (used t) @ r # drop k (used t)"
    using array_insert [OF k, of "mbt_regions t" r] by (auto simp: used_def)
  let ?t = "t\<lparr>mbt_regions := rs2, mbt_cnt := mbt_cnt t + 1, mbt_total := mbt_total t + s\<rparr>"
  have u: "used ?t = take k (used t) @ r # drop k (used t)" using rs(4) by (simp add: used_def)
  note parts = regs_ok_take_drop [OF regs, of k]
  have "table_fits ?t" using fits rs(3) room by (simp add: table_fits_def)
  moreover have "regs_ok (used ?t)"
    unfolding u using parts low high s by (auto simp: r_def reg_ok_def)
  moreover have "slack ?t = 0"
    using sl sum_take_drop [of mr_size "used t" k] unfolding slack_def u by (simp add: r_def algebra_simps)
  moreover have "cover (used ?t) = cover (used t) \<union> {unat b..<unat b + unat s}"
    unfolding u using cover_take_drop [of "used t" k] by (auto simp: r_def)
  ultimately show ?thesis using rs(1,2) by (auto simp: table_ok_iff Let_def)
qed


lemma add_merge:
  assumes ok: "table_ok t" and k: "position (region_touches b f) (used t) = Some k"
    and low: "\<forall>r \<in> set (take k (used t)). rf r < unat b" and bf: "unat b < unat f"
  shows "\<exists>t'. memblock_merge_loop t b f 0 = Some (Inr (), t') \<and> table_ok t' \<and>
    cover (used t') = cover (used t) \<union> {unat b..<unat f}"
proof -
  have fits: "table_fits t" and regs: "regs_ok (used t)" and sl: "slack t = 0"
    using ok by (auto simp: table_ok_iff)
  note len = used_length [OF fits] and p = position_SomeD [OF k]
  let ?r = "used t ! k" and ?L = "take k (used t)" and ?R = "drop (Suc k) (used t)"
  let ?nb = "min (mr_base ?r) b"
  let ?r' = "?r\<lparr>mr_base := ?nb, mr_size := max (region_end ?r) f - ?nb\<rparr>"
  let ?t = "t\<lparr>mbt_regions := (mbt_regions t)[k := ?r'], mbt_total := mbt_total t - mr_size ?r + mr_size ?r'\<rparr>"
  have kc: "k < mbt_cnt t" using p(1) len by simp
  note parts = regs_ok_take_drop(1) [OF regs, of k] regs_ok_take_drop(2) [OF regs, of "Suc k"]
    regs_ok_around [OF regs p(1)]
  have touch: "rb ?r \<le> unat f" "unat b \<le> rf ?r" using p(2) touches_nat [OF parts(3)] by auto
  have r': "rb ?r' = min (rb ?r) (unat b)" "rf ?r' = max (rf ?r) (unat f)" "mr_size ?r' \<noteq> 0"
    using reg_between [of ?nb "max (region_end ?r) f"] reg_end [OF parts(3)] reg_pos [OF parts(3)] bf
    by (simp_all add: unat_max_u64 unat_min_u64 min_less_iff_disj less_max_iff_disj)
  have ok': "reg_ok ?r'" using r' parts(3) by (simp add: reg_ok_def)
  have R: "\<forall>x \<in> set ?R. rb ?r' \<le> rb x" using parts(4) r'(1) reg_pos [OF parts(3)] by fastforce
  have L: "\<forall>x \<in> set ?L. rf x < rb ?r'" using parts(5) low r'(1) by auto
  have fits': "table_fits ?t" using fits by (simp add: table_fits_def)
  have u: "used ?t = ?L @ ?r' # ?R"
    using used_update [OF kc] upd_conv_take_nth_drop [OF p(1)] by simp
  have sl': "slack ?t = 0"
    using sl sum_sizes_middle [OF p(1)] unfolding slack_def u by (simp add: algebra_simps)
  obtain t' where t': "memblock_merge_adjacent ?t k = Some t'" "table_fits t'" "slack t' = 0"
      "used t' = ?L @ absorb ?r' ?R"
    using merge_adjacent_eq [OF fits', of k] kc sl' p(1) unfolding u by (auto simp: nth_append)
  note ab = absorb_spec [OF ok' parts(2) R]
  have "regs_ok (used t')"
    unfolding t'(4) using ab parts(1) L by fastforce
  moreover have "{min (rb ?r) (unat b)..<max (rf ?r) (unat f)} = {rb ?r..<rf ?r} \<union> {unat b..<unat f}"
    using touch bf reg_pos [OF parts(3)] by auto
  then have "{rb ?r'..<rf ?r'} = {rb ?r..<rf ?r} \<union> {unat b..<unat f}"
    by (subst r'(2), subst r'(1))
  then have "cover (used t') = cover (used t) \<union> {unat b..<unat f}"
    unfolding t'(4) using ab cover_around [OF p(1)] by auto
  ultimately show ?thesis
    using mb_merge_loop_eq [OF fits, of 0 b f k] k t'(1-3) by (auto simp: table_ok_iff Let_def)
qed

text \<open>
  Adding a range to a well-formed table: the result is well formed and covers the union; the only
  errors are an end beyond the address space and a full table with nothing to merge with.
\<close>

lemma add_range_spec:
  assumes ok: "table_ok t"
  shows "\<exists>r t'. memblock_add_range t b s fl = Some (r, t') \<and> table_ok t' \<and>
    (case r of
       Inr _ \<Rightarrow> cover (used t') = cover (used t) \<union> {unat b..<unat b + unat s} \<and> (s = 0 \<or> unat b + unat s < 2 ^ 64)
     | Inl e \<Rightarrow> t' = t \<and> s \<noteq> 0 \<and>
         (e = InvalidAddress \<and> 2 ^ 64 \<le> unat b + unat s \<or>
          e = NoMemory \<and> mbt_cnt t = mbt_max t \<and> cover (used t) \<inter> {unat b..<unat b + unat s} = {}))"
proof -
  have fits: "table_fits t" and regs: "regs_ok (used t)"
    using ok by (auto simp: table_ok_iff)
  consider (zero) "s = 0" | (over) "s \<noteq> 0" "2 ^ 64 \<le> unat b + unat s" | (add) "s \<noteq> 0" "unat b + unat s < 2 ^ 64"
    by linarith
  then show ?thesis
  proof cases
    case zero
    then show ?thesis using ok by (simp add: memblock_add_range_def)
  next
    case over
    then show ?thesis using ok by (simp add: memblock_add_range_def u64_checked_add_def)
  next
    case add
    let ?f = "b + s"
    have f: "u64_checked_add b s = Some ?f" "unat ?f = unat b + unat s" "unat b < unat ?f"
      using add by (auto simp: u64_checked_add_def unat_add_no_wrap unat_gt_0)
    let ?P = "\<lambda>r. region_touches b ?f r \<or> b < mr_base r"
    note pos = insert_pos_eq [OF fits, of 0 b ?f, simplified]
    have fresh: ?thesis if k: "k \<le> mbt_cnt t" "memblock_insert_pos t b ?f 0 = Some (Inr k)"
        "\<forall>r \<in> set (take k (used t)). rf r < unat b" "\<forall>r \<in> set (drop k (used t)). unat b + unat s < rb r" for k
    proof (cases "mbt_cnt t < mbt_max t")
      case True
      then show ?thesis
        using add_insert [OF ok True k(1,3,4) add, of fl] f(1) k(2) add
        by (auto simp: memblock_add_range_def Let_def)
    next
      case False
      have "cover (used t) \<inter> {unat b..<unat b + unat s} = {}"
        unfolding cover_take_drop [of "used t" k] using k(3,4) by (fastforce simp: cover_def)
      then show ?thesis
        using False k(2) f(1) add ok fits by (auto simp: memblock_add_range_def table_fits_def)
    qed
    show ?thesis
    proof (cases "position ?P (used t)")
      case None
      have "rf r < unat b" if "r \<in> set (used t)" for r
        using None that untouched_side [of r b ?f] f(3) regs by (auto simp: position_None_iff regs_ok_def)
      then show ?thesis
        using fresh [of "mbt_cnt t"] pos None used_length [OF fits] by simp
    next
      case (Some k)
      note stop = first_stop [OF regs f(3) Some] and kl = position_SomeD(1) [OF Some]
      show ?thesis
      proof (cases "region_touches b ?f (used t ! k)")
        case True
        then show ?thesis
          using add_merge [OF ok stop(2) stop(1) f(3)] pos Some f(1,2) add
          by (auto simp: memblock_add_range_def memblock_merge_regions_def)
      next
        case False
        then show ?thesis
          using fresh [of k] pos Some stop(1) stop(3) kl used_length [OF fits] f(2) by simp
      qed
    qed
  qed
qed


section \<open>Removing a range\<close>

text \<open>What the removal leaves of one region, and the region it would have to split.\<close>

definition is_hole :: "u64 \<Rightarrow> u64 \<Rightarrow> MemblockRegion \<Rightarrow> bool" where
  "is_hole b f r \<longleftrightarrow> mr_base r < b \<and> f < region_end r"

definition cut_region :: "u64 \<Rightarrow> u64 \<Rightarrow> MemblockRegion \<Rightarrow> MemblockRegion list" where
  "cut_region b f r =
     (if f \<le> mr_base r \<or> region_end r \<le> b then [r]
      else if b \<le> mr_base r \<and> region_end r \<le> f then []
      else if is_hole b f r then
        [r\<lparr>mr_size := b - mr_base r\<rparr>, \<lparr>mr_base = f, mr_size = region_end r - f, mr_flags = mr_flags r\<rparr>]
      else if b \<le> mr_base r then [r\<lparr>mr_base := f, mr_size := mr_size r - (f - mr_base r)\<rparr>]
      else [r\<lparr>mr_size := mr_size r - (region_end r - b)\<rparr>])"

lemma cut_spec:
  assumes r: "reg_ok r" and bf: "unat b < unat f"
  shows "regs_ok (cut_region b f r)" "cover (cut_region b f r) = {rb r..<rf r} - {unat b..<unat f}"
    "\<forall>x \<in> set (cut_region b f r). rb r \<le> rb x \<and> rf x \<le> rf r"
    "(\<Sum>x\<leftarrow>cut_region b f r. mr_size x) = mr_size r -
       (if f \<le> mr_base r \<or> region_end r \<le> b then 0
        else if b \<le> mr_base r \<and> region_end r \<le> f then mr_size r
        else if is_hole b f r then f - b
        else if b \<le> mr_base r then f - mr_base r else region_end r - b)"
proof -
  note e = reg_end [OF r] reg_pos [OF r]
  have lt: "rf r < 2 ^ 64" using r by (simp add: reg_ok_def)
  have up: "mr_size r - (f - mr_base r) = region_end r - f" by (simp add: region_end_def algebra_simps)
  have down: "mr_size r - (region_end r - b) = b - mr_base r" by (simp add: region_end_def algebra_simps)
  note n = word_le_nat_alt word_less_nat_alt e
  consider (out) "f \<le> mr_base r \<or> region_end r \<le> b" | (all) "\<not> (f \<le> mr_base r \<or> region_end r \<le> b)" "b \<le> mr_base r \<and> region_end r \<le> f"
    | (hole) "\<not> (f \<le> mr_base r \<or> region_end r \<le> b)" "is_hole b f r" "\<not> (b \<le> mr_base r \<and> region_end r \<le> f)"
    | (front) "\<not> (f \<le> mr_base r \<or> region_end r \<le> b)" "b \<le> mr_base r" "f < region_end r" "\<not> is_hole b f r"
    | (rest) "\<not> (f \<le> mr_base r \<or> region_end r \<le> b)" "mr_base r < b" "region_end r \<le> f" "\<not> is_hole b f r"
    unfolding is_hole_def not_le [symmetric] by blast
  then have "regs_ok (cut_region b f r) \<and> cover (cut_region b f r) = {rb r..<rf r} - {unat b..<unat f} \<and>
      (\<forall>x \<in> set (cut_region b f r). rb r \<le> rb x \<and> rf x \<le> rf r)"
  proof cases
    case out
    then have "cut_region b f r = [r]" by (simp add: cut_region_def)
    then show ?thesis using r out by (auto simp: n)
  next
    case all
    then have "cut_region b f r = []" by (simp add: cut_region_def)
    then show ?thesis using bf all by (auto simp: n)
  next
    case hole
    then have c: "cut_region b f r =
        [r\<lparr>mr_size := b - mr_base r\<rparr>, \<lparr>mr_base = f, mr_size = region_end r - f, mr_flags = mr_flags r\<rparr>]"
      by (simp add: cut_region_def)
    have "rb r < unat b" "unat f < rf r" using hole by (auto simp: is_hole_def n)
    then show ?thesis
      unfolding c using bf lt reg_between [of "mr_base r" b] reg_between [of f "region_end r"] e
      by (auto simp: reg_ok_def)
  next
    case front
    then have c: "cut_region b f r = [r\<lparr>mr_base := f, mr_size := region_end r - f\<rparr>]"
      using up by (simp add: cut_region_def)
    have "unat b \<le> rb r" "unat f < rf r" "rb r < unat f" using front by (auto simp: n)
    then show ?thesis
      unfolding c using lt reg_between [of f "region_end r"] e by (auto simp: reg_ok_def)
  next
    case rest
    then have c: "cut_region b f r = [r\<lparr>mr_size := b - mr_base r\<rparr>]"
      using down by (simp add: cut_region_def)
    have "rb r < unat b" "rf r \<le> unat f" "unat b < rf r" using rest by (auto simp: n)
    then show ?thesis
      unfolding c using lt reg_between [of "mr_base r" b] e by (auto simp: reg_ok_def)
  qed
  then show "regs_ok (cut_region b f r)" "cover (cut_region b f r) = {rb r..<rf r} - {unat b..<unat f}"
    "\<forall>x \<in> set (cut_region b f r). rb r \<le> rb x \<and> rf x \<le> rf r" by blast+
  show "(\<Sum>x\<leftarrow>cut_region b f r. mr_size x) = mr_size r -
       (if f \<le> mr_base r \<or> region_end r \<le> b then 0
        else if b \<le> mr_base r \<and> region_end r \<le> f then mr_size r
        else if is_hole b f r then f - b
        else if b \<le> mr_base r then f - mr_base r else region_end r - b)"
    by (simp add: cut_region_def region_end_def)
qed

lemma cut_list_spec:
  "regs_ok rs \<Longrightarrow> unat b < unat f \<Longrightarrow>
   regs_ok (concat (map (cut_region b f) rs)) \<and> cover (concat (map (cut_region b f) rs)) = cover rs - {unat b..<unat f} \<and>
   (\<forall>x \<in> set (concat (map (cut_region b f) rs)). \<exists>r \<in> set rs. rb r \<le> rb x)"
proof (induction rs)
  case (Cons r rs)
  have r: "reg_ok r" "\<forall>x \<in> set rs. rf r < rb x" using Cons.prems by auto
  note c = cut_spec [OF r(1) Cons.prems(2)]
  have "rf x < rb y" if x: "x \<in> set (cut_region b f r)" and y: "y \<in> set (concat (map (cut_region b f) rs))" for x y
  proof -
    have "\<exists>q \<in> set rs. rb q \<le> rb y" using Cons.IH Cons.prems y by simp blast
    then obtain q where "q \<in> set rs" "rb q \<le> rb y" by blast
    then show ?thesis using r(2) c(3) x by fastforce
  qed
  then show ?case using Cons c by auto
qed simp


text \<open>A hole is the only region that the range meets.\<close>

lemma no_hole_after:
  assumes "regs_ok (r # rs)" "unat b < unat f" "\<not> (f \<le> mr_base r \<or> region_end r \<le> b)" "\<not> is_hole b f r"
  shows "\<forall>x \<in> set rs. \<not> is_hole b f x"
  using assms reg_end [of r] by (auto simp: is_hole_def word_le_nat_alt word_less_nat_alt not_le not_less dest!: bspec)

lemma drop_nth: "i < length xs \<Longrightarrow> drop i xs = xs ! i # drop (Suc i) xs"
  by (simp add: Cons_nth_drop_Suc)

definition removed_ok :: "MemblockType \<Rightarrow> u64 \<Rightarrow> u64 \<Rightarrow> nat \<Rightarrow> (unit KernelResult \<times> MemblockType) option \<Rightarrow> bool" where
  "removed_ok t b f i res \<longleftrightarrow>
     (if mbt_max t \<le> mbt_cnt t \<and> (\<exists>r \<in> set (drop i (used t)). is_hole b f r) then res = Some (Inl NoMemory, t)
      else \<exists>t'. res = Some (Inr (), t') \<and> table_fits t' \<and> slack t' = slack t \<and>
        used t' = take i (used t) @ concat (map (cut_region b f) (drop i (used t))))"

lemma removed_ok_step:
  assumes fits: "table_fits t" and i: "i < mbt_cnt t" and step: "removed_ok t1 b f j res"
    and t1: "slack t1 = slack t" "mbt_max t1 = mbt_max t"
      "take j (used t1) = take i (used t) @ cut_region b f (used t ! i)" "drop j (used t1) = drop (Suc i) (used t)"
    and no: "t1 = t \<and> \<not> is_hole b f (used t ! i) \<or>
      (\<forall>r \<in> set (drop (Suc i) (used t)). \<not> is_hole b f r) \<and> \<not> (mbt_max t \<le> mbt_cnt t \<and> is_hole b f (used t ! i))"
  shows "removed_ok t b f i res"
proof -
  have d: "drop i (used t) = used t ! i # drop (Suc i) (used t)"
    using i used_length [OF fits] by (simp add: drop_nth)
  show ?thesis
  proof (cases "t1 = t \<and> \<not> is_hole b f (used t ! i)")
    case True
    then show ?thesis
      using step t1(3,4) unfolding removed_ok_def d by (cases "mbt_max t \<le> mbt_cnt t") (auto split: if_splits)
  next
    case False
    then have "\<not> (mbt_max t \<le> mbt_cnt t \<and> (\<exists>r \<in> set (drop i (used t)). is_hole b f r))"
        "\<not> (\<exists>r \<in> set (drop j (used t1)). is_hole b f r)"
      using no d t1(4) by auto
    then show ?thesis
      using step t1 d unfolding removed_ok_def by auto
  qed
qed

lemma regs_ok_cut:
  assumes "regs_ok rs" "i < length rs" "unat b < unat f"
  shows "regs_ok (take i rs @ cut_region b f (rs ! i) @ drop (Suc i) rs)"
proof -
  note a = regs_ok_around [OF assms(1,2)]
  note c = cut_spec [OF a(1) assms(3)]
  have "rf x < rb y" if "x \<in> set (take i rs)" "y \<in> set (cut_region b f (rs ! i))" for x y
    using a(3) c(3) that by fastforce
  moreover have "rf x < rb y" if "x \<in> set (cut_region b f (rs ! i))" "y \<in> set (drop (Suc i) rs)" for x y
    using a(2) c(3) that by fastforce
  ultimately show ?thesis
    using c(1) a(4) regs_ok_take_drop(1) [OF assms(1), of i] regs_ok_take_drop(2) [OF assms(1), of "Suc i"] by auto
qed

text \<open>One round of the loop that met the region \<open>i\<close> and replaced it by what is left of it.\<close>

lemma remove_round:
  assumes fits: "table_fits t" and regs: "regs_ok (used t)" and i: "i < mbt_cnt t" and bf: "unat b < unat f"
    and meet: "\<not> (f \<le> mr_base (used t ! i) \<or> region_end (used t ! i) \<le> b)"
    and room: "\<not> (mbt_max t \<le> mbt_cnt t \<and> is_hole b f (used t ! i))"
    and u: "used t1 = take i (used t) @ cut_region b f (used t ! i) @ drop (Suc i) (used t)"
    and total: "mbt_total t1 = mbt_total t - mr_size (used t ! i) + (\<Sum>x\<leftarrow>cut_region b f (used t ! i). mr_size x)"
    and mx: "mbt_max t1 = mbt_max t"
  shows "regs_ok (used t1)" "removed_ok t1 b f (i + length (cut_region b f (used t ! i))) res \<Longrightarrow> removed_ok t b f i res"
proof -
  let ?c = "cut_region b f (used t ! i)"
  have il: "i < length (used t)" using i used_length [OF fits] by simp
  show "regs_ok (used t1)" unfolding u by (rule regs_ok_cut [OF regs il bf])
  assume step: "removed_ok t1 b f (i + length ?c) res"
  show "removed_ok t b f i res"
  proof (rule removed_ok_step [OF fits i step _ mx])
    show "slack t1 = slack t"
      unfolding slack_def u total using sum_sizes_middle [OF il] by (simp add: algebra_simps)
    show "take (i + length ?c) (used t1) = take i (used t) @ ?c" "drop (i + length ?c) (used t1) = drop (Suc i) (used t)"
      unfolding u using il by (simp_all add: min_def)
    show "t1 = t \<and> \<not> is_hole b f (used t ! i) \<or>
        (\<forall>r \<in> set (drop (Suc i) (used t)). \<not> is_hole b f r) \<and> \<not> (mbt_max t \<le> mbt_cnt t \<and> is_hole b f (used t ! i))"
    proof (cases "is_hole b f (used t ! i)")
      case True
      have "\<not> is_hole b f r" if "r \<in> set (drop (Suc i) (used t))" for r
        using True that regs_ok_around(1,2) [OF regs il] reg_end [of "used t ! i"] bf
        by (auto simp: is_hole_def word_less_nat_alt dest!: bspec)
      then show ?thesis using room by blast
    next
      case False
      have "regs_ok (used t ! i # drop (Suc i) (used t))"
        using regs_ok_take_drop(2) [OF regs, of i] drop_nth [OF il] by simp
      then show ?thesis using no_hole_after [OF _ bf meet False] room by blast
    qed
  qed
qed

text \<open>The state after such a round.\<close>

definition cut_at :: "u64 \<Rightarrow> u64 \<Rightarrow> u64 \<Rightarrow> nat \<Rightarrow> MemblockType \<Rightarrow> MemblockType \<Rightarrow> bool" where
  "cut_at b s f i t t1 \<longleftrightarrow> table_fits t1 \<and> mbt_max t1 = mbt_max t \<and>
     used t1 = take i (used t) @ cut_region b f (used t ! i) @ drop (Suc i) (used t) \<and>
     mbt_total t1 = mbt_total t - mr_size (used t ! i) + (\<Sum>x\<leftarrow>cut_region b f (used t ! i). mr_size x) \<and>
     memblock_remove_loop t b s f i = memblock_remove_loop t1 b s f (i + length (cut_region b f (used t ! i)))"

lemma cut_at_all:
  assumes fits: "table_fits t" and i: "i < mbt_cnt t" and meet: "\<not> (f \<le> mr_base (used t ! i) \<or> region_end (used t ! i) \<le> b)"
    and all: "b \<le> mr_base (used t ! i) \<and> region_end (used t ! i) \<le> f"
  shows "\<exists>t1. cut_at b s f i t t1"
proof -
  let ?r = "used t ! i"
  have n: "i < mbt_cnt t" "mbt_cnt t \<le> length (mbt_regions t)" using i fits by (auto simp: table_fits_def)
  obtain rs1 where rs1: "shift_left (mbt_regions t) i (mbt_cnt t - 1) = Some rs1" "length rs1 = length (mbt_regions t)"
      "take (mbt_cnt t - 1) rs1 = take i (used t) @ drop (Suc i) (used t)"
    using array_delete [OF n] by (auto simp: used_def)
  let ?t = "t\<lparr>mbt_regions := rs1, mbt_cnt := mbt_cnt t - 1, mbt_total := mbt_total t - mr_size ?r\<rparr>"
  have c: "cut_region b f ?r = []" using meet all by (simp add: cut_region_def)
  have "used ?t = take i (used t) @ drop (Suc i) (used t)"
    using rs1(3) by (simp add: used_def)
  moreover have "table_fits ?t" using fits rs1(2) by (auto simp: table_fits_def)
  moreover have "memblock_remove_loop t b s f i = memblock_remove_loop ?t b s f i"
    using i used_nth [OF fits i] meet all rs1(1) by (subst memblock_remove_loop.simps) (simp add: Let_def)
  ultimately have "cut_at b s f i t ?t" by (simp add: cut_at_def c)
  then show ?thesis by blast
qed

lemma cut_at_hole:
  assumes fits: "table_fits t" and i: "i < mbt_cnt t" and meet: "\<not> (f \<le> mr_base (used t ! i) \<or> region_end (used t ! i) \<le> b)"
    and hole: "\<not> (b \<le> mr_base (used t ! i) \<and> region_end (used t ! i) \<le> f)" "is_hole b f (used t ! i)" "mbt_cnt t < mbt_max t"
    and s: "s = f - b"
  shows "\<exists>t1. cut_at b s f i t t1"
proof -
  let ?r = "used t ! i"
  let ?r1 = "?r\<lparr>mr_size := b - mr_base ?r\<rparr>"
  let ?r2 = "\<lparr>mr_base = f, mr_size = region_end ?r - f, mr_flags = mr_flags ?r\<rparr>"
  let ?rs = "(mbt_regions t)[i := ?r1]"
  have il: "i < length (used t)" "i < length (mbt_regions t)" using i used_length [OF fits] fits by (auto simp: table_fits_def)
  have n: "Suc i \<le> mbt_cnt t" "mbt_cnt t < length ?rs" using i fits hole(3) by (auto simp: table_fits_def)
  obtain rs1 rs2 where rs: "shift_right ?rs (Suc i) (mbt_cnt t) = Some rs1" "vec_set rs1 (Suc i) ?r2 = Some rs2"
      "length rs2 = length ?rs"
      "take (Suc (mbt_cnt t)) rs2 = take (Suc i) (take (mbt_cnt t) ?rs) @ ?r2 # drop (Suc i) (take (mbt_cnt t) ?rs)"
    using array_insert [OF n, of ?r2] by blast
  let ?t = "t\<lparr>mbt_regions := rs2, mbt_cnt := mbt_cnt t + 1, mbt_total := mbt_total t - s\<rparr>"
  have c: "cut_region b f ?r = [?r1, ?r2]" using meet hole(1,2) by (simp add: cut_region_def)
  have "take (mbt_cnt t) ?rs = take i (used t) @ ?r1 # drop (Suc i) (used t)"
    using upd_conv_take_nth_drop [OF il(1), of ?r1] by (simp add: used_def take_update_swap)
  then have "used ?t = take i (used t) @ [?r1, ?r2] @ drop (Suc i) (used t)"
    using rs(4) il by (simp add: used_def)
  moreover have "mbt_total ?t = mbt_total t - mr_size ?r + (\<Sum>x\<leftarrow>[?r1, ?r2]. mr_size x)"
    using s by (simp add: region_end_def)
  moreover have "table_fits ?t" using fits rs(3) hole(3) by (auto simp: table_fits_def)
  moreover have "memblock_remove_loop t b s f i = memblock_remove_loop ?t b s f (Suc (Suc i))"
    using i il(2) used_nth [OF fits i] meet hole rs(1,2)
    by (subst memblock_remove_loop.simps) (auto simp: Let_def is_hole_def vec_set_def)
  ultimately have "cut_at b s f i t ?t" unfolding cut_at_def c by simp
  then show ?thesis by blast
qed

lemma cut_at_end:
  assumes fits: "table_fits t" and i: "i < mbt_cnt t" and meet: "\<not> (f \<le> mr_base (used t ! i) \<or> region_end (used t ! i) \<le> b)"
    and part: "\<not> (b \<le> mr_base (used t ! i) \<and> region_end (used t ! i) \<le> f)" "\<not> is_hole b f (used t ! i)"
  shows "\<exists>t1. cut_at b s f i t t1"
proof -
  let ?r = "used t ! i"
  define d where "d = (if b \<le> mr_base ?r then f - mr_base ?r else region_end ?r - b)"
  define r' where "r' = (if b \<le> mr_base ?r then ?r\<lparr>mr_base := f, mr_size := mr_size ?r - d\<rparr> else ?r\<lparr>mr_size := mr_size ?r - d\<rparr>)"
  let ?t = "t\<lparr>mbt_regions := (mbt_regions t)[i := r'], mbt_total := mbt_total t - d\<rparr>"
  have il: "i < length (used t)" "i < length (mbt_regions t)" using i used_length [OF fits] fits by (auto simp: table_fits_def)
  have c: "cut_region b f ?r = [r']" using meet part by (auto simp: cut_region_def r'_def d_def)
  have "used ?t = take i (used t) @ [r'] @ drop (Suc i) (used t)"
    using used_update [OF i] upd_conv_take_nth_drop [OF il(1), of r'] by simp
  moreover have "mr_size r' = mr_size ?r - d" by (simp add: r'_def)
  moreover have "table_fits ?t" using fits by (simp add: table_fits_def)
  moreover have "memblock_remove_loop t b s f i = memblock_remove_loop ?t b s f (Suc i)"
    using i il(2) used_nth [OF fits i] meet part
    by (subst memblock_remove_loop.simps) (auto simp: Let_def is_hole_def vec_set_def r'_def d_def)
  ultimately have "cut_at b s f i t ?t" by (simp add: cut_at_def c)
  then show ?thesis by blast
qed

lemma remove_loop_eq:
  "table_fits t \<Longrightarrow> regs_ok (used t) \<Longrightarrow> i \<le> mbt_cnt t \<Longrightarrow> unat b < unat f \<Longrightarrow> s = f - b \<Longrightarrow>
   removed_ok t b f i (memblock_remove_loop t b s f i)"
proof (induction "mbt_cnt t - i" arbitrary: t i rule: less_induct)
  case less
  note fits = less.prems(1) and regs = less.prems(2) and bf = less.prems(4)
  note len = used_length [OF fits]
  show ?case
  proof (cases "i < mbt_cnt t")
    case False
    then show ?thesis
      using fits len less.prems(3) by (subst memblock_remove_loop.simps) (simp add: removed_ok_def)
  next
    case i: True
    let ?r = "used t ! i"
    have il: "i < length (used t)" using i len by simp
    note get = used_nth [OF fits i]
    show ?thesis
    proof (cases "f \<le> mr_base ?r \<or> region_end ?r \<le> b")
      case True
      have "removed_ok t b f (Suc i) (memblock_remove_loop t b s f (Suc i))"
        using less.hyps [of t "Suc i"] less.prems i by simp
      moreover have "memblock_remove_loop t b s f i = memblock_remove_loop t b s f (Suc i)"
        using i True get by (subst memblock_remove_loop.simps) auto
      moreover have "cut_region b f ?r = [?r]" "\<not> is_hole b f ?r"
        using True bf by (auto simp: cut_region_def is_hole_def word_le_nat_alt word_less_nat_alt)
      ultimately show ?thesis
        using removed_ok_step [OF fits i, of t b f "Suc i"] il by (simp add: take_Suc_conv_app_nth)
    next
      case meet: False
      show ?thesis
      proof (cases "mbt_max t \<le> mbt_cnt t \<and> is_hole b f ?r")
        case True
        then have "memblock_remove_loop t b s f i = Some (Inl NoMemory, t)"
          using i get meet by (subst memblock_remove_loop.simps) (auto simp: Let_def is_hole_def)
        moreover have "?r \<in> set (drop i (used t))" using drop_nth [OF il] by simp
        ultimately show ?thesis using True unfolding removed_ok_def by auto
      next
        case room: False
        then obtain t1 where t1: "cut_at b s f i t t1"
          using cut_at_all [OF fits i meet] cut_at_hole [OF fits i meet _ _ _ less.prems(5)] cut_at_end [OF fits i meet]
          by (meson not_le)
        note t1' = t1 [unfolded cut_at_def]
        note rd = remove_round [OF fits regs i bf meet room, of t1]
        let ?k = "length (cut_region b f ?r)"
        have "length (used t1) = i + ?k + (mbt_cnt t - Suc i)" using t1' len i by simp
        then have cnt: "mbt_cnt t1 = i + ?k + (mbt_cnt t - Suc i)" using t1' used_length [of t1] by simp
        have "removed_ok t1 b f (i + ?k) (memblock_remove_loop t1 b s f (i + ?k))"
          using less.hyps [of t1 "i + ?k"] t1' rd(1) bf less.prems(5) cnt i by simp
        then show ?thesis using rd(2) t1' by simp
      qed
    qed
  qed
qed

text \<open>
  Removing a range from a well-formed table: the result is well formed and covers the difference.
  The only error is a full table whose region would have to be split; then nothing changes.
\<close>

lemma remove_range_spec:
  assumes ok: "table_ok t" and fit: "unat b + unat s < 2 ^ 64"
  shows "\<exists>r t'. memblock_remove_range t b s = Some (r, t') \<and> table_ok t' \<and>
    (case r of
       Inr _ \<Rightarrow> cover (used t') = cover (used t) - {unat b..<unat b + unat s}
     | Inl e \<Rightarrow> t' = t \<and> e = NoMemory \<and> mbt_cnt t = mbt_max t)"
proof (cases "s = 0")
  case True
  then show ?thesis using ok by (simp add: memblock_remove_range_def)
next
  case False
  have fits: "table_fits t" and regs: "regs_ok (used t)" and sl: "slack t = 0"
    using ok by (auto simp: table_ok_iff)
  have f: "unat (b + s) = unat b + unat s" "unat b < unat (b + s)"
    using fit False by (auto simp: unat_add_no_wrap unat_gt_0)
  have "removed_ok t b (b + s) 0 (memblock_remove_loop t b s (b + s) 0)"
    by (rule remove_loop_eq [OF fits regs _ f(2)]) simp_all
  then show ?thesis
    using False ok fits sl cut_list_spec [OF regs f(2)] f(1)
    by (auto simp: removed_ok_def memblock_remove_range_def table_ok_iff table_fits_def split: if_splits)
qed

end
