(* ===== verification/Word_Align.thy ===== *)
theory Word_Align
  imports Prelude
begin

text \<open>
  Rounding of addresses to a power of two. Every module of the memory manager has its own copy of
  the two mask expressions; the facts here are about the expressions themselves.
\<close>

unbundle bit_operations_syntax

definition is_aligned :: "u64 \<Rightarrow> u64 \<Rightarrow> bool" where
  "is_aligned align a \<longleftrightarrow> unat align dvd unat a"

lemma power_u64:
  assumes "k < 64"
  shows "(2 ^ k :: u64) - 1 = mask k" "unat (2 ^ k :: u64) = 2 ^ k" "unat (mask k :: u64) = 2 ^ k - 1"
proof -
  show m: "(2 ^ k :: u64) - 1 = mask k" by (simp add: mask_eq_exp_minus_1)
  have "(2 :: nat) ^ k < 2 ^ 64" using assms by (intro power_strict_increasing) auto
  then have "take_bit 64 (2 ^ k :: nat) = 2 ^ k" by (rule take_bit_nat_eq_self)
  moreover have "unat (of_nat (2 ^ k) :: u64) = take_bit 64 (2 ^ k)"
    by (simp only: unsigned_of_nat) simp
  ultimately show p: "unat (2 ^ k :: u64) = 2 ^ k" by simp
  have "(1 :: u64) \<le> 2 ^ k" using p by (simp add: word_le_nat_alt)
  then have "unat ((2 ^ k :: u64) - 1) = 2 ^ k - 1" using p by (simp add: unat_sub)
  then show "unat (mask k :: u64) = 2 ^ k - 1" by (simp only: m)
qed

lemma unat_and_not_mask: "unat (a AND NOT (mask k) :: u64) = unat a - unat a mod 2 ^ k"
proof -
  have "a AND NOT (mask k) = a - take_bit k a"
  proof -
    have "a - take_bit k a = a AND NOT (take_bit k a)"
      by (rule disjunctive_diff_eq_and_not) (auto intro!: bit_eqI simp: bit_simps)
    also have "\<dots> = a AND NOT (mask k)"
      by (auto intro!: bit_eqI simp: bit_simps)
    finally show ?thesis by simp
  qed
  moreover have "unat (take_bit k a) = unat a mod 2 ^ k"
    by (simp only: unsigned_take_bit_eq) (simp add: take_bit_eq_mod)
  moreover from this have "take_bit k a \<le> a"
    by (simp only: word_le_nat_alt) simp
  ultimately show ?thesis by (simp add: unat_sub)
qed

lemma and_not_mask_le: "(a AND NOT m :: u64) \<le> a"
  by (simp add: word_and_le2)

lemma mask_down:
  assumes "k < 64"
  shows "is_aligned (2 ^ k) (a AND NOT (mask k))"
    "is_aligned (2 ^ k) c \<Longrightarrow> c \<le> a \<Longrightarrow> c \<le> a AND NOT (mask k)"
proof -
  have dm: "unat a - unat a mod 2 ^ k = 2 ^ k * (unat a div 2 ^ k)"
    by (simp add: minus_mod_eq_mult_div)
  show "is_aligned (2 ^ k) (a AND NOT (mask k))"
    using assms by (simp add: is_aligned_def power_u64 unat_and_not_mask dm)
  assume "is_aligned (2 ^ k) c" "c \<le> a"
  then obtain q where q: "unat c = 2 ^ k * q" "unat c \<le> unat a"
    using assms by (auto simp: is_aligned_def power_u64 word_le_nat_alt)
  then have "q \<le> unat a div 2 ^ k"
    by (metis div_le_mono nonzero_mult_div_cancel_left power_not_zero zero_neq_numeral)
  then show "c \<le> a AND NOT (mask k)"
    using q by (simp add: word_le_nat_alt unat_and_not_mask dm)
qed

lemma mask_up:
  assumes k: "k < 64" and fit: "unat a + 2 ^ k \<le> 2 ^ 64"
  shows "is_aligned (2 ^ k) ((a + mask k) AND NOT (mask k))" "a \<le> (a + mask k) AND NOT (mask k)"
    "is_aligned (2 ^ k) c \<Longrightarrow> a \<le> c \<Longrightarrow> (a + mask k) AND NOT (mask k) \<le> c"
    "unat ((a + mask k) AND NOT (mask k)) < unat a + 2 ^ k"
proof -
  have pos: "(1 :: nat) \<le> 2 ^ k" by simp
  have s: "unat (a + mask k) = unat a + (2 ^ k - 1)"
    using fit power_u64(3) [OF k] pos by (simp add: unat_add_no_wrap)
  have md: "(unat a + (2 ^ k - 1)) mod 2 ^ k < 2 ^ k" by simp
  show "is_aligned (2 ^ k) ((a + mask k) AND NOT (mask k))"
    by (rule mask_down(1) [OF k])
  have "unat a \<le> unat a + (2 ^ k - 1) - (unat a + (2 ^ k - 1)) mod 2 ^ k"
    using md pos by linarith
  then show "a \<le> (a + mask k) AND NOT (mask k)"
    by (simp add: word_le_nat_alt unat_and_not_mask s)
  have "unat a + (2 ^ k - 1) - (unat a + (2 ^ k - 1)) mod 2 ^ k < unat a + 2 ^ k"
    using pos by linarith
  then show "unat ((a + mask k) AND NOT (mask k)) < unat a + 2 ^ k"
    by (simp add: unat_and_not_mask s)
  assume c: "is_aligned (2 ^ k) c" "a \<le> c"
  then obtain q where q: "unat c = 2 ^ k * q" "unat a \<le> 2 ^ k * q"
    using k by (auto simp: is_aligned_def power_u64 word_le_nat_alt)
  have "unat a + (2 ^ k - 1) < 2 ^ k * q + 2 ^ k" using q(2) pos by linarith
  then have "unat a + (2 ^ k - 1) < Suc q * 2 ^ k" by (simp add: algebra_simps)
  then have "(unat a + (2 ^ k - 1)) div 2 ^ k \<le> q"
    using less_mult_imp_div_less less_Suc_eq_le by blast
  then show "(a + mask k) AND NOT (mask k) \<le> c"
    using q(1) by (simp add: word_le_nat_alt unat_and_not_mask s minus_mod_eq_mult_div)
qed

end
