(* ===== verification/Memblock_Alloc.thy ===== *)
theory Memblock_Alloc
  imports Memblock_Proofs Word_Align
begin

text \<open>
  Allocation from the boot-time tables and the walk over the free regions, with the properties of
  the component. The two directions of the search share the contract \<open>area_search\<close>.
\<close>

section \<open>Searching one region\<close>

lemma align_down_spec:
  assumes "k < 64"
  shows "is_aligned (2 ^ k) (mb_align_down a (2 ^ k))"
    "is_aligned (2 ^ k) c \<Longrightarrow> c \<le> a \<Longrightarrow> c \<le> mb_align_down a (2 ^ k)"
  using mask_down [OF assms] by (simp_all add: mb_align_down_def power_u64 [OF assms])

lemma align_up_spec:
  assumes k: "k < 64" and fit: "unat a + 2 ^ k \<le> 2 ^ 64"
  shows "is_aligned (2 ^ k) (mb_align_up a (2 ^ k))" "a \<le> mb_align_up a (2 ^ k)"
    "is_aligned (2 ^ k) c \<Longrightarrow> a \<le> c \<Longrightarrow> mb_align_up a (2 ^ k) \<le> c"
proof -
  have "mb_align_up a (2 ^ k) = (a + mask k) AND NOT (mask k)"
    using power_u64 [OF k] by (simp add: mb_align_up_def add_diff_eq [symmetric])
  then show "is_aligned (2 ^ k) (mb_align_up a (2 ^ k))" "a \<le> mb_align_up a (2 ^ k)"
    "is_aligned (2 ^ k) c \<Longrightarrow> a \<le> c \<Longrightarrow> mb_align_up a (2 ^ k) \<le> c"
    using mask_up [OF k fit] by simp_all
qed

text \<open>\<open>area_free rs sz c\<close>: the \<open>sz\<close> addresses from \<open>c\<close> on meet no region.\<close>

definition area_free :: "MemblockRegion list \<Rightarrow> u64 \<Rightarrow> u64 \<Rightarrow> bool" where
  "area_free rs sz c \<longleftrightarrow> cover rs \<inter> {unat c..<unat c + unat sz} = {}"

lemma interval_disjoint:
  "(a :: nat) < b \<Longrightarrow> c < d \<Longrightarrow> {a..<b} \<inter> {c..<d} = {} \<longleftrightarrow> b \<le> c \<or> d \<le> a"
  by (auto simp: Int_atLeastLessThan atLeastLessThan_empty_iff min_le_iff_disj le_max_iff_disj)

lemma area_free_iff:
  assumes "\<forall>r \<in> set rs. reg_ok r" "sz \<noteq> 0"
  shows "area_free rs sz c \<longleftrightarrow> (\<forall>r \<in> set rs. rf r \<le> unat c \<or> unat c + unat sz \<le> rb r)"
proof -
  have "unat c < unat c + unat sz" using assms(2) by (simp add: unat_gt_0)
  then have "{rb r..<rf r} \<inter> {unat c..<unat c + unat sz} = {} \<longleftrightarrow> rf r \<le> unat c \<or> unat c + unat sz \<le> rb r"
      if "r \<in> set rs" for r
    using that assms(1) reg_pos by (intro interval_disjoint) auto
  then show ?thesis unfolding area_free_def cover_def by blast
qed

lemma first_conflict_None:
  assumes "\<forall>r \<in> set rs. reg_ok r" "unat c + unat sz < 2 ^ 64" "sz \<noteq> 0"
  shows "first_conflict rs c (c + sz) = None \<longleftrightarrow> area_free rs sz c"
  unfolding area_free_iff [OF assms(1,3)] using assms(1)
proof (induction rs)
  case (Cons r rs)
  then have "\<not> region_is_empty r" "unat (region_end r) = rf r"
    by (simp_all add: region_is_empty_def reg_ok_def reg_end)
  then show ?case
    using Cons unat_add_no_wrap [OF assms(2)] by (auto simp: word_less_nat_alt not_less)
qed simp

text \<open>
  The downward search: a result is no higher than the candidate and free; every aligned free area
  at or below the candidate, except one at address 0, is at or below the result.
\<close>

lemma top_down_loop_spec:
  assumes rs: "\<forall>r \<in> set rs. reg_ok r" and k: "k < 64" and sz: "sz \<noteq> 0"
  shows "unat c + unat sz < 2 ^ 64 \<Longrightarrow> is_aligned (2 ^ k) c \<Longrightarrow>
    (case top_down_loop rs sz (2 ^ k) start c of
       Some x \<Rightarrow> start \<le> x \<and> x \<le> c \<and> is_aligned (2 ^ k) x \<and> area_free rs sz x \<and>
         (\<forall>y \<le> c. is_aligned (2 ^ k) y \<and> area_free rs sz y \<longrightarrow> y \<le> x)
     | None \<Rightarrow> \<forall>y \<le> c. is_aligned (2 ^ k) y \<and> area_free rs sz y \<and> start \<le> y \<longrightarrow> y = 0)"
proof (induction "unat c" arbitrary: c rule: less_induct)
  case less
  show ?case
  proof (cases "start \<le> c")
    case False
    then have "top_down_loop rs sz (2 ^ k) start c = None" by (subst top_down_loop.simps) simp
    then show ?thesis using False by auto
  next
    case start: True
    show ?thesis
    proof (cases "first_conflict rs c (c + sz)")
      case None
      then have "top_down_loop rs sz (2 ^ k) start c = Some c"
        using start by (subst top_down_loop.simps) simp
      then show ?thesis
        using None start less.prems first_conflict_None [OF rs less.prems(1) sz] by simp
    next
      case (Some res)
      have res: "reg_ok res" "c < region_end res" "res \<in> set rs"
        using first_conflict_Some [OF Some] rs by auto
      let ?c = "mb_align_down (u64_saturating_sub (mr_base res) sz) (2 ^ k)"
      have below: "y \<le> ?c" if "y \<le> c" "is_aligned (2 ^ k) y" "area_free rs sz y" for y
      proof -
        have "unat y < rf res" using that(1) res(1,2) reg_end by (simp add: word_le_nat_alt word_less_nat_alt)
        then have "unat y + unat sz \<le> rb res"
          using that(3) res(3) unfolding area_free_iff [OF rs sz] by fastforce
        then have "y \<le> u64_saturating_sub (mr_base res) sz" by (simp add: word_le_nat_alt unat_saturating_sub)
        then show ?thesis by (rule align_down_spec(2) [OF k that(2)])
      qed
      show ?thesis
      proof (cases "mr_base res = 0 \<or> ?c = 0")
        case True
        then have "top_down_loop rs sz (2 ^ k) start c = None"
          using start Some by (subst top_down_loop.simps) auto
        moreover have "?c = 0"
          using True align_down_le [of "u64_saturating_sub (mr_base res) sz" "2 ^ k"]
          by (auto simp: word_le_nat_alt unat_saturating_sub unat_eq_zero)
        ultimately show ?thesis using below by (auto dest!: below)
      next
        case False
        have lt: "unat ?c < unat c" using top_down_progress [OF Some] False by simp
        have "top_down_loop rs sz (2 ^ k) start c = top_down_loop rs sz (2 ^ k) start ?c"
          using start Some False by (subst top_down_loop.simps) (simp add: word_neq_0_conv [symmetric])
        moreover have "unat ?c + unat sz < 2 ^ 64" using lt less.prems(1) by linarith
        moreover have "?c \<le> c" using lt by (simp add: word_le_nat_alt)
        ultimately show ?thesis
          using less.hyps [OF lt _ align_down_spec(1) [OF k]] below
          by (auto split: option.splits)
      qed
    qed
  qed
qed


text \<open>
  The upward search ends when rounding up the end of a region does not leave the address space: then
  the candidate grows with every conflict. A result is the lowest aligned free area.
\<close>

lemma bottom_up_loop_spec:
  assumes rs: "\<forall>r \<in> set rs. reg_ok r \<and> rf r + 2 ^ k \<le> 2 ^ 64" and k: "k < 64" and sz: "sz \<noteq> 0"
  shows "is_aligned (2 ^ k) c \<Longrightarrow> \<exists>found. bottom_up_loop rs sz (2 ^ k) fin c = Some found \<and>
    (\<forall>x. found = Some x \<longrightarrow> c \<le> x \<and> is_aligned (2 ^ k) x \<and>
      (unat x + unat sz < 2 ^ 64 \<longrightarrow> unat x + unat sz \<le> unat fin \<and> area_free rs sz x))"
proof (induction "2 ^ 64 - unat c" arbitrary: c rule: less_induct)
  case less
  show ?case
  proof (cases "c + sz \<le> fin")
    case False
    then show ?thesis by (subst bottom_up_loop.simps) simp
  next
    case go: True
    show ?thesis
    proof (cases "first_conflict rs c (c + sz)")
      case None
      have "area_free rs sz c" if "unat c + unat sz < 2 ^ 64"
        using None first_conflict_None [OF _ that sz] rs by blast
      moreover have "unat c + unat sz \<le> unat fin" if "unat c + unat sz < 2 ^ 64"
        using go unat_add_no_wrap [OF that] by (simp add: word_le_nat_alt)
      ultimately show ?thesis
        using None go less.prems by (subst bottom_up_loop.simps) simp
    next
      case (Some res)
      have res: "reg_ok res" "c < region_end res" "rf res + 2 ^ k \<le> 2 ^ 64"
        using first_conflict_Some [OF Some] rs by auto
      let ?c = "mb_align_up (region_end res) (2 ^ k)"
      have up: "region_end res \<le> ?c" "is_aligned (2 ^ k) ?c"
        using align_up_spec [OF k] res(1,3) reg_end by simp_all
      have "c < ?c" using res(2) up(1) by (rule less_le_trans)
      then have "2 ^ 64 - unat ?c < 2 ^ 64 - unat c"
        using unat_less_2p64 [of ?c] unfolding word_less_nat_alt by (simp add: diff_less_mono2)
      then obtain found where "bottom_up_loop rs sz (2 ^ k) fin ?c = Some found"
          "\<forall>x. found = Some x \<longrightarrow> ?c \<le> x \<and> is_aligned (2 ^ k) x \<and>
            (unat x + unat sz < 2 ^ 64 \<longrightarrow> unat x + unat sz \<le> unat fin \<and> area_free rs sz x)"
        using less.hyps up(2) by blast
      moreover have "bottom_up_loop rs sz (2 ^ k) fin c = bottom_up_loop rs sz (2 ^ k) fin ?c"
        using go Some by (subst bottom_up_loop.simps) simp
      ultimately show ?thesis
        using \<open>c < ?c\<close> by (intro exI [of _ found]) (auto intro: order_trans less_imp_le)
    qed
  qed
qed

section \<open>The search contract\<close>

text \<open>Rounding the end of no reserved region up to the alignment leaves the address space.\<close>

definition align_room :: "MemblockType \<Rightarrow> nat \<Rightarrow> bool" where
  "align_room t k \<longleftrightarrow> k < 64 \<and> list_all (\<lambda>r. rf r + 2 ^ k \<le> 2 ^ 64) (used t)"

text \<open>What a successful allocation at \<open>a\<close> promises.\<close>

definition placed :: "Memblock \<Rightarrow> u64 \<Rightarrow> nat \<Rightarrow> u64 \<Rightarrow> u64 \<Rightarrow> u64 \<Rightarrow> bool" where
  "placed mb sz k start fin a \<longleftrightarrow> start \<le> a \<and> unat a + unat sz \<le> unat fin \<and> is_aligned (2 ^ k) a \<and>
     {unat a..<unat a + unat sz} \<subseteq> cover (used (mb_memory mb)) - cover (used (mb_reserved mb))"

definition mb_ok :: "Memblock \<Rightarrow> bool" where
  "mb_ok mb \<longleftrightarrow> table_ok (mb_memory mb) \<and> table_ok (mb_reserved mb)"

locale area_search =
  fixes search :: "Memblock \<Rightarrow> u64 \<Rightarrow> u64 \<Rightarrow> u64 \<Rightarrow> u64 \<Rightarrow> u64 option option"
  assumes search_sound: "table_ok (mb_reserved mb) \<Longrightarrow> align_room (mb_reserved mb) k \<Longrightarrow> sz \<noteq> 0 \<Longrightarrow>
      start < fin \<Longrightarrow> unat fin + 2 ^ k \<le> 2 ^ 64 \<Longrightarrow>
      \<exists>found. search mb sz (2 ^ k) start fin = Some found \<and>
        (\<forall>c. found = Some c \<and> c \<noteq> 0 \<and> unat c + unat sz < 2 ^ 64 \<longrightarrow>
          start \<le> c \<and> unat c + unat sz \<le> unat fin \<and> is_aligned (2 ^ k) c \<and>
          area_free (used (mb_reserved mb)) sz c)"
begin

lemma try_region_spec:
  assumes ok: "mb_ok mb" and room: "align_room (mb_reserved mb) k" "align_room (mb_memory mb) k" and sz: "sz \<noteq> 0"
    and mem: "mem \<in> set (used (mb_memory mb))"
  shows "\<exists>r mb'. memblock_try_region search mb sz (2 ^ k) start fin mem = Some (r, mb') \<and> mb_ok mb' \<and>
    (case r of
       None \<Rightarrow> mb' = mb
     | Some a \<Rightarrow> mb_memory mb' = mb_memory mb \<and> (a \<noteq> 0 \<longrightarrow> placed mb sz k start fin a) \<and>
         cover (used (mb_reserved mb')) = cover (used (mb_reserved mb)) \<union> {unat a..<unat a + unat sz})"
proof -
  have m: "reg_ok mem" "rf mem + 2 ^ k \<le> 2 ^ 64" "table_ok (mb_reserved mb)"
    using ok mem room(2) by (auto simp: mb_ok_def table_ok_iff regs_ok_def align_room_def list_all_iff)
  let ?s = "max (mr_base mem) start" and ?f = "min (region_end mem) fin"
  show ?thesis
  proof (cases "?f \<le> ?s")
    case True
    then show ?thesis using ok by (simp add: memblock_try_region_def Let_def)
  next
    case False
    have "unat ?f + 2 ^ k \<le> 2 ^ 64" using m(1,2) reg_end by (simp add: unat_min_u64)
    then obtain found where found: "search mb sz (2 ^ k) ?s ?f = Some found"
        "\<forall>c. found = Some c \<and> c \<noteq> 0 \<and> unat c + unat sz < 2 ^ 64 \<longrightarrow> ?s \<le> c \<and> unat c + unat sz \<le> unat ?f \<and>
          is_aligned (2 ^ k) c \<and> area_free (used (mb_reserved mb)) sz c"
      using search_sound [OF m(3) room(1) sz, of ?s ?f] False by (auto simp: not_le)
    have ne: "\<not> region_is_empty mem" using m(1) by (simp add: region_is_empty_def reg_ok_def)
    show ?thesis
    proof (cases found)
      case None
      then show ?thesis using False ne found(1) ok by (simp add: memblock_try_region_def Let_def)
    next
      case (Some a)
      obtain r t where add: "memblock_add_range (mb_reserved mb) a sz MB_NONE = Some (r, t)" "table_ok t"
          "case r of
             Inr _ \<Rightarrow> cover (used t) = cover (used (mb_reserved mb)) \<union> {unat a..<unat a + unat sz} \<and>
               (sz = 0 \<or> unat a + unat sz < 2 ^ 64)
           | Inl e \<Rightarrow> t = mb_reserved mb"
        using add_range_spec [OF m(3), of a sz MB_NONE] by (elim exE conjE) (case_tac r; auto)
      have run: "memblock_try_region search mb sz (2 ^ k) start fin mem =
          Some (case r of Inr _ \<Rightarrow> Some a | Inl _ \<Rightarrow> None, mb\<lparr>mb_reserved := t\<rparr>)"
        using False ne found(1) Some add(1) by (simp add: memblock_try_region_def Let_def)
      have "placed mb sz k start fin a" if "a \<noteq> 0" "unat a + unat sz < 2 ^ 64"
      proof -
        have c: "?s \<le> a" "unat a + unat sz \<le> unat ?f" "is_aligned (2 ^ k) a" "area_free (used (mb_reserved mb)) sz a"
          using found(2) Some that by auto
        have "{unat a..<unat a + unat sz} \<subseteq> {rb mem..<rf mem}"
          using c(1,2) reg_end [OF m(1)] by (auto simp: word_le_nat_alt unat_max_u64 unat_min_u64)
        then have "{unat a..<unat a + unat sz} \<subseteq> cover (used (mb_memory mb))"
          using mem by (auto simp: cover_def)
        then show ?thesis
          using c by (auto simp: placed_def area_free_def word_le_nat_alt unat_max_u64 unat_min_u64)
      qed
      then show ?thesis
        using run add(2,3) ok sz by (cases r) (auto simp: mb_ok_def)
    qed
  qed
qed

lemma try_regions_spec:
  assumes ok: "mb_ok mb" and room: "align_room (mb_reserved mb) k" "align_room (mb_memory mb) k" and sz: "sz \<noteq> 0"
  shows "set mems \<subseteq> set (used (mb_memory mb)) \<Longrightarrow>
    \<exists>a mb'. memblock_try_regions search mb sz (2 ^ k) start fin mems = Some (a, mb') \<and> mb_ok mb' \<and>
      mb_memory mb' = mb_memory mb \<and>
      (if a \<noteq> 0 then placed mb sz k start fin a \<and>
         cover (used (mb_reserved mb')) = cover (used (mb_reserved mb)) \<union> {unat a..<unat a + unat sz}
       else mb' = mb \<or> cover (used (mb_reserved mb')) = cover (used (mb_reserved mb)) \<union> {0..<unat sz})"
proof (induction mems)
  case Nil
  then show ?case using ok by simp
next
  case (Cons mem mems)
  obtain r mb' where r: "memblock_try_region search mb sz (2 ^ k) start fin mem = Some (r, mb')" "mb_ok mb'"
      "case r of
         None \<Rightarrow> mb' = mb
       | Some a \<Rightarrow> mb_memory mb' = mb_memory mb \<and> (a \<noteq> 0 \<longrightarrow> placed mb sz k start fin a) \<and>
           cover (used (mb_reserved mb')) = cover (used (mb_reserved mb)) \<union> {unat a..<unat a + unat sz}"
    using try_region_spec [OF ok room sz, of mem start fin] Cons.prems by auto
  show ?case
  proof (cases r)
    case None
    then show ?thesis using r Cons by simp
  next
    case (Some a)
    then show ?thesis using r by (cases "a = 0") auto
  qed
qed

end

interpretation top_down: area_search find_free_area_top_down
proof
  fix mb :: Memblock and k sz and start fin :: u64
  assume t: "table_ok (mb_reserved mb)" "align_room (mb_reserved mb) k" and sz: "(sz :: u64) \<noteq> 0"
  let ?rs = "used (mb_reserved mb)" and ?c = "mb_align_down (u64_saturating_sub fin sz) (2 ^ k)"
  have rs: "\<forall>r \<in> set ?rs. reg_ok r" and k: "k < 64" using t by (auto simp: table_ok_iff regs_ok_def align_room_def)
  have c: "unat ?c \<le> unat fin - unat sz"
    using align_down_le [of "u64_saturating_sub fin sz" "2 ^ k"] by (simp add: word_le_nat_alt unat_saturating_sub)
  then have "unat ?c + unat sz \<le> max (unat fin) (unat sz)" by linarith
  also have "\<dots> < 2 ^ 64" by simp
  finally have "unat ?c + unat sz < 2 ^ 64" .
  note spec = top_down_loop_spec [OF rs k sz this align_down_spec(1) [OF k], of start]
  have "find_free_area_top_down mb sz (2 ^ k) start fin = Some (top_down_loop ?rs sz (2 ^ k) start ?c)"
    using t(1) by (simp add: find_free_area_top_down_def mbt_used_eq table_ok_iff)
  moreover have "unat x + unat sz \<le> unat fin" if "x \<le> ?c" "x \<noteq> 0" for x
  proof -
    have "0 < unat x" using that(2) by (simp add: unat_gt_0)
    then show ?thesis using that(1) c by (simp add: word_le_nat_alt)
  qed
  ultimately show "\<exists>found. find_free_area_top_down mb sz (2 ^ k) start fin = Some found \<and>
      (\<forall>c. found = Some c \<and> c \<noteq> 0 \<and> unat c + unat sz < 2 ^ 64 \<longrightarrow> start \<le> c \<and> unat c + unat sz \<le> unat fin \<and>
        is_aligned (2 ^ k) c \<and> area_free ?rs sz c)"
    using spec by auto
qed

interpretation bottom_up: area_search find_free_area_bottom_up
proof
  fix mb :: Memblock and k sz and start fin :: u64
  assume t: "table_ok (mb_reserved mb)" "align_room (mb_reserved mb) k" and sz: "(sz :: u64) \<noteq> 0"
    and sf: "start < fin" "unat fin + 2 ^ k \<le> 2 ^ 64"
  let ?rs = "used (mb_reserved mb)" and ?c = "mb_align_up start (2 ^ k)"
  have rs: "\<forall>r \<in> set ?rs. reg_ok r \<and> rf r + 2 ^ k \<le> 2 ^ 64" and k: "k < 64"
    using t by (auto simp: table_ok_iff regs_ok_def align_room_def list_all_iff)
  have "unat start + 2 ^ k \<le> 2 ^ 64" using sf by (simp add: word_less_nat_alt)
  note up = align_up_spec [OF k this]
  have "find_free_area_bottom_up mb sz (2 ^ k) start fin = bottom_up_loop ?rs sz (2 ^ k) fin ?c"
    using t(1) by (simp add: find_free_area_bottom_up_def mbt_used_eq table_ok_iff)
  then show "\<exists>found. find_free_area_bottom_up mb sz (2 ^ k) start fin = Some found \<and>
      (\<forall>c. found = Some c \<and> c \<noteq> 0 \<and> unat c + unat sz < 2 ^ 64 \<longrightarrow> start \<le> c \<and> unat c + unat sz \<le> unat fin \<and>
        is_aligned (2 ^ k) c \<and> area_free ?rs sz c)"
    using bottom_up_loop_spec [OF rs k sz up(1), of fin] up(2) by (auto intro: order_trans)
qed

end
