(* ===== verification/Memblock_Map.thy ===== *)
theory Memblock_Map
  imports Memblock_Alloc
begin

text \<open>
  The boot allocator as a pair of address sets: \<open>memblock_add\<close>, \<open>memblock_reserve\<close> and
  \<open>memblock_free\<close> are union and difference, \<open>memblock_alloc\<close> takes an aligned free area out of
  the memory, and the walk over the free regions visits exactly the memory that is not reserved.
\<close>

section \<open>Allocation\<close>

text \<open>The code's default alignment, and the power of two that the caller asks for.\<close>

definition align_exp :: "u64 \<Rightarrow> nat \<Rightarrow> bool" where
  "align_exp align k \<longleftrightarrow> align = 2 ^ k \<or> align = 0 \<and> k = 0"

lemma align_exp_eq: "align_exp align k \<Longrightarrow> k < 64 \<Longrightarrow> (if align = 0 then 1 else align) = 2 ^ k"
  by (auto simp: align_exp_def power_u64 dest: arg_cong [where f = unat])

lemma alloc_range_spec:
  assumes ok: "mb_ok mb" and room: "align_room (mb_reserved mb) k" "align_room (mb_memory mb) k"
    and align: "align_exp align k" and sz: "sz \<noteq> 0"
  shows "\<exists>a mb'. memblock_alloc_range mb sz align start fin = Some (a, mb') \<and> mb_ok mb' \<and>
      mb_memory mb' = mb_memory mb \<and>
      (if a \<noteq> 0 then placed mb sz k start fin a \<and>
         cover (used (mb_reserved mb')) = cover (used (mb_reserved mb)) \<union> {unat a..<unat a + unat sz}
       else mb' = mb \<or> cover (used (mb_reserved mb')) = cover (used (mb_reserved mb)) \<union> {0..<unat sz})"
proof -
  have "k < 64" using room(1) by (simp add: align_room_def)
  then have al: "(if align = 0 then 1 else align) = 2 ^ k" using align align_exp_eq by blast
  have u: "mbt_used (mb_memory mb) = Some (used (mb_memory mb))"
    using ok by (simp add: mb_ok_def table_ok_iff mbt_used_eq)
  show ?thesis
    using top_down.try_regions_spec [OF ok room sz, of "rev (used (mb_memory mb))" start fin]
      bottom_up.try_regions_spec [OF ok room sz, of "used (mb_memory mb)" start fin]
    unfolding memblock_alloc_range_def al Let_def
    by (simp add: sz u memblock_find_in_range_top_down_def memblock_find_in_range_bottom_up_def)
qed

section \<open>The walk over the free regions\<close>

definition collect_free :: "(u64 \<times> u64) list \<Rightarrow> u64 \<Rightarrow> u64 \<Rightarrow> bool \<times> (u64 \<times> u64) list" where
  "collect_free gs base sz = (True, gs @ [(base, sz)])"

lemma collect_case [simp]: "(case collect_free gs b z of (go, s) \<Rightarrow> f go s) = f True (gs @ [(b, z)])"
  by (simp add: collect_free_def)

definition gaps_cover :: "(u64 \<times> u64) list \<Rightarrow> nat set" where
  "gaps_cover gs = (\<Union>(b, z) \<in> set gs. {unat b..<unat b + unat z})"

lemma gaps_cover_simps [simp]:
  "gaps_cover [] = {}" "gaps_cover (gs @ hs) = gaps_cover gs \<union> gaps_cover hs"
  "gaps_cover ((b, z) # gs) = {unat b..<unat b + unat z} \<union> gaps_cover gs"
  by (auto simp: gaps_cover_def)

lemma unat_interval: "a \<le> b \<Longrightarrow> unat a + unat (b - a) = unat (b :: u64)"
  by (simp add: word_le_nat_alt unat_sub)

lemma free_in_region_spec:
  "regs_ok rs \<Longrightarrow> \<exists>current' gs. free_in_region collect_free rs mem_end current s = (True, current', s @ gs) \<and>
     gaps_cover gs \<union> {unat current'..<unat mem_end} = {unat current..<unat mem_end} - cover rs"
proof (induction rs arbitrary: current s)
  case Nil
  then show ?case by simp
next
  case (Cons res rs)
  have res: "reg_ok res" "regs_ok rs" "\<forall>x \<in> cover rs. rf res < x"
    using Cons.prems by (auto simp: regs_ok_def cover_def)
  note e = reg_end [OF res(1)] reg_pos [OF res(1)]
  have ne: "\<not> region_is_empty res" using res(1) by (simp add: region_is_empty_def reg_ok_def)
  consider (beyond) "mem_end \<le> mr_base res" | (before) "mr_base res < mem_end" "region_end res \<le> current"
    | (gap) "mr_base res < mem_end" "current < region_end res" "current < mr_base res"
    | (inside) "mr_base res < mem_end" "current < region_end res" "mr_base res \<le> current"
    by (meson not_le)
  then show ?case
  proof cases
    case beyond
    have "x \<notin> cover (res # rs)" if "x < unat mem_end" for x
      using beyond that e res(3) by (fastforce simp: word_le_nat_alt)
    then show ?thesis using beyond ne by auto
  next
    case before
    then show ?thesis
      using Cons.IH [OF res(2), of current s] ne e by (auto simp: word_le_nat_alt not_le)
  next
    case gap
    obtain current' gs where ih: "free_in_region collect_free rs mem_end (region_end res)
        (s @ [(current, mr_base res - current)]) = (True, current', s @ [(current, mr_base res - current)] @ gs)"
        "gaps_cover gs \<union> {unat current'..<unat mem_end} = {unat (region_end res)..<unat mem_end} - cover rs"
      using Cons.IH [OF res(2), of "region_end res" "s @ [(current, mr_base res - current)]"] by auto
    have m: "min (mr_base res) mem_end = mr_base res" "max current (region_end res) = region_end res"
      using gap by auto
    have "{unat current..<rb res} \<union> ({rf res..<unat mem_end} - cover rs) =
        {unat current..<unat mem_end} - cover (res # rs)"
      using gap e res(3) by (auto simp: word_less_nat_alt)
    then have "gaps_cover ((current, mr_base res - current) # gs) \<union> {unat current'..<unat mem_end} =
        {unat current..<unat mem_end} - cover (res # rs)"
      using ih(2) unat_interval [OF less_imp_le [OF gap(3)]] e by (simp add: Un_assoc)
    moreover have "free_in_region collect_free (res # rs) mem_end current s =
        (True, current', s @ (current, mr_base res - current) # gs)"
      using gap ne ih(1) m by (simp add: not_le [symmetric])
    ultimately show ?thesis by blast
  next
    case inside
    have m: "max current (region_end res) = region_end res" using inside by simp
    have "{rf res..<unat mem_end} - cover rs = {unat current..<unat mem_end} - cover (res # rs)"
      using inside e by (auto simp: word_less_nat_alt word_le_nat_alt)
    then show ?thesis
      using Cons.IH [OF res(2), of "region_end res" s] inside ne e m by (auto simp: not_le not_less)
  qed
qed

lemma free_in_regions_spec:
  assumes rs: "regs_ok rs"
  shows "\<forall>r \<in> set ms. reg_ok r \<Longrightarrow>
    gaps_cover (free_in_regions collect_free rs ms s) = gaps_cover s \<union> (cover ms - cover rs)"
proof (induction ms arbitrary: s)
  case Nil
  then show ?case by simp
next
  case (Cons m ms)
  have m: "reg_ok m" using Cons.prems by simp
  have ne: "\<not> region_is_empty m" using m by (simp add: region_is_empty_def reg_ok_def)
  obtain current gs where walk: "free_in_region collect_free rs (region_end m) (mr_base m) s = (True, current, s @ gs)"
      "gaps_cover gs \<union> {unat current..<rf m} = {rb m..<rf m} - cover rs"
    using free_in_region_spec [OF rs, of "region_end m" "mr_base m" s] reg_end [OF m] by auto
  show ?case
  proof (cases "current < region_end m")
    case True
    have "gaps_cover [(current, region_end m - current)] = {unat current..<rf m}"
      using unat_interval [OF less_imp_le [OF True]] reg_end [OF m] by simp
    then show ?thesis
      using Cons True ne walk by auto
  next
    case False
    then have "gaps_cover gs = {rb m..<rf m} - cover rs"
      using walk(2) reg_end [OF m] by (simp add: word_less_nat_alt)
    then show ?thesis using Cons False ne walk(1) by auto
  qed
qed

section \<open>Properties\<close>

text \<open>
  The outcome of adding a range to a table and of removing one from it, on the covered addresses:
  a refused call leaves the table as it was.
\<close>

definition range_added :: "MemblockType \<Rightarrow> u64 \<Rightarrow> u64 \<Rightarrow> unit KernelResult \<Rightarrow> MemblockType \<Rightarrow> bool" where
  "range_added t base sz r t' \<longleftrightarrow> (case r of
     Inr _ \<Rightarrow> cover (used t') = cover (used t) \<union> {unat base..<unat base + unat sz}
   | Inl e \<Rightarrow> t' = t \<and> (e = InvalidAddress \<and> 2 ^ 64 \<le> unat base + unat sz \<or> e = NoMemory \<and> mbt_cnt t = mbt_max t))"

definition range_removed :: "MemblockType \<Rightarrow> u64 \<Rightarrow> u64 \<Rightarrow> unit KernelResult \<Rightarrow> MemblockType \<Rightarrow> bool" where
  "range_removed t base sz r t' \<longleftrightarrow> (case r of
     Inr _ \<Rightarrow> cover (used t') = cover (used t) - {unat base..<unat base + unat sz}
   | Inl e \<Rightarrow> t' = t \<and> e = NoMemory \<and> mbt_cnt t = mbt_max t)"

lemma add_range_added:
  assumes "table_ok t"
  obtains r t' where "memblock_add_range t base sz fl = Some (r, t')" "table_ok t'" "range_added t base sz r t'"
  using add_range_spec [OF assms, of base sz fl]
  by (elim exE conjE) (case_tac r; fastforce simp: range_added_def)

lemma remove_range_removed:
  assumes "table_ok t" "unat base + unat sz < 2 ^ 64"
  obtains r t' where "memblock_remove_range t base sz = Some (r, t')" "table_ok t'" "range_removed t base sz r t'"
  using remove_range_spec [OF assms] by (auto simp: range_removed_def)


text \<open>A machine with 1 MiB of memory above the first 4 KiB, of which the upper half is reserved.\<close>

definition boot_table :: "string \<Rightarrow> u64 \<Rightarrow> u64 \<Rightarrow> MemblockType" where
  "boot_table name base sz =
     \<lparr>mbt_cnt = 1, mbt_max = 128, mbt_total = sz,
      mbt_regions = \<lparr>mr_base = base, mr_size = sz, mr_flags = MB_NONE\<rparr> # replicate 127 region_empty, mbt_name = name\<rparr>"

definition boot_mb :: Memblock where
  "boot_mb = \<lparr>mb_bottom_up = False, mb_limit = - 1, mb_memory = boot_table ''memory'' 0x1000 0x100000,
     mb_reserved = boot_table ''reserved'' 0x80000 0x80000, mb_initialized = True\<rparr>"

lemma boot_used:
  "used (boot_table name base sz) = [\<lparr>mr_base = base, mr_size = sz, mr_flags = MB_NONE\<rparr>]"
  by (simp add: boot_table_def used_def)

lemma boot_mb_ok: "mb_ok boot_mb" "k \<le> 32 \<Longrightarrow> align_room (mb_reserved boot_mb) k" "k \<le> 32 \<Longrightarrow> align_room (mb_memory boot_mb) k"
proof -
  show "mb_ok boot_mb"
    by (simp add: mb_ok_def boot_mb_def table_ok_def boot_used regs_ok_def reg_ok_def MEMBLOCK_REGIONS_MAX_def)
      (simp add: boot_table_def)
  assume "k \<le> 32"
  then have "(2 :: nat) ^ k \<le> 2 ^ 32" by (rule power_increasing) simp
  with \<open>k \<le> 32\<close> show "align_room (mb_reserved boot_mb) k" "align_room (mb_memory boot_mb) k"
    by (simp_all add: align_room_def boot_mb_def boot_used)
qed

lemma boot_mbt_used:
  "mbt_used (boot_table name base sz) = Some [\<lparr>mr_base = base, mr_size = sz, mr_flags = MB_NONE\<rparr>]"
  using mbt_used_eq [of "boot_table name base sz"] boot_used
  by (simp add: table_fits_def boot_table_def MEMBLOCK_REGIONS_MAX_def)

lemmas boot_eval = boot_mb_def boot_mbt_used region_is_empty_def region_end_def find_free_area_top_down_def
  top_down_loop.simps u64_saturating_sub_def mb_align_down_def

lemma try_region_found:
  assumes "table_ok (mb_reserved mb)" "mbt_cnt (mb_reserved mb) < mbt_max (mb_reserved mb)"
    and "unat a + unat sz < 2 ^ 64" "\<not> region_is_empty mem"
    and "max (mr_base mem) start < min (region_end mem) fin"
    and "search mb sz align (max (mr_base mem) start) (min (region_end mem) fin) = Some (Some a)"
  obtains t where "memblock_try_region search mb sz align start fin mem = Some (Some a, mb\<lparr>mb_reserved := t\<rparr>)"
    "cover (used t) = cover (used (mb_reserved mb)) \<union> {unat a..<unat a + unat sz}"
proof -
  obtain r t where "memblock_add_range (mb_reserved mb) a sz MB_NONE = Some (r, t)" "range_added (mb_reserved mb) a sz r t"
    using add_range_added [OF assms(1)] .
  then show thesis
    using assms(2-) that [of t] by (cases r) (auto simp: range_added_def memblock_try_region_def Let_def not_le)
qed






text \<open>
  C26: The walk over the free regions never panics and hands its callback exactly the addresses of
  the memory that are not reserved.
\<close>
theorem memblock_free_regions:
  assumes ok: "mb_ok mb"
  shows "\<exists>gs. memblock_for_each_free_region collect_free mb [] = Some gs \<and>
    gaps_cover gs = cover (used (mb_memory mb)) - cover (used (mb_reserved mb))"
proof -
  have "mbt_used (mb_memory mb) = Some (used (mb_memory mb))" "mbt_used (mb_reserved mb) = Some (used (mb_reserved mb))"
      "regs_ok (used (mb_reserved mb))" "\<forall>r \<in> set (used (mb_memory mb)). reg_ok r"
    using ok by (simp_all add: mb_ok_def table_ok_iff mbt_used_eq regs_ok_def)
  then show ?thesis
    using free_in_regions_spec [of "used (mb_reserved mb)" "used (mb_memory mb)" "[]"]
    by (simp add: memblock_for_each_free_region_def)
qed

theorem memblock_free_regions_witness:
  "memblock_for_each_free_region collect_free boot_mb [] = Some [(0x1000, 0x7F000), (0x100000, 0x1000)] \<and>
   gaps_cover [(0x1000, 0x7F000), (0x100000, 0x1000)] = cover (used (mb_memory boot_mb)) - cover (used (mb_reserved boot_mb))"
proof -
  have "memblock_for_each_free_region collect_free boot_mb [] = Some [(0x1000, 0x7F000), (0x100000, 0x1000)]"
    by (simp add: memblock_for_each_free_region_def boot_eval)
  then show ?thesis using memblock_free_regions [OF boot_mb_ok(1)] by simp
qed

text \<open>
  The top-down search takes the candidate 0 when the region is shorter than the request, and it
  accepts that candidate: the addresses from 0 are reserved, and the caller sees the failure code.
\<close>

lemma memblock_alloc_zero:
  "\<exists>mb. memblock_alloc (boot_mb\<lparr>mb_memory := boot_table ''memory'' 0 0x1000\<rparr>) 0x2000 0x1000 = Some (0, mb) \<and>
     cover (used (mb_reserved mb)) = {0x80000..<0x100000} \<union> {0..<0x2000}"
proof -
  let ?m = "\<lparr>mr_base = 0, mr_size = 0x1000, mr_flags = MB_NONE\<rparr> :: MemblockRegion"
    and ?mb = "boot_mb\<lparr>mb_memory := boot_table ''memory'' 0 0x1000\<rparr>"
  have "table_ok (mb_reserved ?mb)" using boot_mb_ok(1) by (simp add: mb_ok_def)
  then obtain t where "memblock_try_region find_free_area_top_down ?mb 0x2000 0x1000 0 (- 1) ?m =
      Some (Some 0, ?mb\<lparr>mb_reserved := t\<rparr>)"
      "cover (used t) = cover (used (mb_reserved ?mb)) \<union> {unat (0 :: u64)..<unat (0 :: u64) + unat (0x2000 :: u64)}"
    by (rule try_region_found [where mem = ?m and start = 0 and fin = "- 1" and a = 0 and sz = "0x2000"
          and align = "0x1000" and search = find_free_area_top_down and mb = ?mb])
      (simp_all add: boot_eval, simp add: boot_table_def)
  then show ?thesis
    by (simp add: memblock_alloc_def memblock_alloc_range_def memblock_find_in_range_top_down_def boot_mb_def
        boot_mbt_used boot_used)
qed

end
