(* ===== verification/Layout.thy ===== *)
theory Layout
  imports Word_Align
begin

text \<open>
  Addresses and the kernel's virtual memory layout: the constants and rounding helpers of
  \<^verbatim>\<open>mm/api/layout.rs\<close>, the address types of \<^verbatim>\<open>mm/virt/address.rs\<close> and the run-time layout of
  \<^verbatim>\<open>mm/virt/layout_runtime.rs\<close>, whose atomics are the fields of one record. The configured constants
  are the values of \<^verbatim>\<open>os_cfg.toml\<close>, from which the build generates the module \<^verbatim>\<open>config\<close>. What the
  processor reports (\<^verbatim>\<open>paging_hardware_state\<close>) is an argument, computed from the control registers.
\<close>

section \<open>Configuration\<close>

definition PAGE_SIZE :: u64 where "PAGE_SIZE = 4096"
definition USER_SPACE_START :: u64 where "USER_SPACE_START = 0x0000000000400000"
definition USER_SPACE_END :: u64 where "USER_SPACE_END = 0x0000800000000000"
definition USER_STACK_TOP :: u64 where "USER_STACK_TOP = 0x00007FFFFFFFF000"
definition USER_STACK_SIZE :: u64 where "USER_STACK_SIZE = 8388608"
definition USER_MMAP_BASE :: u64 where "USER_MMAP_BASE = 0x00007FFFF0000000"
definition KERNEL_PHYS_BASE :: u64 where "KERNEL_PHYS_BASE = 0x0100000"
definition DIRECT_MAP_OFFSET :: u64 where "DIRECT_MAP_OFFSET = 0xFFFF880000000000"
definition VMALLOC_START :: u64 where "VMALLOC_START = 0xFFFFC90000000000"
definition VMALLOC_END :: u64 where "VMALLOC_END = 0xFFFFE8FFFFFFFFFF"
definition VMEMMAP_START :: u64 where "VMEMMAP_START = 0xFFFFEA0000000000"
definition VMEMMAP_END :: u64 where "VMEMMAP_END = 0xFFFFEFFFFFFFFFFF"
definition MODULES_START :: u64 where "MODULES_START = 0xFFFFFFFFA0000000"
definition MODULES_END :: u64 where "MODULES_END = 0xFFFFFFFFFEFFFFFF"
definition FIXMAP_START :: u64 where "FIXMAP_START = 0xFFFFFFFFFF000000"
definition FIXMAP_END :: u64 where "FIXMAP_END = 0xFFFFFFFFFFFFF000"

definition KERNEL_BASE :: u64 where "KERNEL_BASE = 0xFFFF800000000000"

lemmas config_defs = PAGE_SIZE_def USER_SPACE_START_def USER_SPACE_END_def USER_STACK_TOP_def USER_STACK_SIZE_def
  USER_MMAP_BASE_def KERNEL_PHYS_BASE_def DIRECT_MAP_OFFSET_def VMALLOC_START_def VMALLOC_END_def
  VMEMMAP_START_def VMEMMAP_END_def MODULES_START_def MODULES_END_def FIXMAP_START_def FIXMAP_END_def
  KERNEL_BASE_def

section \<open>Helpers of the layout module\<close>

definition is_kernel_addr :: "u64 \<Rightarrow> bool" where
  "is_kernel_addr addr = (KERNEL_BASE \<le> addr)"

definition is_user_addr :: "u64 \<Rightarrow> bool" where
  "is_user_addr addr = (addr < USER_SPACE_END)"

definition page_align_up :: "u64 \<Rightarrow> u64" where
  "page_align_up addr = (addr + PAGE_SIZE - 1) AND NOT (PAGE_SIZE - 1)"

definition page_align_down :: "u64 \<Rightarrow> u64" where
  "page_align_down addr = addr AND NOT (PAGE_SIZE - 1)"

definition pages_needed :: "u64 \<Rightarrow> u64" where
  "pages_needed sz = (sz + PAGE_SIZE - 1) div PAGE_SIZE"

section \<open>The run-time layout\<close>

record KernelVaLayout =
  kl_va_bits :: u8
  kl_page_levels :: u8
  kl_direct_map_start :: u64
  kl_direct_map_end :: u64
  kl_vmalloc_start :: u64
  kl_vmalloc_end :: u64
  kl_vmemmap_start :: u64
  kl_vmemmap_end :: u64
  kl_modules_start :: u64
  kl_modules_end :: u64
  kl_fixmap_start :: u64
  kl_fixmap_end :: u64

record FramebufferInfo =
  fb_address :: u64
  fb_size :: u64
  fb_width :: u32
  fb_height :: u32
  fb_stride :: u32
  fb_bytes_per_pixel :: u32
  fb_pixel_format :: u32
  fb_reserved :: u32

record BootInfo =
  bi_magic :: u64
  bi_version :: u32
  bi_size :: u32
  bi_framebuffer :: FramebufferInfo
  bi_memory_map_addr :: u64
  bi_memory_map_entries :: u32
  bi_memory_map_entry_size :: u32
  bi_total_memory :: u64
  bi_usable_memory :: u64
  bi_acpi_rsdp_addr :: u64
  bi_acpi_version :: u32
  bi_acpi_reserved :: u32
  bi_smbios_addr :: u64
  bi_smbios_version :: u32
  bi_smbios_reserved :: u32
  bi_disk_info_addr :: u64
  bi_disk_count :: u32
  bi_boot_disk_index :: u32
  bi_uefi_runtime_services :: u64
  bi_kernel_phys_addr :: u64
  bi_kernel_virt_addr :: u64
  bi_kernel_size :: u64
  bi_pml4_phys_addr :: u64
  bi_direct_map_offset :: u64
  bi_kernel_layout :: KernelVaLayout
  bi_cmdline_addr :: u64
  bi_cmdline_len :: u32
  bi_cmdline_reserved :: u32
  bi_initramfs_phys_addr :: u64
  bi_initramfs_size :: u64
  bi_root_table_phys_addr :: u64

definition page_table_root_phys :: "BootInfo \<Rightarrow> u64" where
  "page_table_root_phys info =
     (if 4 \<le> bi_version info \<and> bi_root_table_phys_addr info \<noteq> 0 then bi_root_table_phys_addr info
      else bi_pml4_phys_addr info)"

record PagingHardwareState =
  hw_cr3_root :: u64
  hw_cr4 :: u64
  hw_la57_active :: bool
  hw_page_levels :: u8
  hw_va_bits :: u8

text \<open>The values of the control registers are the arguments.\<close>

definition paging_hardware_state :: "u64 \<Rightarrow> u64 \<Rightarrow> PagingHardwareState" where
  "paging_hardware_state cr3 cr4 =
     (let la57 = cr4 AND push_bit 12 1 \<noteq> 0
      in \<lparr>hw_cr3_root = cr3 AND 0x000FFFFFFFFFF000, hw_cr4 = cr4, hw_la57_active = la57,
          hw_page_levels = (if la57 then 5 else 4), hw_va_bits = (if la57 then 57 else 48)\<rparr>)"

record LayoutRuntime =
  rt_layout :: KernelVaLayout
  rt_boot_va_bits :: u8
  rt_boot_page_levels :: u8
  rt_boot_root :: u64
  rt_hw_va_bits :: u8
  rt_hw_page_levels :: u8
  rt_hw_root :: u64
  rt_corrected_by_hw :: bool
  rt_root_mismatch :: bool

definition default_layout :: "u64 \<Rightarrow> KernelVaLayout" where
  "default_layout direct_map =
     \<lparr>kl_va_bits = 48, kl_page_levels = 4,
      kl_direct_map_start = direct_map, kl_direct_map_end = VMALLOC_START,
      kl_vmalloc_start = VMALLOC_START, kl_vmalloc_end = u64_saturating_add VMALLOC_END 1,
      kl_vmemmap_start = VMEMMAP_START, kl_vmemmap_end = u64_saturating_add VMEMMAP_END 1,
      kl_modules_start = MODULES_START, kl_modules_end = u64_saturating_add MODULES_END 1,
      kl_fixmap_start = FIXMAP_START, kl_fixmap_end = u64_saturating_add FIXMAP_END 1\<rparr>"

definition layout_statics :: LayoutRuntime where
  "layout_statics =
     \<lparr>rt_layout = default_layout DIRECT_MAP_OFFSET, rt_boot_va_bits = 48, rt_boot_page_levels = 4, rt_boot_root = 0,
      rt_hw_va_bits = 48, rt_hw_page_levels = 4, rt_hw_root = 0, rt_corrected_by_hw = False, rt_root_mismatch = False\<rparr>"

definition valid_window :: "u64 \<Rightarrow> u64 \<Rightarrow> bool" where
  "valid_window start fin = (start < fin)"

definition validate_layout :: "KernelVaLayout \<Rightarrow> bool" where
  "validate_layout l =
     (if kl_va_bits l \<noteq> 48 \<and> kl_va_bits l \<noteq> 57 then False
      else if kl_page_levels l \<noteq> 4 \<and> kl_page_levels l \<noteq> 5 then False
      else if \<not> valid_window (kl_direct_map_start l) (kl_direct_map_end l)
           \<or> \<not> valid_window (kl_vmalloc_start l) (kl_vmalloc_end l)
           \<or> \<not> valid_window (kl_vmemmap_start l) (kl_vmemmap_end l)
           \<or> \<not> valid_window (kl_modules_start l) (kl_modules_end l)
           \<or> \<not> valid_window (kl_fixmap_start l) (kl_fixmap_end l) then False
      else if kl_vmalloc_start l < kl_direct_map_end l then False
      else if kl_vmemmap_start l < kl_vmalloc_end l then False
      else if kl_modules_start l < kl_vmemmap_end l then False
      else if kl_fixmap_start l < kl_modules_end l then False
      else True)"

definition apply_layout :: "KernelVaLayout \<Rightarrow> LayoutRuntime \<Rightarrow> LayoutRuntime" where
  "apply_layout l rt = rt\<lparr>rt_layout := l\<rparr>"

definition layout_snapshot :: "LayoutRuntime \<Rightarrow> KernelVaLayout" where
  "layout_snapshot rt = rt_layout rt"

definition boot_layout :: "BootInfo \<Rightarrow> KernelVaLayout" where
  "boot_layout info =
     (let l = bi_kernel_layout info
      in if kl_direct_map_start l = 0 \<or> kl_direct_map_end l = 0 then default_layout (bi_direct_map_offset info) else l)"

definition init_from_boot_info :: "BootInfo \<Rightarrow> PagingHardwareState \<Rightarrow> LayoutRuntime \<Rightarrow> bool \<times> LayoutRuntime" where
  "init_from_boot_info info hw rt =
     (let l = boot_layout info
      in if \<not> validate_layout l then (False, rt)
         else
           let rt1 = apply_layout l (rt\<lparr>rt_boot_va_bits := kl_va_bits l, rt_boot_page_levels := kl_page_levels l,
                 rt_boot_root := page_table_root_phys info, rt_corrected_by_hw := False, rt_root_mismatch := False\<rparr>);
               rt2 = rt1\<lparr>rt_hw_va_bits := hw_va_bits hw, rt_hw_page_levels := hw_page_levels hw,
                 rt_hw_root := hw_cr3_root hw\<rparr>;
               rt3 = (if hw_va_bits hw \<noteq> kl_va_bits l \<or> hw_page_levels hw \<noteq> kl_page_levels l
                      then (apply_layout (l\<lparr>kl_va_bits := hw_va_bits hw, kl_page_levels := hw_page_levels hw\<rparr>) rt2)
                             \<lparr>rt_corrected_by_hw := True\<rparr>
                      else rt2);
               rt4 = (if page_table_root_phys info \<noteq> 0 \<and> page_table_root_phys info \<noteq> hw_cr3_root hw
                      then rt3\<lparr>rt_root_mismatch := True\<rparr> else rt3)
           in (True, rt4))"

definition va_bits :: "LayoutRuntime \<Rightarrow> u8" where "va_bits rt = kl_va_bits (rt_layout rt)"
definition page_levels :: "LayoutRuntime \<Rightarrow> u8" where "page_levels rt = kl_page_levels (rt_layout rt)"
definition direct_map_offset :: "LayoutRuntime \<Rightarrow> u64" where "direct_map_offset rt = kl_direct_map_start (rt_layout rt)"
definition direct_map_end :: "LayoutRuntime \<Rightarrow> u64" where "direct_map_end rt = kl_direct_map_end (rt_layout rt)"
definition vmalloc_start :: "LayoutRuntime \<Rightarrow> u64" where "vmalloc_start rt = kl_vmalloc_start (rt_layout rt)"
definition vmalloc_end :: "LayoutRuntime \<Rightarrow> u64" where "vmalloc_end rt = kl_vmalloc_end (rt_layout rt)"

definition direct_map_phys_to_virt :: "LayoutRuntime \<Rightarrow> u64 \<Rightarrow> u64" where
  "direct_map_phys_to_virt rt phys = u64_saturating_add phys (direct_map_offset rt)"

definition direct_map_virt_to_phys :: "LayoutRuntime \<Rightarrow> u64 \<Rightarrow> u64 option" where
  "direct_map_virt_to_phys rt virt =
     (if direct_map_offset rt \<le> virt then Some (virt - direct_map_offset rt) else None)"

definition is_direct_map_addr :: "LayoutRuntime \<Rightarrow> u64 \<Rightarrow> bool" where
  "is_direct_map_addr rt addr = (direct_map_offset rt \<le> addr \<and> addr < direct_map_end rt)"

definition is_vmalloc_addr :: "LayoutRuntime \<Rightarrow> u64 \<Rightarrow> bool" where
  "is_vmalloc_addr rt addr = (vmalloc_start rt \<le> addr \<and> addr < vmalloc_end rt)"

definition phys_to_virt :: "LayoutRuntime \<Rightarrow> u64 \<Rightarrow> u64" where
  "phys_to_virt rt phys = direct_map_phys_to_virt rt phys"

definition virt_to_phys :: "LayoutRuntime \<Rightarrow> u64 \<Rightarrow> u64" where
  "virt_to_phys rt virt = (case direct_map_virt_to_phys rt virt of Some p \<Rightarrow> p | None \<Rightarrow> 0)"

definition boot_reported_va_bits :: "LayoutRuntime \<Rightarrow> u8" where "boot_reported_va_bits rt = rt_boot_va_bits rt"
definition boot_reported_page_levels :: "LayoutRuntime \<Rightarrow> u8" where "boot_reported_page_levels rt = rt_boot_page_levels rt"
definition boot_reported_root_phys :: "LayoutRuntime \<Rightarrow> u64" where "boot_reported_root_phys rt = rt_boot_root rt"
definition hardware_va_bits :: "LayoutRuntime \<Rightarrow> u8" where "hardware_va_bits rt = rt_hw_va_bits rt"
definition hardware_page_levels :: "LayoutRuntime \<Rightarrow> u8" where "hardware_page_levels rt = rt_hw_page_levels rt"
definition hardware_root_phys :: "LayoutRuntime \<Rightarrow> u64" where "hardware_root_phys rt = rt_hw_root rt"
definition paging_corrected_by_hw :: "LayoutRuntime \<Rightarrow> bool" where "paging_corrected_by_hw rt = rt_corrected_by_hw rt"
definition paging_root_mismatch :: "LayoutRuntime \<Rightarrow> bool" where "paging_root_mismatch rt = rt_root_mismatch rt"

section \<open>Address types\<close>

datatype PhysAddr = PhysAddr (phys_as_u64: u64)

definition phys_zero :: PhysAddr where "phys_zero = PhysAddr 0"
definition phys_is_page_aligned :: "PhysAddr \<Rightarrow> bool" where
  "phys_is_page_aligned p = (phys_as_u64 p AND (PAGE_SIZE - 1) = 0)"
definition phys_page_align_down :: "PhysAddr \<Rightarrow> PhysAddr" where
  "phys_page_align_down p = PhysAddr (phys_as_u64 p AND NOT (PAGE_SIZE - 1))"
definition phys_page_align_up :: "PhysAddr \<Rightarrow> PhysAddr" where
  "phys_page_align_up p = PhysAddr ((phys_as_u64 p + PAGE_SIZE - 1) AND NOT (PAGE_SIZE - 1))"
definition phys_page_offset :: "PhysAddr \<Rightarrow> u64" where
  "phys_page_offset p = phys_as_u64 p AND (PAGE_SIZE - 1)"
definition phys_add :: "PhysAddr \<Rightarrow> u64 \<Rightarrow> PhysAddr" where
  "phys_add p offset = PhysAddr (phys_as_u64 p + offset)"
definition phys_sub :: "PhysAddr \<Rightarrow> u64 \<Rightarrow> PhysAddr" where
  "phys_sub p offset = PhysAddr (phys_as_u64 p - offset)"

datatype VirtAddr = VirtAddr (virt_as_u64: u64)

definition canonicalize_48 :: "u64 \<Rightarrow> u64" where
  "canonicalize_48 addr =
     (if addr AND push_bit 47 1 \<noteq> 0 then addr OR 0xFFFF000000000000 else addr AND 0x0000FFFFFFFFFFFF)"

definition canonicalize_runtime :: "LayoutRuntime \<Rightarrow> u64 \<Rightarrow> u64" where
  "canonicalize_runtime rt addr =
     (if va_bits rt = 57 then
        if addr AND push_bit 56 1 \<noteq> 0 then addr OR push_bit 57 (NOT 0) else addr AND (push_bit 57 1 - 1)
      else canonicalize_48 addr)"

definition virt_new :: "u64 \<Rightarrow> VirtAddr" where "virt_new addr = VirtAddr (canonicalize_48 addr)"
definition virt_new_runtime :: "LayoutRuntime \<Rightarrow> u64 \<Rightarrow> VirtAddr" where
  "virt_new_runtime rt addr = VirtAddr (canonicalize_runtime rt addr)"
definition virt_new_unchecked :: "u64 \<Rightarrow> VirtAddr" where "virt_new_unchecked addr = VirtAddr addr"
definition virt_zero :: VirtAddr where "virt_zero = VirtAddr 0"
definition virt_is_page_aligned :: "VirtAddr \<Rightarrow> bool" where
  "virt_is_page_aligned v = (virt_as_u64 v AND (PAGE_SIZE - 1) = 0)"
definition virt_page_align_down :: "VirtAddr \<Rightarrow> VirtAddr" where
  "virt_page_align_down v = VirtAddr (virt_as_u64 v AND NOT (PAGE_SIZE - 1))"
definition virt_page_align_up :: "LayoutRuntime \<Rightarrow> VirtAddr \<Rightarrow> VirtAddr" where
  "virt_page_align_up rt v = virt_new_runtime rt ((virt_as_u64 v + PAGE_SIZE - 1) AND NOT (PAGE_SIZE - 1))"
definition virt_page_offset :: "VirtAddr \<Rightarrow> u64" where
  "virt_page_offset v = virt_as_u64 v AND (PAGE_SIZE - 1)"
definition virt_add :: "LayoutRuntime \<Rightarrow> VirtAddr \<Rightarrow> u64 \<Rightarrow> VirtAddr" where
  "virt_add rt v offset = virt_new_runtime rt (virt_as_u64 v + offset)"
definition virt_sub :: "LayoutRuntime \<Rightarrow> VirtAddr \<Rightarrow> u64 \<Rightarrow> VirtAddr" where
  "virt_sub rt v offset = virt_new_runtime rt (virt_as_u64 v - offset)"

definition virt_pml4_index :: "VirtAddr \<Rightarrow> nat" where
  "virt_pml4_index v = unat (drop_bit 39 (virt_as_u64 v) AND 0x1FF)"
definition virt_pdpt_index :: "VirtAddr \<Rightarrow> nat" where
  "virt_pdpt_index v = unat (drop_bit 30 (virt_as_u64 v) AND 0x1FF)"
definition virt_pd_index :: "VirtAddr \<Rightarrow> nat" where
  "virt_pd_index v = unat (drop_bit 21 (virt_as_u64 v) AND 0x1FF)"
definition virt_pt_index :: "VirtAddr \<Rightarrow> nat" where
  "virt_pt_index v = unat (drop_bit 12 (virt_as_u64 v) AND 0x1FF)"

definition phys_to_virt_addr :: "LayoutRuntime \<Rightarrow> PhysAddr \<Rightarrow> VirtAddr" where
  "phys_to_virt_addr rt p = virt_new (phys_to_virt rt (phys_as_u64 p))"

datatype PhysFrame = PhysFrame (frame_pfn: u64)

definition frame_from_addr :: "PhysAddr \<Rightarrow> PhysFrame option" where
  "frame_from_addr a = (if phys_is_page_aligned a then Some (PhysFrame (phys_as_u64 a div PAGE_SIZE)) else None)"
definition frame_containing_addr :: "PhysAddr \<Rightarrow> PhysFrame" where
  "frame_containing_addr a = PhysFrame (phys_as_u64 a div PAGE_SIZE)"
definition frame_start_addr :: "PhysFrame \<Rightarrow> PhysAddr" where
  "frame_start_addr f = PhysAddr (frame_pfn f * PAGE_SIZE)"
definition frame_next :: "PhysFrame \<Rightarrow> PhysFrame" where
  "frame_next f = PhysFrame (frame_pfn f + 1)"
definition frame_size :: "PhysFrame \<Rightarrow> u64" where
  "frame_size f = PAGE_SIZE"

record PhysFrameRange =
  fr_start :: PhysFrame
  fr_end :: PhysFrame

definition frange_is_empty :: "PhysFrameRange \<Rightarrow> bool" where
  "frange_is_empty r = (frame_pfn (fr_end r) \<le> frame_pfn (fr_start r))"

definition frange_count :: "PhysFrameRange \<Rightarrow> u64" where
  "frange_count r =
     (if frame_pfn (fr_start r) < frame_pfn (fr_end r) then frame_pfn (fr_end r) - frame_pfn (fr_start r) else 0)"

definition frange_next :: "PhysFrameRange \<Rightarrow> PhysFrame option \<times> PhysFrameRange" where
  "frange_next r =
     (if frame_pfn (fr_start r) < frame_pfn (fr_end r)
      then (Some (fr_start r), r\<lparr>fr_start := frame_next (fr_start r)\<rparr>) else (None, r))"

lemma frange_next_progress:
  assumes "frange_next r = (Some f, r')"
  shows "unat (frame_pfn (fr_end r')) - unat (frame_pfn (fr_start r')) < unat (frame_pfn (fr_end r)) - unat (frame_pfn (fr_start r))"
proof -
  have lt: "frame_pfn (fr_start r) < frame_pfn (fr_end r)" "r' = r\<lparr>fr_start := frame_next (fr_start r)\<rparr>"
    using assms by (auto simp: frange_next_def split: if_splits)
  then have "unat (frame_pfn (fr_start r) + 1) = unat (frame_pfn (fr_start r)) + 1"
    using unat_add_no_wrap [of "frame_pfn (fr_start r)" 1] unat_less_2p64 [of "frame_pfn (fr_end r)"]
    by (simp add: word_less_nat_alt)
  with lt show ?thesis by (auto simp: frame_next_def word_less_nat_alt)
qed

text \<open>A \<^verbatim>\<open>for\<close> loop over the range.\<close>

function frange_collect :: "PhysFrameRange \<Rightarrow> PhysFrame list" where
  "frange_collect r = (case frange_next r of (Some f, r') \<Rightarrow> f # frange_collect r' | (None, _) \<Rightarrow> [])"
  by pat_completeness auto
termination
  by (relation "measure (\<lambda>r. unat (frame_pfn (fr_end r)) - unat (frame_pfn (fr_start r)))")
    (auto dest: frange_next_progress [OF sym])

declare frange_collect.simps [simp del]

section \<open>Rounding\<close>

lemma page_mask: "PAGE_SIZE - 1 = mask 12" "PAGE_SIZE = 2 ^ 12" "unat PAGE_SIZE = 4096"
  by (simp_all add: PAGE_SIZE_def mask_eq_exp_minus_1)

lemma page_align_up_mask: "page_align_up a = (a + mask 12) AND NOT (mask 12)"
  unfolding page_align_up_def page_mask(1) add_diff_eq [symmetric] ..

lemma page_align_down_mask: "page_align_down a = a AND NOT (mask 12)"
  using page_mask(1) by (simp add: page_align_down_def)

lemma page_align_up_spec:
  assumes "unat a + 4096 \<le> 2 ^ 64"
  shows "is_aligned PAGE_SIZE (page_align_up a)" "a \<le> page_align_up a"
    "is_aligned PAGE_SIZE c \<Longrightarrow> a \<le> c \<Longrightarrow> page_align_up a \<le> c" "unat (page_align_up a) < unat a + 4096"
  using mask_up [of 12 a] assms by (simp_all add: page_align_up_mask page_mask)

lemma page_align_up_aligned: "is_aligned PAGE_SIZE (page_align_up a)"
  using mask_down(1) [of 12 "a + mask 12"] by (simp add: page_align_up_mask page_mask)

lemma page_align_down_spec:
  "is_aligned PAGE_SIZE (page_align_down a)" "page_align_down a \<le> a"
  "is_aligned PAGE_SIZE c \<Longrightarrow> c \<le> a \<Longrightarrow> c \<le> page_align_down a"
  using mask_down [of 12] by (simp_all add: page_align_down_mask page_mask and_not_mask_le)

lemma is_aligned_page: "is_aligned PAGE_SIZE a \<longleftrightarrow> 4096 dvd unat a"
  by (simp add: is_aligned_def page_mask)

lemma aligned_iff_mask: "is_aligned PAGE_SIZE a \<longleftrightarrow> a AND (PAGE_SIZE - 1) = 0"
proof -
  have "unat (take_bit 12 a) = unat a mod 4096"
    by (simp only: unsigned_take_bit_eq) (simp add: take_bit_eq_mod)
  moreover have "a AND (PAGE_SIZE - 1) = take_bit 12 a"
    by (simp only: page_mask(1) take_bit_eq_mask)
  ultimately show ?thesis
    by (simp add: is_aligned_page dvd_eq_mod_eq_0 unat_eq_zero [symmetric])
qed

lemma pages_needed_nat:
  assumes "unat sz + 4096 \<le> 2 ^ 64"
  shows "unat (pages_needed sz) = (unat sz + 4095) div 4096"
proof -
  have "unat (4095 + sz) = unat sz + 4095"
    using assms unat_add_no_wrap [of 4095 sz] by simp
  then show ?thesis
    by (simp add: pages_needed_def PAGE_SIZE_def unat_div)
qed

end
