(* ===== verification/Addresses.thy ===== *)
theory Addresses
  imports Layout
begin

text \<open>
  Properties of the address types and of the run-time layout: canonical form, the split of an
  address into page-table indices, page frames, and the order of the kernel's windows.
\<close>

section \<open>Canonical form\<close>

text \<open>An address is canonical for \<open>n\<close> bits when the bits from \<open>n - 1\<close> upwards are all equal.\<close>

definition canonical :: "nat \<Rightarrow> u64 \<Rightarrow> bool" where
  "canonical n a \<longleftrightarrow> signed_take_bit (n - 1) a = a"

definition mode_bits :: "LayoutRuntime \<Rightarrow> nat" where
  "mode_bits rt = (if va_bits rt = 57 then 57 else 48)"

lemma mode_bits_gt: "12 < mode_bits rt"
  by (simp add: mode_bits_def)

lemma test_bit:
  assumes "n < 64"
  shows "a AND push_bit n 1 \<noteq> 0 \<longleftrightarrow> bit (a :: u64) n"
proof -
  have "bit (push_bit n 1 :: u64) n" using assms by (simp add: bit_simps)
  then have "(push_bit n 1 :: u64) \<noteq> 0" by (intro notI) (simp only: bit_0_eq bot_apply bot_bool_def)
  moreover have "a AND push_bit n 1 = (if bit a n then push_bit n 1 else 0)"
    by (auto intro!: bit_word_eqI simp: bit_simps)
  ultimately show ?thesis by simp
qed

lemma sign_masks:
  "(0xFFFF000000000000 :: u64) = NOT (mask 48)" "(0x0000FFFFFFFFFFFF :: u64) = mask 48"
  "push_bit 57 (NOT 0 :: u64) = NOT (mask 57)" "(push_bit 57 1 :: u64) - 1 = mask 57"
  by (simp_all add: mask_eq_exp_minus_1 push_bit_eq_mult)

lemma sign_extend:
  assumes "n < 63" "m = Suc n"
  shows "(if a AND push_bit n 1 \<noteq> 0 then a OR NOT (mask m) else a AND mask m) = signed_take_bit n (a :: u64)"
  using assms test_bit [of n a]
  by (auto intro!: bit_word_eqI simp: bit_simps less_Suc_eq_le min_def split: if_splits dest: le_antisym)

lemma canonicalize_48_eq: "canonicalize_48 a = signed_take_bit 47 a"
  unfolding canonicalize_48_def sign_masks by (rule sign_extend) simp_all

lemma canonicalize_eq: "canonicalize_runtime rt a = signed_take_bit (mode_bits rt - 1) a"
  unfolding canonicalize_runtime_def canonicalize_48_eq mode_bits_def sign_masks
  using sign_extend [of 56 57 a] by simp

lemma canonicalize_canonical: "canonical (mode_bits rt) (canonicalize_runtime rt a)"
  by (simp add: canonical_def canonicalize_eq)

lemma canonicalize_id: "canonical (mode_bits rt) a \<Longrightarrow> canonicalize_runtime rt a = a"
  by (simp add: canonical_def canonicalize_eq)

lemma canonicalize_low: "n < mode_bits rt \<Longrightarrow> take_bit n (canonicalize_runtime rt a) = take_bit n a"
  by (simp add: canonicalize_eq take_bit_signed_take_bit mode_bits_def split: if_splits)

lemma canonical_bits: "canonical n a \<longleftrightarrow> (\<forall>i < 64. bit a (min i (n - 1)) = bit a i)"
proof -
  have b: "bit (signed_take_bit (n - 1) a) i = bit a (min i (n - 1))" if "i < 64" for i
    using that by (simp add: bit_signed_take_bit_iff min_def)
  then have "\<forall>i < 64. bit a (min i (n - 1)) = bit a i \<Longrightarrow> signed_take_bit (n - 1) a = a"
    by (intro bit_word_eqI) simp
  with b show ?thesis unfolding canonical_def by metis
qed

lemma canonical_page_down:
  assumes "canonical n a" "12 < n"
  shows "canonical n (a AND NOT (PAGE_SIZE - 1))"
  unfolding canonical_bits page_mask(1)
proof (intro allI impI)
  fix i :: nat
  assume i: "i < 64"
  have "bit a (min i (n - 1)) = bit a i" using assms(1) i by (simp add: canonical_bits)
  moreover have "(min i (n - 1) < 12) = (i < 12)" using assms(2) by auto
  moreover have "min i (n - 1) < 64" using i by simp
  ultimately show "bit (a AND NOT (mask 12)) (min i (n - 1)) = bit (a AND NOT (mask 12)) i"
    using i by (simp add: bit_and_iff bit_not_iff_eq bit_mask_iff)
qed

section \<open>Page-table indices\<close>

text \<open>The address a page walk would assemble from the four indices and the offset in the page.\<close>

definition assemble_48 :: "nat \<Rightarrow> nat \<Rightarrow> nat \<Rightarrow> nat \<Rightarrow> u64 \<Rightarrow> u64" where
  "assemble_48 i4 i3 i2 i1 offset =
     push_bit 39 (of_nat i4) OR push_bit 30 (of_nat i3) OR push_bit 21 (of_nat i2) OR push_bit 12 (of_nat i1) OR offset"

lemma index_mask: "drop_bit n a AND 0x1FF = take_bit 9 (drop_bit n (a :: u64))"
proof -
  have "(0x1FF :: u64) = mask 9" by (simp add: mask_eq_exp_minus_1)
  then show ?thesis by (simp only: take_bit_eq_mask)
qed

lemma index_bound: "unat (drop_bit n a AND 0x1FF :: u64) < 512"
proof -
  have "unat (take_bit 9 (drop_bit n a)) < 2 ^ 9"
    by (simp only: unsigned_take_bit_eq take_bit_nat_less_exp)
  then show ?thesis by (simp add: index_mask)
qed

lemma join_bits: "push_bit n (take_bit k (drop_bit n a)) OR take_bit n a = take_bit (n + k) (a :: u64)"
  by (auto intro!: bit_word_eqI simp: bit_simps)

lemma assemble_indices:
  "canonicalize_48 (assemble_48 (virt_pml4_index v) (virt_pdpt_index v) (virt_pd_index v) (virt_pt_index v)
     (virt_page_offset v)) = canonicalize_48 (virt_as_u64 v)"
proof -
  let ?a = "virt_as_u64 v"
  have "assemble_48 (virt_pml4_index v) (virt_pdpt_index v) (virt_pd_index v) (virt_pt_index v) (virt_page_offset v) =
      push_bit 39 (take_bit 9 (drop_bit 39 ?a)) OR push_bit 30 (take_bit 9 (drop_bit 30 ?a)) OR
      push_bit 21 (take_bit 9 (drop_bit 21 ?a)) OR push_bit 12 (take_bit 9 (drop_bit 12 ?a)) OR take_bit 12 ?a"
    by (simp add: assemble_48_def virt_pml4_index_def virt_pdpt_index_def virt_pd_index_def virt_pt_index_def
        virt_page_offset_def index_mask page_mask(1) take_bit_eq_mask)
  also have "\<dots> = take_bit 48 ?a"
    using join_bits [of 12 9 ?a] join_bits [of 21 9 ?a] join_bits [of 30 9 ?a] join_bits [of 39 9 ?a] by simp
  finally show ?thesis
    by (auto simp: canonicalize_48_eq intro!: bit_word_eqI simp: bit_simps min_def)
qed

section \<open>Page frames\<close>

lemma frange_collect_eq:
  "frange_collect r = map (\<lambda>n. PhysFrame (of_nat n)) [unat (frame_pfn (fr_start r))..<unat (frame_pfn (fr_end r))]"
proof (induction r rule: frange_collect.induct)
  case (1 r)
  let ?s = "frame_pfn (fr_start r)" and ?e = "frame_pfn (fr_end r)"
  show ?case
  proof (cases "?s < ?e")
    case False
    then show ?thesis by (simp add: frange_collect.simps frange_next_def word_less_nat_alt)
  next
    case True
    then have step: "unat (?s + 1) = Suc (unat ?s)" "unat ?s < unat ?e"
      using unat_add_no_wrap [of ?s 1] unat_less_2p64 [of ?e] by (simp_all add: word_less_nat_alt)
    have nx: "frange_next r = (Some (fr_start r), r\<lparr>fr_start := frame_next (fr_start r)\<rparr>)"
      using True by (simp add: frange_next_def)
    have "frange_collect r = fr_start r # frange_collect (r\<lparr>fr_start := frame_next (fr_start r)\<rparr>)"
      by (subst frange_collect.simps) (simp add: nx)
    moreover have "[unat ?s..<unat ?e] = unat ?s # [Suc (unat ?s)..<unat ?e]"
      using step(2) by (simp add: upt_conv_Cons)
    ultimately show ?thesis
      using 1 [OF nx [symmetric]] step(1) by (simp add: frame_next_def)
  qed
qed

lemma aligned_div_mult:
  assumes "is_aligned PAGE_SIZE a"
  shows "a div PAGE_SIZE * PAGE_SIZE = a"
proof -
  have d: "unat (a div PAGE_SIZE) = unat a div 4096" by (simp add: unat_div page_mask(3))
  have "unat a div 4096 * 4096 = unat a" using assms by (simp add: is_aligned_page)
  then have "unat (a div PAGE_SIZE * PAGE_SIZE) = unat a"
    by (simp add: unat_word_ariths(2) d page_mask(3))
  then show ?thesis by (rule unsigned_word_eqI)
qed

section \<open>The windows of the kernel\<close>

definition layout_ok :: "KernelVaLayout \<Rightarrow> bool" where
  "layout_ok l \<longleftrightarrow> kl_va_bits l \<in> {48, 57} \<and> kl_page_levels l \<in> {4, 5} \<and>
     kl_direct_map_start l < kl_direct_map_end l \<and> kl_direct_map_end l \<le> kl_vmalloc_start l \<and>
     kl_vmalloc_start l < kl_vmalloc_end l \<and> kl_vmalloc_end l \<le> kl_vmemmap_start l \<and>
     kl_vmemmap_start l < kl_vmemmap_end l \<and> kl_vmemmap_end l \<le> kl_modules_start l \<and>
     kl_modules_start l < kl_modules_end l \<and> kl_modules_end l \<le> kl_fixmap_start l \<and>
     kl_fixmap_start l < kl_fixmap_end l"

lemma validate_layout_iff: "validate_layout l \<longleftrightarrow> layout_ok l"
  by (auto simp: validate_layout_def layout_ok_def valid_window_def not_less)

lemma default_layout_ok: "direct_map < VMALLOC_START \<Longrightarrow> layout_ok (default_layout direct_map)"
  by (simp add: layout_ok_def default_layout_def config_defs u64_saturating_add_def)

lemma hardware_modes: "hw_va_bits (paging_hardware_state cr3 cr4) \<in> {48, 57}" "hw_page_levels (paging_hardware_state cr3 cr4) \<in> {4, 5}"
  by (simp_all add: paging_hardware_state_def Let_def)

lemma init_installs:
  assumes run: "init_from_boot_info info hw rt = (ok, rt')" and ok: ok
  shows "rt_layout rt' = (boot_layout info)\<lparr>kl_va_bits := hw_va_bits hw, kl_page_levels := hw_page_levels hw\<rparr> \<and>
    rt_boot_va_bits rt' = kl_va_bits (boot_layout info) \<and> rt_boot_page_levels rt' = kl_page_levels (boot_layout info) \<and>
    (rt_corrected_by_hw rt' \<longleftrightarrow>
       hw_va_bits hw \<noteq> kl_va_bits (boot_layout info) \<or> hw_page_levels hw \<noteq> kl_page_levels (boot_layout info))"
proof -
  obtain l where l: "boot_layout info = l" by simp
  have "rt' = snd (init_from_boot_info info hw rt)" "validate_layout l"
    using run ok l by (auto simp: init_from_boot_info_def Let_def split: if_splits)
  then show ?thesis
    by (cases "hw_va_bits hw = kl_va_bits l \<and> hw_page_levels hw = kl_page_levels l"; cases l)
      (simp_all add: init_from_boot_info_def Let_def apply_layout_def l)
qed

section \<open>Properties\<close>



text \<open>
  C28: The four page-table indices of a virtual address are positions in a table of 512 entries, and
  together with the offset in the page they determine a canonical 48-bit address.
\<close>
theorem virt_addr_indices:
  "virt_pml4_index v < 512 \<and> virt_pdpt_index v < 512 \<and> virt_pd_index v < 512 \<and> virt_pt_index v < 512 \<and>
   virt_page_offset v < PAGE_SIZE \<and>
   virt_new (assemble_48 (virt_pml4_index v) (virt_pdpt_index v) (virt_pd_index v) (virt_pt_index v)
     (virt_page_offset v)) = virt_new (virt_as_u64 v)"
proof -
  have "unat (take_bit 12 (virt_as_u64 v)) < 2 ^ 12"
    by (simp only: unsigned_take_bit_eq take_bit_nat_less_exp)
  then have "virt_page_offset v < PAGE_SIZE"
    by (simp add: virt_page_offset_def page_mask(1) take_bit_eq_mask word_less_nat_alt page_mask(3))
  then show ?thesis
    using index_bound assemble_indices
    by (simp add: virt_new_def virt_pml4_index_def virt_pdpt_index_def virt_pd_index_def virt_pt_index_def)
qed

text \<open>
  C29: An address that is page aligned is the start of exactly the frame made from it, and every
  frame below the end of the address space is the frame of its start; a misaligned address is
  refused. Iterating over a frame range yields its frames in order, as many as \<open>count\<close> says.
\<close>
theorem phys_frame_roundtrip:
  "(case frame_from_addr a of
      Some f \<Rightarrow> frame_start_addr f = a \<and> frame_containing_addr a = f
    | None \<Rightarrow> \<not> is_aligned PAGE_SIZE (phys_as_u64 a)) \<and>
   (unat (frame_pfn f) < 2 ^ 52 \<longrightarrow> frame_from_addr (frame_start_addr f) = Some f) \<and>
   frange_collect r = map (\<lambda>n. PhysFrame (of_nat n)) [unat (frame_pfn (fr_start r))..<unat (frame_pfn (fr_end r))] \<and>
   length (frange_collect r) = unat (frange_count r)"
proof -
  have "unat (frame_pfn f * PAGE_SIZE) = unat (frame_pfn f) * 4096" if "unat (frame_pfn f) < 2 ^ 52"
    using that by (simp add: unat_word_ariths(2) page_mask(3))
  then have "frame_pfn f * PAGE_SIZE div PAGE_SIZE = frame_pfn f" "is_aligned PAGE_SIZE (frame_pfn f * PAGE_SIZE)"
    if "unat (frame_pfn f) < 2 ^ 52"
    using that by (simp_all add: word_unat_eq_iff unat_div page_mask(3) is_aligned_page)
  then have "frame_from_addr (frame_start_addr f) = Some f" if "unat (frame_pfn f) < 2 ^ 52"
    using that by (cases f) (simp add: frame_from_addr_def frame_start_addr_def phys_is_page_aligned_def aligned_iff_mask)
  then show ?thesis
    using aligned_div_mult [of "phys_as_u64 a"] aligned_iff_mask [of "phys_as_u64 a"]
    by (auto simp: frame_from_addr_def frame_start_addr_def frame_containing_addr_def phys_is_page_aligned_def
        frange_collect_eq frange_count_def unat_sub word_less_nat_alt word_le_nat_alt)
qed

theorem phys_frame_roundtrip_witness:
  "frame_from_addr (PhysAddr 0x3000) = Some (PhysFrame 3) \<and> frame_start_addr (PhysFrame 3) = PhysAddr 0x3000 \<and>
   unat (frame_pfn (PhysFrame 3)) < 2 ^ 52 \<and> frame_from_addr (frame_start_addr (PhysFrame 3)) = Some (PhysFrame 3)"
  using phys_frame_roundtrip [of "PhysAddr 0x3000" "PhysFrame 3" "\<lparr>fr_start = PhysFrame 0, fr_end = PhysFrame 0\<rparr>"]
  by (simp add: frame_from_addr_def phys_is_page_aligned_def PAGE_SIZE_def)

text \<open>
  C30: Rounding to pages: away from the top page of the address space, \<open>page_align_up\<close> is the least
  page boundary at or above the address, \<open>page_align_down\<close> the greatest at or below it, and the
  number of pages needed for a size is exactly the rounded size in pages.
\<close>
theorem page_rounding:
  assumes fit: "unat a + 4096 \<le> 2 ^ 64"
  shows "is_aligned PAGE_SIZE (page_align_up a) \<and> is_aligned PAGE_SIZE (page_align_down a) \<and>
    page_align_down a \<le> a \<and> a \<le> page_align_up a \<and>
    (\<forall>c. is_aligned PAGE_SIZE c \<longrightarrow> (a \<le> c \<longrightarrow> page_align_up a \<le> c) \<and> (c \<le> a \<longrightarrow> c \<le> page_align_down a)) \<and>
    unat (page_align_up a) = unat (pages_needed a) * 4096"
proof -
  have "unat (page_align_up a) = (unat a + 4095) div 4096 * 4096"
  proof -
    have "unat (a + mask 12) = unat a + 4095"
      using fit power_u64(3) [of 12] unat_add_no_wrap [of a "mask 12"] by simp
    then show ?thesis
      by (simp add: page_align_up_mask unat_and_not_mask minus_mod_eq_div_mult)
  qed
  then show ?thesis
    using page_align_up_spec [OF fit] page_align_down_spec pages_needed_nat [OF fit]
    by simp
qed

theorem page_rounding_witness:
  "unat (0x1234 :: u64) + 4096 \<le> 2 ^ 64 \<and> page_align_up 0x1234 = 0x2000 \<and> page_align_down 0x1234 = 0x1000 \<and>
   unat (page_align_up 0x1234) = unat (pages_needed 0x1234) * 4096"
proof -
  have "page_align_up 0x1234 = 0x2000 \<and> page_align_down 0x1234 = 0x1000"
    by (simp add: page_align_up_def page_align_down_def PAGE_SIZE_def)
  then show ?thesis using page_rounding [of "0x1234"] by simp
qed

text \<open>
  C31: Initialising the layout from the boot information either fails and changes nothing, or
  installs windows that are non-empty and in ascending order without overlap, with the paging mode
  the hardware reports; the window of the direct map and the window of \<open>vmalloc\<close> are then disjoint.
\<close>
theorem layout_init:
  assumes hw: "hw = paging_hardware_state cr3 cr4" and run: "init_from_boot_info info hw rt = (done_ok, rt')"
  shows "if done_ok then layout_ok (layout_snapshot rt') \<and> va_bits rt' = hw_va_bits hw \<and>
      page_levels rt' = hw_page_levels hw \<and> \<not> (is_direct_map_addr rt' addr \<and> is_vmalloc_addr rt' addr) \<and>
      (paging_corrected_by_hw rt' \<longleftrightarrow> boot_reported_va_bits rt' \<noteq> va_bits rt' \<or> boot_reported_page_levels rt' \<noteq> page_levels rt')
    else rt' = rt"
proof (cases done_ok)
  case True
  have "layout_ok (boot_layout info)"
    using run True by (auto simp: init_from_boot_info_def Let_def validate_layout_iff split: if_splits)
  moreover have "rt_layout rt' = (boot_layout info)\<lparr>kl_va_bits := hw_va_bits hw, kl_page_levels := hw_page_levels hw\<rparr> \<and>
    rt_boot_va_bits rt' = kl_va_bits (boot_layout info) \<and> rt_boot_page_levels rt' = kl_page_levels (boot_layout info) \<and>
    (rt_corrected_by_hw rt' \<longleftrightarrow>
       hw_va_bits hw \<noteq> kl_va_bits (boot_layout info) \<or> hw_page_levels hw \<noteq> kl_page_levels (boot_layout info))"
    using run True by (rule init_installs)
  ultimately show ?thesis
    using True hardware_modes [of cr3 cr4] hw
    by (auto simp: layout_ok_def layout_snapshot_def va_bits_def page_levels_def is_direct_map_addr_def is_vmalloc_addr_def
        direct_map_end_def vmalloc_start_def paging_corrected_by_hw_def boot_reported_va_bits_def
        boot_reported_page_levels_def)
next
  case False
  then show ?thesis using run by (auto simp: init_from_boot_info_def Let_def split: if_splits)
qed

definition boot_info_example :: BootInfo where
  "boot_info_example =
     \<lparr>bi_magic = 0, bi_version = 4, bi_size = 0,
      bi_framebuffer = \<lparr>fb_address = 0, fb_size = 0, fb_width = 0, fb_height = 0, fb_stride = 0, fb_bytes_per_pixel = 0, fb_pixel_format = 0, fb_reserved = 0\<rparr>,
      bi_memory_map_addr = 0, bi_memory_map_entries = 0, bi_memory_map_entry_size = 0,
      bi_total_memory = 0, bi_usable_memory = 0, bi_acpi_rsdp_addr = 0, bi_acpi_version = 0,
      bi_acpi_reserved = 0, bi_smbios_addr = 0, bi_smbios_version = 0, bi_smbios_reserved = 0,
      bi_disk_info_addr = 0, bi_disk_count = 0, bi_boot_disk_index = 0, bi_uefi_runtime_services = 0,
      bi_kernel_phys_addr = 0, bi_kernel_virt_addr = 0, bi_kernel_size = 0,
      bi_pml4_phys_addr = 0x1000, bi_direct_map_offset = DIRECT_MAP_OFFSET,
      bi_kernel_layout = (default_layout DIRECT_MAP_OFFSET)\<lparr>kl_direct_map_start := 0\<rparr>,
      bi_cmdline_addr = 0, bi_cmdline_len = 0, bi_cmdline_reserved = 0, bi_initramfs_phys_addr = 0,
      bi_initramfs_size = 0, bi_root_table_phys_addr = 0\<rparr>"

theorem layout_init_witness:
  "fst (init_from_boot_info boot_info_example (paging_hardware_state 0x1000 0) layout_statics) \<and>
   layout_ok (layout_snapshot (snd (init_from_boot_info boot_info_example (paging_hardware_state 0x1000 0) layout_statics)))"
proof -
  obtain ok rt where run: "init_from_boot_info boot_info_example (paging_hardware_state 0x1000 0) layout_statics = (ok, rt)"
    by (cases "init_from_boot_info boot_info_example (paging_hardware_state 0x1000 0) layout_statics")
  have "boot_layout boot_info_example = default_layout DIRECT_MAP_OFFSET"
    by (simp add: boot_layout_def boot_info_example_def)
  then have ok
    using run default_layout_ok [of DIRECT_MAP_OFFSET]
    by (auto simp: init_from_boot_info_def Let_def validate_layout_iff config_defs split: if_splits)
  then show ?thesis using layout_init [OF refl run] run by simp
qed

text \<open>
  C32: The direct map: while the sum does not leave the address space, translating a physical
  address to its virtual address and back gives the address, and the addresses that lie in the
  window are exactly those of the first \<open>end - start\<close> bytes of physical memory.
\<close>
theorem direct_map_roundtrip:
  assumes "layout_ok (layout_snapshot rt)" "unat p + unat (direct_map_offset rt) < 2 ^ 64"
  shows "virt_to_phys rt (phys_to_virt rt p) = p \<and>
    direct_map_virt_to_phys rt (phys_to_virt rt p) = Some p \<and>
    (is_direct_map_addr rt (phys_to_virt rt p) \<longleftrightarrow> p < direct_map_end rt - direct_map_offset rt)"
proof -
  let ?o = "direct_map_offset rt"
  have v: "phys_to_virt rt p = p + ?o" "unat (p + ?o) = unat p + unat ?o"
    using assms(2) by (simp_all add: phys_to_virt_def direct_map_phys_to_virt_def u64_saturating_add_def unat_add_no_wrap)
  then have le: "?o \<le> p + ?o" by (simp add: word_le_nat_alt)
  have "?o < direct_map_end rt"
    using assms(1) by (simp add: layout_ok_def layout_snapshot_def direct_map_offset_def direct_map_end_def)
  then have "unat (direct_map_end rt - ?o) = unat (direct_map_end rt) - unat ?o" "unat ?o < unat (direct_map_end rt)"
    by (simp_all add: unat_sub word_less_nat_alt word_le_nat_alt)
  then show ?thesis
    using v le by (auto simp: virt_to_phys_def direct_map_virt_to_phys_def is_direct_map_addr_def word_less_nat_alt)
qed

theorem direct_map_roundtrip_witness:
  "layout_ok (layout_snapshot layout_statics) \<and> phys_to_virt layout_statics 0x100000 = 0xFFFF880000100000 \<and>
   virt_to_phys layout_statics 0xFFFF880000100000 = 0x100000"
proof -
  have ok: "layout_ok (layout_snapshot layout_statics)"
    using default_layout_ok [of DIRECT_MAP_OFFSET] by (simp add: layout_snapshot_def layout_statics_def config_defs)
  have off: "direct_map_offset layout_statics = 0xFFFF880000000000"
    by (simp add: direct_map_offset_def layout_statics_def default_layout_def config_defs)
  have "phys_to_virt layout_statics 0x100000 = 0xFFFF880000100000"
    by (simp add: phys_to_virt_def direct_map_phys_to_virt_def off u64_saturating_add_def)
  then show ?thesis
    using direct_map_roundtrip [OF ok, of "0x100000"] ok off by simp
qed

text \<open>
  \<open>PhysAddr::to_virt\<close> makes its result with \<open>VirtAddr::new\<close>, which always sign-extends from bit 47.
  With five-level paging the direct map starts below that range, and the result is another address.
\<close>

lemma to_virt_wrong_in_la57:
  "\<exists>rt. layout_ok (layout_snapshot rt) \<and> va_bits rt = 57 \<and>
     virt_as_u64 (phys_to_virt_addr rt (PhysAddr 0x1000)) \<noteq> phys_to_virt rt 0x1000"
proof -
  let ?l = "(default_layout 0xFF11000000000000)\<lparr>kl_va_bits := 57, kl_page_levels := 5\<rparr>"
  let ?rt = "layout_statics\<lparr>rt_layout := ?l\<rparr>"
  have "layout_ok ?l"
    using default_layout_ok [of "0xFF11000000000000"] by (simp add: layout_ok_def config_defs)
  moreover have "phys_to_virt ?rt 0x1000 = 0xFF11000000001000"
    by (simp add: phys_to_virt_def direct_map_phys_to_virt_def direct_map_offset_def default_layout_def u64_saturating_add_def)
  moreover have "canonicalize_48 0xFF11000000001000 = 0x1000"
    by (simp add: canonicalize_48_def)
  ultimately show ?thesis
    by (intro exI [of _ ?rt]) (simp add: layout_snapshot_def va_bits_def phys_to_virt_addr_def virt_new_def)
qed

end
