(* ===== verification/Vma.thy ===== *)
theory Vma
  imports Maple_Map Layout
begin

text \<open>
  The address space of a process (\<^verbatim>\<open>mm/virt/vma.rs\<close>): virtual memory areas in a maple tree, with the
  page statistics, the heap (\<^verbatim>\<open>brk\<close>) and the growing stack. The lock of the address space is taken
  around every operation, so an operation is one step and the model has the unlocked bodies only.
  The opaque pointers of a file mapping are addresses. Page-table work (cloning and tearing down
  address spaces) is not part of this theory.
\<close>

section \<open>Flags\<close>

datatype VmFlags = VmFlags (vm_bits: u64)

definition VM_READ :: u64 where "VM_READ = push_bit 0 1"
definition VM_WRITE :: u64 where "VM_WRITE = push_bit 1 1"
definition VM_EXEC :: u64 where "VM_EXEC = push_bit 2 1"
definition VM_SHARED :: u64 where "VM_SHARED = push_bit 3 1"
definition VM_ANONYMOUS :: u64 where "VM_ANONYMOUS = push_bit 4 1"
definition VM_GROWSDOWN :: u64 where "VM_GROWSDOWN = push_bit 5 1"
definition VM_HEAP :: u64 where "VM_HEAP = push_bit 6 1"
definition VM_CODE :: u64 where "VM_CODE = push_bit 7 1"
definition VM_DATA :: u64 where "VM_DATA = push_bit 8 1"
definition VM_BSS :: u64 where "VM_BSS = push_bit 9 1"
definition VM_LOCKED :: u64 where "VM_LOCKED = push_bit 10 1"
definition VM_IO :: u64 where "VM_IO = push_bit 11 1"
definition VM_HUGETLB :: u64 where "VM_HUGETLB = push_bit 12 1"
definition VM_DONTMERGE :: u64 where "VM_DONTMERGE = push_bit 13 1"
definition VM_DONTEXPAND :: u64 where "VM_DONTEXPAND = push_bit 14 1"
definition VM_MAYWRITE :: u64 where "VM_MAYWRITE = push_bit 15 1"
definition VM_RW :: u64 where "VM_RW = VM_READ OR VM_WRITE"
definition VM_RX :: u64 where "VM_RX = VM_READ OR VM_EXEC"
definition VM_RWX :: u64 where "VM_RWX = VM_READ OR VM_WRITE OR VM_EXEC"

lemmas vm_flag_defs = VM_READ_def VM_WRITE_def VM_EXEC_def VM_SHARED_def VM_ANONYMOUS_def VM_GROWSDOWN_def
  VM_HEAP_def VM_CODE_def VM_DATA_def VM_BSS_def VM_LOCKED_def VM_IO_def VM_HUGETLB_def VM_DONTMERGE_def
  VM_DONTEXPAND_def VM_MAYWRITE_def

definition vm_empty :: VmFlags where "vm_empty = VmFlags 0"

definition vm_contains :: "VmFlags \<Rightarrow> u64 \<Rightarrow> bool" where
  "vm_contains f flag = (vm_bits f AND flag = flag)"

definition vm_set :: "VmFlags \<Rightarrow> u64 \<Rightarrow> VmFlags" where
  "vm_set f flag = VmFlags (vm_bits f OR flag)"

definition vm_clear :: "VmFlags \<Rightarrow> u64 \<Rightarrow> VmFlags" where
  "vm_clear f flag = VmFlags (vm_bits f AND NOT flag)"

definition vm_is_read :: "VmFlags \<Rightarrow> bool" where "vm_is_read f = vm_contains f VM_READ"
definition vm_is_write :: "VmFlags \<Rightarrow> bool" where "vm_is_write f = vm_contains f VM_WRITE"
definition vm_is_exec :: "VmFlags \<Rightarrow> bool" where "vm_is_exec f = vm_contains f VM_EXEC"
definition vm_is_anonymous :: "VmFlags \<Rightarrow> bool" where "vm_is_anonymous f = vm_contains f VM_ANONYMOUS"
definition vm_is_shared :: "VmFlags \<Rightarrow> bool" where "vm_is_shared f = vm_contains f VM_SHARED"

definition to_user_pte_flags :: "VmFlags \<Rightarrow> u64" where
  "to_user_pte_flags f =
     (let pte = 1;
          pte = (if vm_is_write f then pte OR push_bit 1 1 else pte);
          pte = (if \<not> vm_is_exec f then pte OR push_bit 63 1 else pte)
      in pte OR push_bit 2 1)"

section \<open>Areas\<close>

record VmaInfo =
  vi_flags :: VmFlags
  vi_pgoff :: u64
  vi_file :: u64
  vi_private :: u64

definition vma_info_new :: "VmFlags \<Rightarrow> VmaInfo" where
  "vma_info_new flags = \<lparr>vi_flags = flags, vi_pgoff = 0, vi_file = 0, vi_private = 0\<rparr>"

record Vma =
  vm_start :: u64
  vm_end :: u64
  vm_flags :: VmFlags
  vm_pgoff :: u64
  vm_file :: u64
  vm_private_data :: u64

definition vma_from_tree :: "u64 \<Rightarrow> u64 \<Rightarrow> VmaInfo \<Rightarrow> Vma" where
  "vma_from_tree s e info =
     \<lparr>vm_start = s, vm_end = e, vm_flags = vi_flags info, vm_pgoff = vi_pgoff info, vm_file = vi_file info,
      vm_private_data = vi_private info\<rparr>"

definition vma_size :: "Vma \<Rightarrow> u64" where "vma_size v = vm_end v - vm_start v"
definition vma_nr_pages :: "Vma \<Rightarrow> u64" where "vma_nr_pages v = vma_size v div PAGE_SIZE"
definition vma_contains :: "Vma \<Rightarrow> u64 \<Rightarrow> bool" where "vma_contains v addr = (vm_start v \<le> addr \<and> addr < vm_end v)"
definition vma_overlaps :: "Vma \<Rightarrow> u64 \<Rightarrow> u64 \<Rightarrow> bool" where
  "vma_overlaps v start fin = (vm_start v < fin \<and> start < vm_end v)"

section \<open>The address space\<close>

record Mm =
  vma_tree :: "VmaInfo MapleTree"
  vma_count :: u32
  mm_count :: u32
  mm_users :: u32
  pgd :: u64
  start_code :: u64
  end_code :: u64
  start_data :: u64
  end_data :: u64
  start_brk :: u64
  brk :: u64
  start_stack :: u64
  arg_start :: u64
  arg_end :: u64
  env_start :: u64
  env_end :: u64
  mmap_base :: u64
  mmap_legacy_base :: u64
  total_vm :: u64
  locked_vm :: u64
  shared_vm :: u64
  exec_vm :: u64
  stack_vm :: u64
  data_vm :: u64

definition stack_top_addr :: "Mm \<Rightarrow> u64" where
  "stack_top_addr mm = (if start_stack mm \<noteq> 0 then start_stack mm else USER_STACK_TOP)"

definition stack_expand_min_addr :: "Mm \<Rightarrow> u64" where
  "stack_expand_min_addr mm = u64_saturating_sub (stack_top_addr mm) USER_STACK_SIZE"

definition mm_uninit :: Mm where
  "mm_uninit =
     \<lparr>vma_tree = maple_new, vma_count = 0, mm_count = 1, mm_users = 1, pgd = 0, start_code = 0, end_code = 0,
      start_data = 0, end_data = 0, start_brk = 0, brk = 0, start_stack = 0, arg_start = 0, arg_end = 0,
      env_start = 0, env_end = 0, mmap_base = 0, mmap_legacy_base = 0, total_vm = 0, locked_vm = 0, shared_vm = 0,
      exec_vm = 0, stack_vm = 0, data_vm = 0\<rparr>"

definition mm_init :: "Mm \<Rightarrow> u64 \<Rightarrow> Mm" where
  "mm_init mm pgd_phys =
     mm\<lparr>vma_count := 0, mm_count := 1, mm_users := 1, pgd := pgd_phys, mmap_base := USER_MMAP_BASE,
        mmap_legacy_base := USER_MMAP_BASE\<rparr>"

definition find_vma :: "Mm \<Rightarrow> u64 \<Rightarrow> Vma option option" where
  "find_vma mm addr = do {
     r \<leftarrow> maple_find (vma_tree mm) addr;
     Some (map_option (\<lambda>(s, e, info). vma_from_tree s e info) r)
   }"

definition find_vma_flags :: "Mm \<Rightarrow> u64 \<Rightarrow> VmFlags option option" where
  "find_vma_flags mm addr = do {
     r \<leftarrow> maple_find (vma_tree mm) addr;
     Some (map_option (\<lambda>(s, e, info). vi_flags info) r)
   }"

definition find_vma_intersection :: "Mm \<Rightarrow> u64 \<Rightarrow> u64 \<Rightarrow> Vma option option" where
  "find_vma_intersection mm start fin = do {
     rs \<leftarrow> maple_iter_intersecting (vma_tree mm) start fin;
     Some (case rs of [] \<Rightarrow> None | (s, e, info) # _ \<Rightarrow> Some (vma_from_tree s e info))
   }"

definition find_free_area :: "Mm \<Rightarrow> u64 \<Rightarrow> u64 \<Rightarrow> u64 option option" where
  "find_free_area mm hint sz =
     (let sz = page_align_up sz;
          hint = page_align_up hint;
          limit = u64_saturating_sub USER_SPACE_END PAGE_SIZE;
          hint = (if hint = 0 \<or> hint < USER_SPACE_START then USER_SPACE_START else hint)
      in maple_find_gap (vma_tree mm) sz hint limit)"

definition insert_vma :: "Mm \<Rightarrow> u64 \<Rightarrow> u64 \<Rightarrow> VmaInfo \<Rightarrow> (bool \<times> Mm) option" where
  "insert_vma mm start fin info =
     (let nr_pages = (fin - start) div PAGE_SIZE; flags = vi_flags info
      in do {
        (r, tree) \<leftarrow> maple_insert (vma_tree mm) start fin info;
        let mm = mm\<lparr>vma_tree := tree\<rparr>;
        (case r of
           Inl _ \<Rightarrow> Some (False, mm)
         | Inr _ \<Rightarrow>
             let mm = mm\<lparr>vma_count := vma_count mm + 1, total_vm := total_vm mm + nr_pages\<rparr>;
                 mm = (if vm_contains flags VM_EXEC then mm\<lparr>exec_vm := exec_vm mm + nr_pages\<rparr> else mm);
                 mm = (if vm_contains flags VM_GROWSDOWN then mm\<lparr>stack_vm := stack_vm mm + nr_pages\<rparr> else mm)
             in Some (True, mm))
      })"

definition remove_vma :: "Mm \<Rightarrow> u64 \<Rightarrow> ((u64 \<times> VmaInfo) option \<times> Mm) option" where
  "remove_vma mm start = do {
     (r, tree) \<leftarrow> maple_remove (vma_tree mm) start;
     let mm = mm\<lparr>vma_tree := tree\<rparr>;
     (case r of
        None \<Rightarrow> Some (None, mm)
      | Some (fin, info) \<Rightarrow>
          let nr_pages = (fin - start) div PAGE_SIZE;
              mm = mm\<lparr>vma_count := vma_count mm - 1, total_vm := total_vm mm - nr_pages\<rparr>;
              mm = (if vm_contains (vi_flags info) VM_EXEC then mm\<lparr>exec_vm := exec_vm mm - nr_pages\<rparr> else mm);
              mm = (if vm_contains (vi_flags info) VM_GROWSDOWN then mm\<lparr>stack_vm := stack_vm mm - nr_pages\<rparr> else mm)
          in Some (Some (fin, info), mm))
   }"

datatype BrkError = BrkBelowStart | BrkConflicts | BrkExpansionFailed | BrkCreateFailed | BrkShrinkFailed

definition heap_flags :: VmFlags where
  "heap_flags = vm_set (vm_set (vm_set (vm_set (vm_set vm_empty VM_READ) VM_WRITE) VM_MAYWRITE) VM_ANONYMOUS) VM_HEAP"

text \<open>The two halves of \<^verbatim>\<open>do_brk\<close>; on success they return the address space before \<^verbatim>\<open>brk\<close> is set.\<close>

definition brk_expand :: "Mm \<Rightarrow> u64 \<Rightarrow> ((BrkError + unit) \<times> Mm) option" where
  "brk_expand mm new_brk =
     (let old_brk = brk mm in do {
        conflict \<leftarrow> find_vma_intersection mm old_brk new_brk;
        if conflict \<noteq> None then Some (Inl BrkConflicts, mm)
        else do {
          found \<leftarrow> maple_find (vma_tree mm) (u64_saturating_sub old_brk 1);
          (case found of
             Some (s, e, info) \<Rightarrow>
               if vm_contains (vi_flags info) VM_HEAP then do {
                 let delta = u64_saturating_sub new_brk e div PAGE_SIZE;
                 (r, tree) \<leftarrow> maple_replace (vma_tree mm) s new_brk info;
                 let mm = mm\<lparr>vma_tree := tree\<rparr>;
                 Some (case r of
                         Inr _ \<Rightarrow> (Inr (), mm\<lparr>total_vm := total_vm mm + delta\<rparr>)
                       | Inl _ \<Rightarrow> (Inl BrkExpansionFailed, mm))
               }
               else do {
                 (ok, mm) \<leftarrow> insert_vma mm old_brk new_brk (vma_info_new heap_flags);
                 Some (if ok then Inr () else Inl BrkCreateFailed, mm)
               }
           | None \<Rightarrow> do {
               (ok, mm) \<leftarrow> insert_vma mm old_brk new_brk (vma_info_new heap_flags);
               Some (if ok then Inr () else Inl BrkCreateFailed, mm)
             })
        }
      })"

definition brk_shrink :: "Mm \<Rightarrow> u64 \<Rightarrow> ((BrkError + unit) \<times> Mm) option" where
  "brk_shrink mm new_brk = do {
     found \<leftarrow> maple_find (vma_tree mm) new_brk;
     (case found of
        Some (s, e, info) \<Rightarrow>
          if vm_contains (vi_flags info) VM_HEAP \<and> s \<le> new_brk then do {
            let delta = (brk mm - new_brk) div PAGE_SIZE;
            (r, tree) \<leftarrow> maple_replace (vma_tree mm) s new_brk info;
            let mm = mm\<lparr>vma_tree := tree\<rparr>;
            Some (case r of
                    Inr _ \<Rightarrow> (Inr (), mm\<lparr>total_vm := total_vm mm - delta\<rparr>)
                  | Inl _ \<Rightarrow> (Inl BrkShrinkFailed, mm))
          }
          else Some (Inr (), mm)
      | None \<Rightarrow> Some (Inr (), mm))
   }"

definition do_brk :: "Mm \<Rightarrow> u64 \<Rightarrow> ((BrkError + u64) \<times> Mm) option" where
  "do_brk mm new_brk =
     (let new_brk = page_align_up new_brk; old_brk = brk mm
      in if new_brk < start_brk mm then Some (Inl BrkBelowStart, mm)
         else if new_brk = old_brk then Some (Inr old_brk, mm)
         else do {
           (r, mm) \<leftarrow> (if old_brk < new_brk then brk_expand mm new_brk else brk_shrink mm new_brk);
           Some (case r of Inl e \<Rightarrow> (Inl e, mm) | Inr _ \<Rightarrow> (Inr new_brk, mm\<lparr>brk := new_brk\<rparr>))
         })"

definition expand_stack :: "Mm \<Rightarrow> u64 \<Rightarrow> u64 \<Rightarrow> (bool \<times> Mm) option" where
  "expand_stack mm vma_start new_start =
     (if vma_start \<le> new_start then Some (False, mm)
      else do {
        (r, tree) \<leftarrow> maple_move_start (vma_tree mm) vma_start new_start;
        let mm = mm\<lparr>vma_tree := tree\<rparr>;
        (case r of
           Inr _ \<Rightarrow>
             let delta = (vma_start - new_start) div PAGE_SIZE
             in Some (True, mm\<lparr>stack_vm := stack_vm mm + delta, total_vm := total_vm mm + delta\<rparr>)
         | Inl _ \<Rightarrow> Some (False, mm))
      })"

definition expand_stack_for_fault :: "Mm \<Rightarrow> u64 \<Rightarrow> (Vma option \<times> Mm) option" where
  "expand_stack_for_fault mm fault_addr =
     (let page_addr = fault_addr AND NOT (PAGE_SIZE - 1);
          stack_min = stack_expand_min_addr mm;
          stack_bottom = u64_saturating_sub (stack_top_addr mm) (stack_vm mm * PAGE_SIZE)
      in if page_addr < stack_min \<or> stack_bottom \<le> page_addr then Some (None, mm)
         else do {
           info \<leftarrow> maple_lower_bound (vma_tree mm) page_addr;
           (case info of
              Some (s, e, info) \<Rightarrow>
                if vm_contains (vi_flags info) VM_GROWSDOWN \<and> page_addr < s then do {
                  (ok, mm) \<leftarrow> expand_stack mm s page_addr;
                  if \<not> ok then Some (None, mm)
                  else do { v \<leftarrow> find_vma mm page_addr; Some (v, mm) }
                }
                else Some (None, mm)
            | None \<Rightarrow> Some (None, mm))
         })"

section \<open>Flags of the system call\<close>

definition MAP_SHARED :: u32 where "MAP_SHARED = 0x01"
definition MAP_PRIVATE :: u32 where "MAP_PRIVATE = 0x02"
definition MAP_FIXED :: u32 where "MAP_FIXED = 0x10"
definition MAP_ANONYMOUS :: u32 where "MAP_ANONYMOUS = 0x20"
definition MAP_GROWSDOWN :: u32 where "MAP_GROWSDOWN = 0x0100"
definition MAP_LOCKED :: u32 where "MAP_LOCKED = 0x2000"
definition MAP_HUGETLB :: u32 where "MAP_HUGETLB = 0x40000"
definition PROT_NONE :: u32 where "PROT_NONE = 0x0"
definition PROT_READ :: u32 where "PROT_READ = 0x1"
definition PROT_WRITE :: u32 where "PROT_WRITE = 0x2"
definition PROT_EXEC :: u32 where "PROT_EXEC = 0x4"

text \<open>The statement \<^verbatim>\<open>if cond { vm_flags.set(flag); }\<close>.\<close>

definition vm_set_if :: "bool \<Rightarrow> u64 \<Rightarrow> VmFlags \<Rightarrow> VmFlags" where
  "vm_set_if cond flag f = (if cond then vm_set f flag else f)"

definition mmap_flags_to_vm_flags :: "u32 \<Rightarrow> u32 \<Rightarrow> VmFlags" where
  "mmap_flags_to_vm_flags prot flags =
     (let f = vm_set_if (prot AND PROT_READ \<noteq> 0) VM_READ vm_empty;
          f = vm_set_if (prot AND PROT_WRITE \<noteq> 0) VM_WRITE f;
          f = vm_set_if (prot AND PROT_WRITE \<noteq> 0) VM_MAYWRITE f;
          f = vm_set_if (prot AND PROT_EXEC \<noteq> 0) VM_EXEC f;
          f = vm_set_if (flags AND MAP_SHARED \<noteq> 0) VM_SHARED f;
          f = vm_set_if (flags AND MAP_ANONYMOUS \<noteq> 0) VM_ANONYMOUS f;
          f = vm_set_if (flags AND MAP_GROWSDOWN \<noteq> 0) VM_GROWSDOWN f;
          f = vm_set_if (flags AND MAP_LOCKED \<noteq> 0) VM_LOCKED f
      in vm_set_if (flags AND MAP_HUGETLB \<noteq> 0) VM_HUGETLB f)"

text \<open>The part of a range that lies in user space.\<close>

definition user_vma_intersection :: "u64 \<Rightarrow> u64 \<Rightarrow> (u64 \<times> u64) option" where
  "user_vma_intersection start fin =
     (let s = max start USER_SPACE_START; e = min fin USER_SPACE_END in if s < e then Some (s, e) else None)"

end
