(* ===== verification/Vma_Proofs.thy ===== *)
theory Vma_Proofs
  imports Vma
begin

text \<open>
  The accounting invariant of an address space and the operations on the list of its areas. The
  proofs use the maple tree only through the facts of the interpretation \<open>mt\<close> and the equations of
  the operations that are not part of that interface.
\<close>

section \<open>Sums over the areas\<close>

definition area_pages :: "u64 \<Rightarrow> u64 \<Rightarrow> u64" where
  "area_pages s e = (e - s) div PAGE_SIZE"

text \<open>The pages of the areas whose flags satisfy a predicate.\<close>

definition pages_of :: "(VmFlags \<Rightarrow> bool) \<Rightarrow> VmaInfo range list \<Rightarrow> u64" where
  "pages_of P rs = (\<Sum>(s, e, info) \<leftarrow> rs. if P (vi_flags info) then area_pages s e else 0)"

lemma sum_put:
  fixes f :: "'v range \<Rightarrow> 'a :: comm_monoid_add"
  assumes "ranges_ok rs" "s \<notin> fst ` set rs"
  shows "(\<Sum>r \<leftarrow> range_put s e v rs. f r) = f (s, e, v) + (\<Sum>r \<leftarrow> rs. f r)" "length (range_put s e v rs) = Suc (length rs)"
proof -
  have split: "filter (\<lambda>r. fst r < s) rs @ filter (\<lambda>r. s < fst r) rs = rs"
    by (rule filter_split_sorted [OF ranges_ok_starts [OF assms(1)] assms(2)])
  have "(\<Sum>r \<leftarrow> range_put s e v rs. f r) =
      f (s, e, v) + (\<Sum>r \<leftarrow> filter (\<lambda>r. fst r < s) rs @ filter (\<lambda>r. s < fst r) rs. f r)"
    by (simp add: range_put_def ac_simps)
  then show "(\<Sum>r \<leftarrow> range_put s e v rs. f r) = f (s, e, v) + (\<Sum>r \<leftarrow> rs. f r)" by (simp only: split)
  have "length (range_put s e v rs) = Suc (length (filter (\<lambda>r. fst r < s) rs @ filter (\<lambda>r. s < fst r) rs))"
    by (simp add: range_put_def)
  then show "length (range_put s e v rs) = Suc (length rs)" by (simp only: split)
qed

lemma sum_del:
  fixes f :: "'v range \<Rightarrow> 'a :: comm_monoid_add"
  assumes "ranges_ok rs" "(s, e, v) \<in> set rs"
  shows "(\<Sum>r \<leftarrow> rs. f r) = f (s, e, v) + (\<Sum>r \<leftarrow> range_del s rs. f r)" "length rs = Suc (length (range_del s rs))"
proof -
  obtain L R where "rs = L @ (s, e, v) # R" "range_del s rs = L @ R"
    using del_split [OF assms] by metis
  then show "(\<Sum>r \<leftarrow> rs. f r) = f (s, e, v) + (\<Sum>r \<leftarrow> range_del s rs. f r)" "length rs = Suc (length (range_del s rs))"
    by (simp_all add: ac_simps)
qed

lemma can_put_start: "ranges_ok rs \<Longrightarrow> can_put s e rs \<Longrightarrow> s \<notin> fst ` set rs"
  using start_free [of rs s e] by (auto simp: can_put_def list_all_iff)

lemma del_start: "s \<notin> fst ` set (range_del s rs)"
  by (auto simp: range_del_def)

lemma pages_put:
  assumes "ranges_ok rs" "s \<notin> fst ` set rs"
  shows "pages_of P (range_put s e info rs) = (if P (vi_flags info) then area_pages s e else 0) + pages_of P rs"
  using sum_put(1) [OF assms, where f = "\<lambda>(s, e, info). if P (vi_flags info) then area_pages s e else 0"]
  by (simp add: pages_of_def)

lemma pages_del:
  assumes "ranges_ok rs" "(s, e, info) \<in> set rs"
  shows "pages_of P rs = (if P (vi_flags info) then area_pages s e else 0) + pages_of P (range_del s rs)"
  using sum_del(1) [OF assms, where f = "\<lambda>(s, e, info). if P (vi_flags info) then area_pages s e else 0"]
  by (simp add: pages_of_def)

section \<open>The invariant\<close>

abbreviation exec_flag :: "VmFlags \<Rightarrow> bool" where "exec_flag f \<equiv> vm_contains f VM_EXEC"
abbreviation stack_flag :: "VmFlags \<Rightarrow> bool" where "stack_flag f \<equiv> vm_contains f VM_GROWSDOWN"

text \<open>The address space holds the areas \<open>rs\<close>, and its counters agree with them.\<close>

definition mm_areas :: "Mm \<Rightarrow> VmaInfo range list \<Rightarrow> bool" where
  "mm_areas mm rs \<longleftrightarrow> holds (vma_tree mm) rs \<and> vma_count mm = of_nat (length rs) \<and>
     total_vm mm = pages_of (\<lambda>_. True) rs \<and> exec_vm mm = pages_of exec_flag rs \<and> stack_vm mm = pages_of stack_flag rs"

text \<open>The fields that the operations on areas leave alone.\<close>

definition same_layout :: "Mm \<Rightarrow> Mm \<Rightarrow> bool" where
  "same_layout mm mm' \<longleftrightarrow> start_brk mm' = start_brk mm \<and> brk mm' = brk mm \<and> start_stack mm' = start_stack mm \<and>
     pgd mm' = pgd mm \<and> mm_count mm' = mm_count mm \<and> mm_users mm' = mm_users mm"

lemma mm_areas_ok: "mm_areas mm rs \<Longrightarrow> ranges_ok rs"
  by (auto simp: mm_areas_def intro: mt.rep_ok)

lemma mm_uninit_areas: "mm_areas mm_uninit []"
  by (simp add: mm_areas_def mm_uninit_def pages_of_def maple_new_holds)

lemma mm_init_areas: "mm_areas mm [] \<Longrightarrow> mm_areas (mm_init mm pgd_phys) []"
  by (simp add: mm_areas_def mm_init_def)

lemma insert_vma_spec:
  assumes "mm_areas mm rs"
  shows "\<exists>mm'. insert_vma mm s e info = Some (can_put s e rs, mm') \<and> mm_areas mm' (try_put s e info rs) \<and> same_layout mm mm'"
proof -
  have h: "holds (vma_tree mm) rs" and ok: "ranges_ok rs" using assms mm_areas_ok by (auto simp: mm_areas_def)
  obtain tree where tree: "maple_insert (vma_tree mm) s e info =
      Some (if can_put s e rs then Inr None else Inl (put_error s e), tree)" "holds tree (try_put s e info rs)"
    using mt.insert_rep [OF h] by metis
  show ?thesis
  proof (cases "can_put s e rs")
    case False
    then show ?thesis
      using assms tree by (auto simp: insert_vma_def Let_def mm_areas_def try_put_def same_layout_def)
  next
    case True
    note start = can_put_start [OF ok True]
    then show ?thesis
      using assms tree True pages_put [OF ok start, of _ e info] sum_put(2) [OF ok start, of e info]
      by (auto simp: insert_vma_def Let_def mm_areas_def try_put_def same_layout_def area_pages_def)
  qed
qed

lemma remove_vma_spec:
  assumes "mm_areas mm rs" "length rs < btree_bound"
  shows "\<exists>mm'. remove_vma mm s = Some (map_of rs s, mm') \<and> mm_areas mm' (range_del s rs) \<and> same_layout mm mm'"
proof -
  have h: "holds (vma_tree mm) rs" and ok: "ranges_ok rs" using assms mm_areas_ok by (auto simp: mm_areas_def)
  obtain tree where tree: "maple_remove (vma_tree mm) s = Some (map_of rs s, tree)" "holds tree (range_del s rs)"
    using mt.remove_rep [OF h assms(2)] by metis
  show ?thesis
  proof (cases "map_of rs s")
    case None
    then have "range_del s rs = rs" by (simp add: map_of_eq_None_iff range_del_absent)
    then show ?thesis using assms tree None by (auto simp: remove_vma_def mm_areas_def same_layout_def)
  next
    case (Some p)
    obtain e info where p: "p = (e, info)" by (cases p)
    then have mem: "(s, e, info) \<in> set rs" using Some map_of_start [OF ok] by simp
    show ?thesis
      using assms tree Some p pages_del [OF ok mem] sum_del(2) [OF ok mem]
      by (auto simp: remove_vma_def Let_def mm_areas_def same_layout_def area_pages_def)
  qed
qed

section \<open>Resizing an area\<close>

lemma area_pages_add:
  assumes "is_aligned PAGE_SIZE s" "is_aligned PAGE_SIZE m" "s \<le> m" "m \<le> e"
  shows "area_pages s e = area_pages s m + area_pages m e"
proof -
  have le: "unat s \<le> unat m" "unat m \<le> unat e" and dvd: "4096 dvd unat m - unat s"
    using assms by (auto simp: word_le_nat_alt is_aligned_page)
  have "unat e - unat s = (unat m - unat s) + (unat e - unat m)" using le by simp
  then have "(unat e - unat s) div 4096 = (unat m - unat s) div 4096 + (unat e - unat m) div 4096"
    using dvd by (simp add: div_plus_div_distrib_dvd_left)
  moreover have "unat (area_pages s m + area_pages m e) = unat (area_pages s m) + unat (area_pages m e)"
  proof (intro unat_add_no_wrap)
    have "unat (area_pages s m) \<le> unat m" "unat (area_pages m e) \<le> unat e - unat m"
      using assms(3,4) le by (simp_all add: area_pages_def unat_div page_mask(3) unat_sub le_trans [OF div_le_dividend])
    then have "unat (area_pages s m) + unat (area_pages m e) \<le> unat e" using le by linarith
    then show "unat (area_pages s m) + unat (area_pages m e) < 2 ^ 64" by (rule le_less_trans) simp
  qed
  ultimately have "unat (area_pages s e) = unat (area_pages s m + area_pages m e)"
    using assms(3,4) order_trans [OF assms(3,4)] by (simp add: area_pages_def unat_div page_mask(3) unat_sub)
  then show ?thesis by (rule unsigned_word_eqI)
qed

lemma set_put: "ranges_ok rs \<Longrightarrow> s \<notin> fst ` set rs \<Longrightarrow> set (range_put s e v rs) = insert (s, e, v) (set rs)"
  by (force simp: range_put_def neq_iff)

lemma set_del: "set (range_del s rs) = {r \<in> set rs. fst r \<noteq> s}"
  by (auto simp: range_del_def)

lemma can_put_shorter: "can_put s e rs \<Longrightarrow> s < m \<Longrightarrow> m \<le> e \<Longrightarrow> can_put s m rs"
  by (fastforce simp: can_put_def r_overlaps_def list_all_iff)

lemma can_put_longer:
  assumes "ranges_ok rs" "can_put s m rs" "m < e" "\<not> list_ex (r_overlaps m e) rs"
  shows "can_put s e rs"
proof -
  have "\<not> r_overlaps s e r" if "r \<in> set rs" for r
  proof -
    obtain s' e' v where r: "r = (s', e', v)" by (cases r)
    have "\<not> r_overlaps s m r" "\<not> r_overlaps m e r" "s' < e'"
      using assms that r by (auto simp: can_put_def list_all_iff list_ex_iff ranges_ok_def)
    then show ?thesis using r by (auto simp: r_overlaps_def)
  qed
  then show ?thesis using assms(2,3) by (auto simp: can_put_def list_all_iff)
qed

text \<open>Replacing the end of an area that is neither executable nor a stack: only the total changes.\<close>

lemma resize_areas:
  assumes a: "mm_areas mm rs" and mem: "(s, e, info) \<in> set rs"
    and plain: "\<not> exec_flag (vi_flags info)" "\<not> stack_flag (vi_flags info)"
    and tree: "holds tree (range_put s e' info (range_del s rs))"
    and total: "tv = total_vm mm - area_pages s e + area_pages s e'"
  shows "mm_areas (mm\<lparr>vma_tree := tree, total_vm := tv\<rparr>) (range_put s e' info (range_del s rs))"
proof -
  have ok: "ranges_ok rs" by (rule mm_areas_ok [OF a])
  note del = ranges_ok_del [OF ok, of s] and start = del_start [of s rs]
  show ?thesis
    using a tree total plain pages_put [OF del start, of _ e' info] pages_del [OF ok mem] sum_put(2) [OF del start, of e' info]
      sum_del(2) [OF ok mem]
    by (simp add: mm_areas_def)
qed

section \<open>The heap\<close>

text \<open>The heap area is exactly the range from \<open>start_brk\<close> to \<open>brk\<close>, and there is none when they are equal.\<close>

definition heap_ok :: "Mm \<Rightarrow> VmaInfo range list \<Rightarrow> bool" where
  "heap_ok mm rs \<longleftrightarrow> is_aligned PAGE_SIZE (start_brk mm) \<and> is_aligned PAGE_SIZE (brk mm) \<and> start_brk mm \<le> brk mm \<and>
     (\<forall>(s, e, info) \<in> set rs. vm_contains (vi_flags info) VM_HEAP \<longrightarrow>
        s = start_brk mm \<and> e = brk mm \<and> \<not> exec_flag (vi_flags info) \<and> \<not> stack_flag (vi_flags info)) \<and>
     (start_brk mm < brk mm \<longrightarrow> (\<exists>info. (start_brk mm, brk mm, info) \<in> set rs \<and> vm_contains (vi_flags info) VM_HEAP))"

definition heap_info :: "Mm \<Rightarrow> VmaInfo range list \<Rightarrow> VmaInfo" where
  "heap_info mm rs = (case map_of rs (start_brk mm) of Some (e, info) \<Rightarrow> info | None \<Rightarrow> vma_info_new heap_flags)"

definition brk_areas :: "Mm \<Rightarrow> VmaInfo range list \<Rightarrow> u64 \<Rightarrow> VmaInfo range list" where
  "brk_areas mm rs b = range_put (start_brk mm) b (heap_info mm rs) (range_del (start_brk mm) rs)"

lemma heap_flags_bits: "vm_contains heap_flags VM_HEAP" "\<not> exec_flag heap_flags" "\<not> stack_flag heap_flags"
  by (simp_all add: heap_flags_def vm_contains_def vm_set_def vm_empty_def vm_flag_defs)

lemma intersection_eq:
  assumes "mm_areas mm rs"
  shows "\<exists>c. find_vma_intersection mm s e = Some c \<and> (c = None \<longleftrightarrow> \<not> list_ex (r_overlaps s e) rs)"
proof -
  have "filter (r_overlaps s e) rs = [] \<longleftrightarrow> \<not> list_ex (r_overlaps s e) rs" by (auto simp: filter_empty_conv list_ex_iff)
  then show ?thesis
    using assms by (auto simp: find_vma_intersection_def mm_areas_def iter_intersecting_holds split: list.splits)
qed

lemma heap_ok_areas:
  assumes "ranges_ok rs" "heap_ok mm rs" "start_brk mm < b" "is_aligned PAGE_SIZE b"
    and "start_brk mm = brk mm \<Longrightarrow> start_brk mm \<notin> fst ` set rs"
    and "start_brk mm' = start_brk mm" "brk mm' = b"
  shows "heap_ok mm' (brk_areas mm rs b)"
proof -
  let ?s = "start_brk mm"
  have info: "vm_contains (vi_flags (heap_info mm rs)) VM_HEAP \<and> \<not> exec_flag (vi_flags (heap_info mm rs)) \<and>
      \<not> stack_flag (vi_flags (heap_info mm rs))"
  proof (cases "?s = brk mm")
    case True
    then have "map_of rs ?s = None" using assms(5) by (simp add: map_of_eq_None_iff)
    then show ?thesis using heap_flags_bits by (simp add: heap_info_def vma_info_new_def)
  next
    case False
    then have lt: "?s < brk mm" using assms(2) by (simp add: heap_ok_def less_le)
    then obtain info where "(?s, brk mm, info) \<in> set rs" "vm_contains (vi_flags info) VM_HEAP"
      using assms(2) by (auto simp: heap_ok_def)
    moreover from this have "map_of rs ?s = Some (brk mm, info)" using map_of_start [OF assms(1)] by simp
    ultimately show ?thesis using assms(2) by (auto simp: heap_info_def heap_ok_def)
  qed
  have set: "set (brk_areas mm rs b) = insert (?s, b, heap_info mm rs) {r \<in> set rs. fst r \<noteq> ?s}"
    using set_put [OF ranges_ok_del [OF assms(1)] del_start] by (simp add: brk_areas_def set_del)
  show ?thesis
    using assms(2-4,6,7) info by (auto simp: heap_ok_def set)
qed

lemma heap_area:
  assumes "ranges_ok rs" "heap_ok mm rs" "start_brk mm < brk mm"
  shows "(start_brk mm, brk mm, heap_info mm rs) \<in> set rs" "vm_contains (vi_flags (heap_info mm rs)) VM_HEAP"
    "\<not> exec_flag (vi_flags (heap_info mm rs))" "\<not> stack_flag (vi_flags (heap_info mm rs))"
proof -
  obtain info where i: "(start_brk mm, brk mm, info) \<in> set rs" "vm_contains (vi_flags info) VM_HEAP"
    using assms(2,3) by (auto simp: heap_ok_def)
  then have "heap_info mm rs = info"
    using map_of_start [OF assms(1), of "start_brk mm" "brk mm" info] by (simp add: heap_info_def)
  with i show "(start_brk mm, brk mm, heap_info mm rs) \<in> set rs" "vm_contains (vi_flags (heap_info mm rs)) VM_HEAP"
    "\<not> exec_flag (vi_flags (heap_info mm rs))" "\<not> stack_flag (vi_flags (heap_info mm rs))"
    using assms(2) by (auto simp: heap_ok_def)
qed

text \<open>Replacing the end of the heap area in the tree.\<close>

lemma heap_resize:
  assumes a: "mm_areas mm rs" "heap_ok mm rs" "length rs < btree_bound" "start_brk mm < brk mm"
    and put: "can_put (start_brk mm) b (range_del (start_brk mm) rs)"
    and tv: "tv = total_vm mm - area_pages (start_brk mm) (brk mm) + area_pages (start_brk mm) b"
  shows "\<exists>r tree. maple_replace (vma_tree mm) (start_brk mm) b (heap_info mm rs) = Some (Inr r, tree) \<and>
    mm_areas (mm\<lparr>vma_tree := tree, total_vm := tv\<rparr>) (brk_areas mm rs b)"
proof -
  have ok: "ranges_ok rs" by (rule mm_areas_ok [OF a(1)])
  note h = heap_area [OF ok a(2,4)]
  have "holds (vma_tree mm) rs" using a(1) by (simp add: mm_areas_def)
  then obtain tree where t: "maple_replace (vma_tree mm) (start_brk mm) b (heap_info mm rs) =
      Some (Inr (map_of rs (start_brk mm)), tree)" "holds tree (brk_areas mm rs b)"
    using mt.replace_rep [OF _ a(3), of "vma_tree mm" "start_brk mm" b "heap_info mm rs"] put
    by (auto simp: brk_areas_def)
  then show ?thesis
    using resize_areas [OF a(1) h(1,3,4), of tree b tv] tv by (auto simp: brk_areas_def)
qed

lemma brk_expand_spec:
  assumes a: "mm_areas mm rs" "heap_ok mm rs" "length rs < btree_bound" and b: "brk mm < b" "is_aligned PAGE_SIZE b"
  shows "\<exists>mm'. brk_expand mm b =
      Some (if list_ex (r_overlaps (brk mm) b) rs then Inl BrkConflicts else Inr (), mm') \<and> same_layout mm mm' \<and>
    (if list_ex (r_overlaps (brk mm) b) rs then mm' = mm
     else mm_areas mm' (brk_areas mm rs b) \<and> (start_brk mm = brk mm \<longrightarrow> start_brk mm \<notin> fst ` set rs))"
proof -
  have ok: "ranges_ok rs" and h: "holds (vma_tree mm) rs" using a(1) mm_areas_ok by (auto simp: mm_areas_def)
  have hp: "start_brk mm \<le> brk mm" "is_aligned PAGE_SIZE (start_brk mm)" "is_aligned PAGE_SIZE (brk mm)"
    using a(2) by (simp_all add: heap_ok_def)
  obtain c where c: "find_vma_intersection mm (brk mm) b = Some c" "c = None \<longleftrightarrow> \<not> list_ex (r_overlaps (brk mm) b) rs"
    using intersection_eq [OF a(1)] by metis
  show ?thesis
  proof (cases "list_ex (r_overlaps (brk mm) b) rs")
    case True
    then show ?thesis using c by (auto simp: brk_expand_def Let_def same_layout_def)
  next
    case free: False
    note find = mt.find_rep [OF h, of "u64_saturating_sub (brk mm) 1"]
    show ?thesis
    proof (cases "start_brk mm < brk mm")
      case True
      note heap = heap_area [OF ok a(2) True]
      have "r_holds (u64_saturating_sub (brk mm) 1) (start_brk mm, brk mm, heap_info mm rs)"
        using True by (auto simp: r_holds_def word_le_nat_alt word_less_nat_alt unat_saturating_sub)
      then have f: "List.find (r_holds (u64_saturating_sub (brk mm) 1)) rs = Some (start_brk mm, brk mm, heap_info mm rs)"
        by (rule find_unique [OF ok heap(1)])
      have "can_put (start_brk mm) b (range_del (start_brk mm) rs)"
        using can_put_longer [OF ranges_ok_del [OF ok] can_put_back(1) [OF ok heap(1)] b(1)] free
        by (auto simp: list_ex_iff set_del)
      then obtain r tree where t: "maple_replace (vma_tree mm) (start_brk mm) b (heap_info mm rs) = Some (Inr r, tree)"
          "mm_areas (mm\<lparr>vma_tree := tree, total_vm := total_vm mm + area_pages (brk mm) b\<rparr>) (brk_areas mm rs b)"
        using heap_resize [OF a True, of b "total_vm mm + area_pages (brk mm) b"]
          area_pages_add [OF hp(2,3,1) less_imp_le [OF b(1)]] by auto
      then show ?thesis
        using c free find f heap(2) True b(1)
        by (auto simp: brk_expand_def Let_def same_layout_def area_pages_def u64_saturating_sub_def)
    next
      case False
      then have eq: "start_brk mm = brk mm" using hp(1) by simp
      have "can_put (brk mm) b rs" using b(1) free by (auto simp: can_put_def list_all_iff list_ex_iff)
      moreover from this have no: "start_brk mm \<notin> fst ` set rs" using can_put_start [OF ok] eq by simp
      ultimately obtain mm' where ins: "insert_vma mm (brk mm) b (vma_info_new heap_flags) = Some (True, mm')"
          "mm_areas mm' (brk_areas mm rs b)" "same_layout mm mm'"
        using insert_vma_spec [OF a(1), of "brk mm" b "vma_info_new heap_flags"] eq
        by (auto simp: brk_areas_def heap_info_def try_put_def range_del_absent map_of_eq_None_iff [THEN iffD2])
      have "\<not> vm_contains (vi_flags info) VM_HEAP"
        if "List.find (r_holds (u64_saturating_sub (brk mm) 1)) rs = Some (s, e, info)" for s e info
        using that a(2) no eq by (force simp: heap_ok_def find_Some_iff dest: nth_mem)
      then show ?thesis
        using c free find ins no no [unfolded eq]
        by (cases "List.find (r_holds (u64_saturating_sub (brk mm) 1)) rs") (simp_all add: brk_expand_def split: prod.splits)
    qed
  qed
qed

lemma brk_shrink_spec:
  assumes a: "mm_areas mm rs" "heap_ok mm rs" "length rs < btree_bound"
    and b: "b < brk mm" "start_brk mm \<le> b" "is_aligned PAGE_SIZE b"
  shows "\<exists>mm'. brk_shrink mm b = Some (if b = start_brk mm then Inl BrkShrinkFailed else Inr (), mm') \<and> same_layout mm mm' \<and>
    mm_areas mm' (if b = start_brk mm then rs else brk_areas mm rs b)"
proof -
  have ok: "ranges_ok rs" and h: "holds (vma_tree mm) rs" using a(1) mm_areas_ok by (auto simp: mm_areas_def)
  have hp: "is_aligned PAGE_SIZE (start_brk mm)" "start_brk mm < brk mm" using a(2) b by (auto simp: heap_ok_def)
  note heap = heap_area [OF ok a(2) hp(2)]
  have "r_holds b (start_brk mm, brk mm, heap_info mm rs)" using b by (simp add: r_holds_def)
  then have f: "maple_find (vma_tree mm) b = Some (Some (start_brk mm, brk mm, heap_info mm rs))"
    using mt.find_rep [OF h, of b] find_unique [OF ok heap(1)] by simp
  show ?thesis
  proof (cases "b = start_brk mm")
    case True
    then obtain tree where "maple_replace (vma_tree mm) (start_brk mm) b (heap_info mm rs) = Some (Inl (put_error b b), tree)"
        "holds tree rs"
      using mt.replace_rep [OF h a(3), of "start_brk mm" b "heap_info mm rs"] by (auto simp: can_put_def)
    then show ?thesis using f True heap(2) a(1) by (auto simp: brk_shrink_def same_layout_def mm_areas_def)
  next
    case False
    then have "can_put (start_brk mm) b (range_del (start_brk mm) rs)"
      using can_put_shorter [OF can_put_back(1) [OF ok heap(1)]] b by simp
    then obtain r tree where "maple_replace (vma_tree mm) (start_brk mm) b (heap_info mm rs) = Some (Inr r, tree)"
        "mm_areas (mm\<lparr>vma_tree := tree, total_vm := total_vm mm - area_pages b (brk mm)\<rparr>) (brk_areas mm rs b)"
      using heap_resize [OF a hp(2), of b "total_vm mm - area_pages b (brk mm)"]
        area_pages_add [OF hp(1) b(3,2) less_imp_le [OF b(1)]] by auto
    then show ?thesis
      using f False heap(2) b(2) by (auto simp: brk_shrink_def same_layout_def area_pages_def)
  qed
qed

text \<open>What \<open>do_brk\<close> returns.\<close>

definition brk_result :: "Mm \<Rightarrow> VmaInfo range list \<Rightarrow> u64 \<Rightarrow> BrkError + u64" where
  "brk_result mm rs b =
     (if b < start_brk mm then Inl BrkBelowStart
      else if brk mm < b \<and> list_ex (r_overlaps (brk mm) b) rs then Inl BrkConflicts
      else if b < brk mm \<and> b = start_brk mm then Inl BrkShrinkFailed
      else Inr b)"

lemma do_brk_spec:
  assumes a: "mm_areas mm rs" "heap_ok mm rs" "length rs < btree_bound" and b: "b = page_align_up new_brk"
  shows "\<exists>mm'. do_brk mm new_brk = Some (brk_result mm rs b, mm') \<and>
    (case brk_result mm rs b of
       Inl _ \<Rightarrow> mm_areas mm' rs \<and> same_layout mm mm'
     | Inr _ \<Rightarrow> brk mm' = b \<and> start_brk mm' = start_brk mm \<and>
         mm_areas mm' (if b = brk mm then rs else brk_areas mm rs b) \<and>
         heap_ok mm' (if b = brk mm then rs else brk_areas mm rs b))"
proof -
  have al: "is_aligned PAGE_SIZE b" using b page_align_up_aligned by simp
  have ok: "ranges_ok rs" by (rule mm_areas_ok [OF a(1)])
  have hp: "start_brk mm \<le> brk mm" using a(2) by (simp add: heap_ok_def)
  consider (below) "b < start_brk mm" | (same) "b = brk mm" "\<not> b < start_brk mm" | (up) "brk mm < b" | (down) "b < brk mm" "start_brk mm \<le> b"
    by (meson linorder_neqE not_less)
  then show ?thesis
  proof cases
    case up
    then have le: "\<not> b < start_brk mm" "\<not> b < brk mm" "b \<noteq> brk mm" using hp by auto
    show ?thesis
    proof (cases "list_ex (r_overlaps (brk mm) b) rs")
      case True
      then show ?thesis using brk_expand_spec [OF a up al] up le a(1) by (auto simp: do_brk_def b [symmetric] Let_def brk_result_def)
    next
      case False
      then obtain mm' where mm': "brk_expand mm b = Some (Inr (), mm')" "same_layout mm mm'" "mm_areas mm' (brk_areas mm rs b)"
          "start_brk mm = brk mm \<longrightarrow> start_brk mm \<notin> fst ` set rs"
        using brk_expand_spec [OF a up al] by auto
      have "heap_ok (mm'\<lparr>brk := b\<rparr>) (brk_areas mm rs b)"
        using heap_ok_areas [OF ok a(2) _ al, of "mm'\<lparr>brk := b\<rparr>"] mm'(2,4) up hp by (auto simp: same_layout_def)
      then show ?thesis
        using mm' up le False by (auto simp: do_brk_def b [symmetric] Let_def brk_result_def same_layout_def mm_areas_def)
    qed
  next
    case down
    then have le: "\<not> b < start_brk mm" "\<not> brk mm < b" "b \<noteq> brk mm" by auto
    obtain mm' where mm': "brk_shrink mm b = Some (if b = start_brk mm then Inl BrkShrinkFailed else Inr (), mm')"
        "same_layout mm mm'" "mm_areas mm' (if b = start_brk mm then rs else brk_areas mm rs b)"
      using brk_shrink_spec [OF a down al] by metis
    have "heap_ok (mm'\<lparr>brk := b\<rparr>) (brk_areas mm rs b)" if "b \<noteq> start_brk mm"
      using heap_ok_areas [OF ok a(2) _ al, of "mm'\<lparr>brk := b\<rparr>"] mm'(2) that down by (auto simp: same_layout_def)
    then show ?thesis
      using mm' down le by (auto simp: do_brk_def b [symmetric] Let_def brk_result_def same_layout_def mm_areas_def)
  qed (use a in \<open>auto simp: do_brk_def b [symmetric] Let_def brk_result_def same_layout_def\<close>)
qed

end
