(* ===== verification/Vma_Props.thy ===== *)
theory Vma_Props
  imports Vma_Proofs
begin

text \<open>
  Properties of the address space: placement of new mappings, accounting, the heap, the growing
  stack, and the translation of the flags of the system call.
\<close>

section \<open>Flags\<close>

lemma contains_bit: "n < 64 \<Longrightarrow> vm_contains f (push_bit n 1) \<longleftrightarrow> bit (vm_bits f) n"
proof -
  assume n: "n < 64"
  have "bit (push_bit n (1 :: u64)) n" using n by (simp add: bit_simps)
  moreover have "vm_bits f AND push_bit n 1 = push_bit n 1" if "bit (vm_bits f) n"
    using that by (auto intro!: bit_word_eqI simp: bit_simps)
  ultimately show ?thesis
    unfolding vm_contains_def by (metis bit_and_iff)
qed

lemma contains_flag:
  "vm_contains f VM_READ \<longleftrightarrow> bit (vm_bits f) 0" "vm_contains f VM_WRITE \<longleftrightarrow> bit (vm_bits f) 1"
  "vm_contains f VM_EXEC \<longleftrightarrow> bit (vm_bits f) 2" "vm_contains f VM_SHARED \<longleftrightarrow> bit (vm_bits f) 3"
  "vm_contains f VM_ANONYMOUS \<longleftrightarrow> bit (vm_bits f) 4" "vm_contains f VM_GROWSDOWN \<longleftrightarrow> bit (vm_bits f) 5"
  "vm_contains f VM_HEAP \<longleftrightarrow> bit (vm_bits f) 6" "vm_contains f VM_LOCKED \<longleftrightarrow> bit (vm_bits f) 10"
  "vm_contains f VM_HUGETLB \<longleftrightarrow> bit (vm_bits f) 12" "vm_contains f VM_MAYWRITE \<longleftrightarrow> bit (vm_bits f) 15"
  unfolding vm_flag_defs by (rule contains_bit, simp)+

lemma set_if_bit: "n < 64 \<Longrightarrow> bit (vm_bits (vm_set_if c (push_bit k 1) f)) n \<longleftrightarrow> c \<and> n = k \<or> bit (vm_bits f) n"
  by (auto simp: vm_set_if_def vm_set_def bit_simps)

lemma set_if_flag:
  assumes "n < 64"
  shows "bit (vm_bits (vm_set_if c VM_READ f)) n \<longleftrightarrow> c \<and> n = 0 \<or> bit (vm_bits f) n"
    "bit (vm_bits (vm_set_if c VM_WRITE f)) n \<longleftrightarrow> c \<and> n = 1 \<or> bit (vm_bits f) n"
    "bit (vm_bits (vm_set_if c VM_EXEC f)) n \<longleftrightarrow> c \<and> n = 2 \<or> bit (vm_bits f) n"
    "bit (vm_bits (vm_set_if c VM_SHARED f)) n \<longleftrightarrow> c \<and> n = 3 \<or> bit (vm_bits f) n"
    "bit (vm_bits (vm_set_if c VM_ANONYMOUS f)) n \<longleftrightarrow> c \<and> n = 4 \<or> bit (vm_bits f) n"
    "bit (vm_bits (vm_set_if c VM_GROWSDOWN f)) n \<longleftrightarrow> c \<and> n = 5 \<or> bit (vm_bits f) n"
    "bit (vm_bits (vm_set_if c VM_LOCKED f)) n \<longleftrightarrow> c \<and> n = 10 \<or> bit (vm_bits f) n"
    "bit (vm_bits (vm_set_if c VM_HUGETLB f)) n \<longleftrightarrow> c \<and> n = 12 \<or> bit (vm_bits f) n"
    "bit (vm_bits (vm_set_if c VM_MAYWRITE f)) n \<longleftrightarrow> c \<and> n = 15 \<or> bit (vm_bits f) n"
  unfolding vm_flag_defs by (rule set_if_bit [OF assms])+



section \<open>Placement\<close>

definition user_limit :: u64 where
  "user_limit = u64_saturating_sub USER_SPACE_END PAGE_SIZE"

text \<open>The lowest address the search considers.\<close>

definition area_hint :: "u64 \<Rightarrow> u64" where
  "area_hint hint =
     (let h = page_align_up hint in if h = 0 \<or> h < USER_SPACE_START then USER_SPACE_START else h)"

lemma area_hint_aligned: "is_aligned PAGE_SIZE (area_hint hint)"
  using page_align_up_aligned by (simp add: area_hint_def Let_def is_aligned_page USER_SPACE_START_def)

lemma lowest_gap_aligned:
  assumes fits: "gap_fits rs sz lo hi g" and low: "\<forall>g'. gap_fits rs sz lo hi g' \<longrightarrow> g \<le> g'"
    and lo: "is_aligned PAGE_SIZE lo" and ends: "\<forall>(s, e, v) \<in> set rs. is_aligned PAGE_SIZE e"
  shows "is_aligned PAGE_SIZE g"
proof -
  let ?h = "page_align_down g"
  have h: "?h \<le> g" "unat ?h \<le> unat g" using page_align_down_spec(2) by (simp_all add: word_le_nat_alt)
  have "lo \<le> ?h" using fits by (intro page_align_down_spec(3) lo) (simp add: gap_fits_def)
  moreover have "unat ?h + unat sz \<le> unat s \<or> e \<le> ?h" if "(s, e, v) \<in> set rs" for s e v
  proof -
    have "unat g + unat sz \<le> unat s \<or> e \<le> g" using fits that by (auto simp: gap_fits_def list_all_iff)
    then show ?thesis using h(2) ends that page_align_down_spec(3) [of e g] by auto
  qed
  ultimately have "gap_fits rs sz lo hi ?h" using fits h(2) by (auto simp: gap_fits_def list_all_iff)
  then have "g = ?h" using low h(1) by (simp add: order_antisym)
  then show ?thesis using page_align_down_spec(1) by metis
qed




section \<open>The stack\<close>

text \<open>The stack area that a fault on \<open>page\<close> extends: the next area above, if it is a stack and the gap is free.\<close>

definition stack_target :: "Mm \<Rightarrow> VmaInfo range list \<Rightarrow> u64 \<Rightarrow> VmaInfo range option" where
  "stack_target mm rs page =
     (if page < stack_expand_min_addr mm \<or> u64_saturating_sub (stack_top_addr mm) (stack_vm mm * PAGE_SIZE) \<le> page then None
      else case List.find (\<lambda>r. page \<le> fst r) rs of
        None \<Rightarrow> None
      | Some (s, e, info) \<Rightarrow>
          if stack_flag (vi_flags info) \<and> page < s \<and> can_put page e (range_del s rs) then Some (s, e, info) else None)"

lemma move_start_areas:
  assumes a: "mm_areas mm rs" and mem: "(s, e, info) \<in> set rs" and put: "can_put page e (range_del s rs)"
    and flags: "stack_flag (vi_flags info)" "\<not> exec_flag (vi_flags info)"
    and al: "is_aligned PAGE_SIZE page" "is_aligned PAGE_SIZE s" "page \<le> s"
    and tree: "holds tree (range_put page e info (range_del s rs))"
  shows "mm_areas (mm\<lparr>vma_tree := tree, stack_vm := stack_vm mm + area_pages page s, total_vm := total_vm mm + area_pages page s\<rparr>)
    (range_put page e info (range_del s rs))"
proof -
  have ok: "ranges_ok rs" by (rule mm_areas_ok [OF a])
  note del = ranges_ok_del [OF ok, of s]
  note start = can_put_start [OF del put]
  have "s \<le> e" using ok mem by (auto simp: ranges_ok_def)
  then have "area_pages page e = area_pages page s + area_pages s e" by (rule area_pages_add [OF al])
  then show ?thesis
    using a tree flags pages_put [OF del start, of _ e info] pages_del [OF ok mem] sum_put(2) [OF del start, of e info]
      sum_del(2) [OF ok mem]
    by (simp add: mm_areas_def)
qed

lemma expand_stack_spec:
  assumes a: "mm_areas mm rs" "length rs < btree_bound" and mem: "(s, e, info) \<in> set rs"
    and flags: "stack_flag (vi_flags info)" "\<not> exec_flag (vi_flags info)"
    and al: "is_aligned PAGE_SIZE page" "is_aligned PAGE_SIZE s" "page < s"
  shows "\<exists>mm'. expand_stack mm s page = Some (can_put page e (range_del s rs), mm') \<and>
    mm_areas mm' (if can_put page e (range_del s rs) then range_put page e info (range_del s rs) else rs)"
proof -
  have h: "holds (vma_tree mm) rs" using a(1) by (simp add: mm_areas_def)
  let ?c = "can_put page e (range_del s rs)"
  obtain tree where t: "maple_move_start (vma_tree mm) s page = Some (if ?c then Inr (s, e) else Inl (put_error page e), tree)"
      "holds tree (if ?c then range_put page e info (range_del s rs) else rs)"
    using move_start_eq [OF h a(2) mem] by metis
  show ?thesis
  proof (cases ?c)
    case True
    then show ?thesis
      using t al(3) move_start_areas [OF a(1) mem True flags al(1,2) less_imp_le [OF al(3)], of tree]
      by (simp add: expand_stack_def Let_def area_pages_def)
  next
    case False
    then show ?thesis using t al(3) a(1) by (auto simp: expand_stack_def Let_def mm_areas_def)
  qed
qed

lemma found_page:
  assumes "mm_areas mm (range_put page e info (range_del s rs))" "is_aligned PAGE_SIZE s" "page < s" "s < e"
    and "page = page_align_down fault"
  shows "find_vma mm page = Some (Some (vma_from_tree page e info))" "vma_contains (vma_from_tree page e info) fault"
proof -
  have h: "holds (vma_tree mm) (range_put page e info (range_del s rs))" using assms(1) by (simp add: mm_areas_def)
  have "(page, e, info) \<in> set (range_put page e info (range_del s rs))" by (simp add: range_put_def)
  then show "find_vma mm page = Some (Some (vma_from_tree page e info))"
    using find_unique [OF mm_areas_ok [OF assms(1)], of "(page, e, info)" page] mt.find_rep [OF h, of page] assms(3,4)
    by (simp add: find_vma_def r_holds_def)
  have "\<not> s \<le> fault" using page_align_down_spec(3) [OF assms(2), of fault] assms(3,5) by auto
  then show "vma_contains (vma_from_tree page e info) fault"
    using page_align_down_spec(2) [of fault] assms(4,5) by (auto simp: vma_contains_def vma_from_tree_def)
qed


section \<open>A process\<close>

text \<open>A fresh address space with an empty heap at 6 MiB, and one with a stack of one page.\<close>

definition fresh_mm :: Mm where
  "fresh_mm = (mm_init mm_uninit 0x1000)\<lparr>start_brk := 0x600000, brk := 0x600000\<rparr>"

definition stack_info :: VmaInfo where
  "stack_info = vma_info_new (mmap_flags_to_vm_flags (PROT_READ OR PROT_WRITE) (MAP_ANONYMOUS OR MAP_GROWSDOWN))"

lemma fresh_mm_areas: "mm_areas fresh_mm []" "heap_ok fresh_mm []"
  using mm_init_areas [OF mm_uninit_areas, of "0x1000"]
  by (simp_all add: fresh_mm_def mm_areas_def heap_ok_def is_aligned_page)





end
