(* ===== verification/Sched.thy ===== *)
theory Sched
  imports Prelude
begin

text \<open>
  The scheduler (\<^verbatim>\<open>task/sched/mod.rs\<close>) with the per-CPU current task (\<^verbatim>\<open>task/thread/processor.rs\<close>), the
  scheduling fields of a task (\<^verbatim>\<open>task/thread/task.rs\<close>) and the identifier counters (\<^verbatim>\<open>task/api/id.rs\<close>).
  A shared task \<^verbatim>\<open>Arc<Mutex<Task>>\<close> is a number, its address, and the tasks are a store from addresses;
  \<^verbatim>\<open>Arc::ptr_eq\<close> is equality of the numbers. The static arrays are functions from slots. The number of
  online CPUs, the CPU a call runs on, the timer and the stack pointer that a context switch saves are
  arguments. One call is one step; the switch of the address space (CR3) is not part of the model.
\<close>

section \<open>Identifiers\<close>

text \<open>\<^verbatim>\<open>TaskId::new\<close> and \<^verbatim>\<open>ProcessId::new\<close> return the counter and advance it; overflow panics.\<close>

definition next_id :: "u64 \<Rightarrow> (u64 \<times> u64) option" where
  "next_id counter = do { c \<leftarrow> u64_checked_add counter 1; Some (counter, c) }"

section \<open>Tasks\<close>

datatype TaskStatus = Ready | Running | Switching | Blocked | Exited

record Task =
  t_id :: u64
  t_pid :: u64
  t_ppid :: u64
  t_name :: string
  t_context_sp :: u64
  t_status :: TaskStatus
  t_exit_code :: "int option"
  t_runtime_ticks :: u64
  t_run_start_tick :: "u64 option"
  t_voluntary_switches :: u64
  t_involuntary_switches :: u64

text \<open>The new task, with its identifier and the stack pointer that the initial context leaves.\<close>

definition task_new_for_process :: "string \<Rightarrow> u64 \<Rightarrow> u64 \<Rightarrow> u64 \<Rightarrow> u64 \<Rightarrow> Task" where
  "task_new_for_process name tid sp pid ppid =
     \<lparr>t_id = tid, t_pid = pid, t_ppid = ppid, t_name = name, t_context_sp = sp, t_status = Ready, t_exit_code = None,
      t_runtime_ticks = 0, t_run_start_tick = None, t_voluntary_switches = 0, t_involuntary_switches = 0\<rparr>"

definition on_switch_in :: "Task \<Rightarrow> u64 \<Rightarrow> Task" where
  "on_switch_in t now = t\<lparr>t_run_start_tick := Some now\<rparr>"

definition on_switch_out :: "Task \<Rightarrow> u64 \<Rightarrow> bool \<Rightarrow> Task" where
  "on_switch_out t now involuntary =
     (let t = (case t_run_start_tick t of
                 Some start \<Rightarrow> t\<lparr>t_run_start_tick := None,
                   t_runtime_ticks := u64_saturating_add (t_runtime_ticks t) (u64_saturating_sub now start)\<rparr>
               | None \<Rightarrow> t)
      in if involuntary then t\<lparr>t_involuntary_switches := u64_saturating_add (t_involuntary_switches t) 1\<rparr>
         else t\<lparr>t_voluntary_switches := u64_saturating_add (t_voluntary_switches t) 1\<rparr>)"

definition total_runtime_ticks :: "Task \<Rightarrow> u64 \<Rightarrow> u64" where
  "total_runtime_ticks t now =
     u64_saturating_add (t_runtime_ticks t)
       (case t_run_start_tick t of Some start \<Rightarrow> u64_saturating_sub now start | None \<Rightarrow> 0)"

section \<open>State\<close>

definition RUNQUEUE_SLOT_COUNT :: nat where
  "RUNQUEUE_SLOT_COUNT = 64"

record Sched =
  s_tasks :: "nat \<Rightarrow> Task"
  s_runqueues :: "nat \<Rightarrow> nat list"
  s_current :: "nat \<Rightarrow> nat option"
  s_idle_sp :: "nat \<Rightarrow> u64"
  s_deferred :: "(nat \<times> nat) list"
  s_cpu_count :: nat
  s_local_picks :: u64
  s_steal_attempts :: u64
  s_steal_successes :: u64
  s_idle_fallbacks :: u64

definition active_cpu_slots :: "Sched \<Rightarrow> nat" where
  "active_cpu_slots s = min (max (s_cpu_count s) 1) RUNQUEUE_SLOT_COUNT"

definition runqueue_slot_index :: "Sched \<Rightarrow> nat \<Rightarrow> nat" where
  "runqueue_slot_index s cpu_id = (if cpu_id < active_cpu_slots s then cpu_id else 0)"

text \<open>The slot of the current processor and of its idle context; both arrays have one slot per CPU.\<close>

definition processor_slot_index :: "nat \<Rightarrow> nat" where
  "processor_slot_index cpu_id = (if cpu_id < RUNQUEUE_SLOT_COUNT then cpu_id else 0)"

definition current_task :: "Sched \<Rightarrow> nat \<Rightarrow> nat option" where
  "current_task s cpu_id = s_current s (processor_slot_index cpu_id)"

definition replace_current_task :: "nat \<Rightarrow> nat \<Rightarrow> Sched \<Rightarrow> nat option \<times> Sched" where
  "replace_current_task cpu_id t s =
     (let slot = processor_slot_index cpu_id
      in (s_current s slot, s\<lparr>s_current := (s_current s)(slot := Some t)\<rparr>))"

definition take_current_task :: "nat \<Rightarrow> Sched \<Rightarrow> nat option \<times> Sched" where
  "take_current_task cpu_id s =
     (let slot = processor_slot_index cpu_id
      in (s_current s slot, s\<lparr>s_current := (s_current s)(slot := None)\<rparr>))"

abbreviation status :: "Sched \<Rightarrow> nat \<Rightarrow> TaskStatus" where
  "status s t \<equiv> t_status (s_tasks s t)"

definition set_task :: "nat \<Rightarrow> Task \<Rightarrow> Sched \<Rightarrow> Sched" where
  "set_task t task s = s\<lparr>s_tasks := (s_tasks s)(t := task)\<rparr>"

definition set_status :: "nat \<Rightarrow> TaskStatus \<Rightarrow> Sched \<Rightarrow> Sched" where
  "set_status t st s = set_task t ((s_tasks s t)\<lparr>t_status := st\<rparr>) s"

section \<open>Enqueueing\<close>

definition mark_task_ready_if_schedulable :: "nat \<Rightarrow> Sched \<Rightarrow> bool \<times> Sched" where
  "mark_task_ready_if_schedulable t s =
     (if status s t = Exited \<or> status s t = Running then (False, s) else (True, set_status t Ready s))"

definition contains_task_anywhere :: "Sched \<Rightarrow> nat \<Rightarrow> bool" where
  "contains_task_anywhere s t = list_ex (\<lambda>slot. t \<in> set (s_runqueues s slot)) [0..<active_cpu_slots s]"

definition enqueue_on_cpu :: "nat \<Rightarrow> nat \<Rightarrow> Sched \<Rightarrow> Sched" where
  "enqueue_on_cpu t cpu_id s =
     (case mark_task_ready_if_schedulable t s of
        (False, s) \<Rightarrow> s
      | (True, s) \<Rightarrow>
          if contains_task_anywhere s t then s
          else
            let slot = runqueue_slot_index s cpu_id
            in case mark_task_ready_if_schedulable t s of
                 (True, s) \<Rightarrow> s\<lparr>s_runqueues := (s_runqueues s)(slot := s_runqueues s slot @ [t])\<rparr>
               | (False, s) \<Rightarrow> s)"

definition add_task :: "nat \<Rightarrow> nat \<Rightarrow> Sched \<Rightarrow> Sched" where
  "add_task t cpu_id s = enqueue_on_cpu t cpu_id s"

definition sched_push_back :: "nat \<Rightarrow> nat \<Rightarrow> Sched \<Rightarrow> Sched" where
  "sched_push_back t cpu_id s = enqueue_on_cpu t cpu_id s"

definition enqueue_deferred_requeue :: "nat \<Rightarrow> nat \<Rightarrow> Sched \<Rightarrow> Sched" where
  "enqueue_deferred_requeue t cpu_id s = s\<lparr>s_deferred := s_deferred s @ [(cpu_id, t)]\<rparr>"

definition flush_deferred_requeue :: "nat \<Rightarrow> Sched \<Rightarrow> Sched" where
  "flush_deferred_requeue cpu_id s =
     (if s_deferred s = [] then s
      else
        let ready_tasks = map snd (filter (\<lambda>(c, t). c = cpu_id) (s_deferred s));
            retained = filter (\<lambda>(c, t). c \<noteq> cpu_id) (s_deferred s)
        in fold (\<lambda>t. sched_push_back t cpu_id) ready_tasks (s\<lparr>s_deferred := retained\<rparr>))"

section \<open>Picking\<close>

definition switch_in :: "(nat \<Rightarrow> Task) \<Rightarrow> nat \<Rightarrow> u64 \<Rightarrow> nat \<Rightarrow> Task" where
  "switch_in ts t now = ts(t := on_switch_in ((ts t)\<lparr>t_status := Running\<rparr>) now)"

text \<open>The loop over one queue, from the front; the first argument is the number of rounds left.\<close>

fun pick_loop :: "nat \<Rightarrow> u64 \<Rightarrow> (nat \<Rightarrow> Task) \<Rightarrow> nat list \<Rightarrow> nat option \<times> (nat \<Rightarrow> Task) \<times> nat list" where
  "pick_loop 0 now ts q = (None, ts, q)"
| "pick_loop (Suc n) now ts [] = (None, ts, [])"
| "pick_loop (Suc n) now ts (t # q) =
     (case t_status (ts t) of
        Exited \<Rightarrow> pick_loop n now ts q
      | Ready \<Rightarrow> (Some t, switch_in ts t now, q)
      | _ \<Rightarrow> pick_loop n now ts (q @ [t]))"

definition pick_next_from_slot :: "nat \<Rightarrow> u64 \<Rightarrow> Sched \<Rightarrow> nat option \<times> Sched" where
  "pick_next_from_slot slot now s =
     (case pick_loop (length (s_runqueues s slot)) now (s_tasks s) (s_runqueues s slot) of
        (r, ts, q) \<Rightarrow> (r, s\<lparr>s_tasks := ts, s_runqueues := (s_runqueues s)(slot := q)\<rparr>))"

text \<open>The loop of a thief, from the other end.\<close>

fun steal_loop :: "nat \<Rightarrow> u64 \<Rightarrow> (nat \<Rightarrow> Task) \<Rightarrow> nat list \<Rightarrow> nat option \<times> (nat \<Rightarrow> Task) \<times> nat list" where
  "steal_loop 0 now ts q = (None, ts, q)"
| "steal_loop (Suc n) now ts q =
     (if q = [] then (None, ts, [])
      else
        case t_status (ts (last q)) of
          Exited \<Rightarrow> steal_loop n now ts (butlast q)
        | Ready \<Rightarrow> (Some (last q), switch_in ts (last q) now, butlast q)
        | _ \<Rightarrow> steal_loop n now ts (last q # butlast q))"

definition steal_from_slot :: "nat \<Rightarrow> u64 \<Rightarrow> Sched \<Rightarrow> nat option \<times> Sched" where
  "steal_from_slot slot now s =
     (case steal_loop (length (s_runqueues s slot)) now (s_tasks s) (s_runqueues s slot) of
        (r, ts, q) \<Rightarrow> (r, s\<lparr>s_tasks := ts, s_runqueues := (s_runqueues s)(slot := q)\<rparr>))"

fun steal_from_slots :: "nat list \<Rightarrow> u64 \<Rightarrow> Sched \<Rightarrow> nat option \<times> Sched" where
  "steal_from_slots [] now s = (None, s)"
| "steal_from_slots (v # vs) now s =
     (case steal_from_slot v now (s\<lparr>s_steal_attempts := s_steal_attempts s + 1\<rparr>) of
        (Some t, s) \<Rightarrow> (Some t, s\<lparr>s_steal_successes := s_steal_successes s + 1\<rparr>)
      | (None, s) \<Rightarrow> steal_from_slots vs now s)"

definition pick_next :: "nat \<Rightarrow> u64 \<Rightarrow> Sched \<Rightarrow> nat option \<times> Sched" where
  "pick_next cpu_id now s =
     (let local_slot = runqueue_slot_index s cpu_id
      in case pick_next_from_slot local_slot now s of
           (Some t, s) \<Rightarrow> (Some t, s\<lparr>s_local_picks := s_local_picks s + 1\<rparr>)
         | (None, s) \<Rightarrow>
             let slots = active_cpu_slots s
             in steal_from_slots (map (\<lambda>offset. (local_slot + offset) mod slots) [1..<slots]) now s)"

definition remove_tasks_by_pid :: "u64 \<Rightarrow> Sched \<Rightarrow> nat \<times> Sched" where
  "remove_tasks_by_pid pid s =
     (let keep = (\<lambda>q. filter (\<lambda>t. t_pid (s_tasks s t) \<noteq> pid) q);
          slots = active_cpu_slots s
      in (\<Sum>slot \<leftarrow> [0..<slots]. length (s_runqueues s slot) - length (keep (s_runqueues s slot)),
          s\<lparr>s_runqueues := (\<lambda>slot. if slot < slots then keep (s_runqueues s slot) else s_runqueues s slot)\<rparr>))"

section \<open>Scheduling\<close>

text \<open>What runs on the CPU when \<^verbatim>\<open>schedule\<close> has switched.\<close>

datatype Resumed = ToTask nat | ToIdle | Stay

text \<open>
  Switching the previous task out: its ticks are charged, a task that is neither blocked nor exited
  goes to the deferred list, and the context switch stores the stack pointer.
\<close>

definition switch_out :: "nat \<Rightarrow> nat \<Rightarrow> u64 \<Rightarrow> u64 \<Rightarrow> Sched \<Rightarrow> Sched" where
  "switch_out prev cpu_id now sp s =
     (let s1 = set_task prev (on_switch_out (s_tasks s prev) now False) s;
          s2 = (case status s1 prev of
                  Exited \<Rightarrow> s1
                | Blocked \<Rightarrow> s1
                | _ \<Rightarrow> enqueue_deferred_requeue prev cpu_id (set_status prev Switching s1))
      in set_task prev ((s_tasks s2 prev)\<lparr>t_context_sp := sp\<rparr>) s2)"

definition schedule :: "nat \<Rightarrow> u64 \<Rightarrow> u64 \<Rightarrow> u64 \<Rightarrow> Sched \<Rightarrow> Resumed \<times> Sched" where
  "schedule cpu_id now now' sp s =
     (case pick_next cpu_id now (flush_deferred_requeue cpu_id s) of
        (None, s) \<Rightarrow>
          let s = s\<lparr>s_idle_fallbacks := s_idle_fallbacks s + 1\<rparr>
          in if s_idle_sp s (processor_slot_index cpu_id) \<noteq> 0 then
               case take_current_task cpu_id s of
                 (Some prev, s) \<Rightarrow> (ToIdle, switch_out prev cpu_id now' sp s)
               | (None, s) \<Rightarrow> (Stay, s)
             else (Stay, s)
      | (Some t, s) \<Rightarrow>
          case replace_current_task cpu_id t s of
            (Some prev, s) \<Rightarrow> (ToTask t, switch_out prev cpu_id now' sp s)
          | (None, s) \<Rightarrow>
              (ToTask t, s\<lparr>s_idle_sp := (s_idle_sp s)(processor_slot_index cpu_id := sp)\<rparr>))"

definition sched_statics :: "nat \<Rightarrow> (nat \<Rightarrow> Task) \<Rightarrow> Sched" where
  "sched_statics cpus ts =
     \<lparr>s_tasks = ts, s_runqueues = (\<lambda>_. []), s_current = (\<lambda>_. None), s_idle_sp = (\<lambda>_. 0), s_deferred = [],
      s_cpu_count = cpus, s_local_picks = 0, s_steal_attempts = 0, s_steal_successes = 0, s_idle_fallbacks = 0\<rparr>"

record SchedulerStats =
  st_local_picks :: u64
  st_steal_attempts :: u64
  st_steal_successes :: u64
  st_idle_fallbacks :: u64

definition snapshot_stats :: "Sched \<Rightarrow> SchedulerStats" where
  "snapshot_stats s =
     \<lparr>st_local_picks = s_local_picks s, st_steal_attempts = s_steal_attempts s,
      st_steal_successes = s_steal_successes s, st_idle_fallbacks = s_idle_fallbacks s\<rparr>"

end
