(* ===== verification/Sched_Proofs.thy ===== *)
theory Sched_Proofs
  imports Sched
begin

text \<open>
  The scheduler as a state machine: events of the CPUs, an invariant that places every task on at
  most one queue and at most one CPU, and the effect of one event on the queues.
\<close>

section \<open>Events\<close>

text \<open>
  A CPU calls \<open>schedule\<close>, its current task blocks or exits and then calls it, some CPU makes a task
  ready, or the queued tasks of a process are removed.
\<close>

datatype sched_event =
    EvSchedule nat u64 u64 u64
  | EvBlock nat u64 u64 u64
  | EvExit nat u64 u64 u64
  | EvWake nat nat
  | EvRemove u64

definition leave_cpu :: "TaskStatus \<Rightarrow> nat \<Rightarrow> u64 \<Rightarrow> u64 \<Rightarrow> u64 \<Rightarrow> Sched \<Rightarrow> Sched" where
  "leave_cpu st c now now' sp s =
     (case current_task s c of
        Some t \<Rightarrow> snd (schedule c now now' sp (set_status t st s))
      | None \<Rightarrow> s)"

fun sched_exec :: "sched_event \<Rightarrow> Sched \<Rightarrow> Sched" where
  "sched_exec (EvSchedule c now now' sp) s = snd (schedule c now now' sp s)"
| "sched_exec (EvBlock c now now' sp) s = leave_cpu Blocked c now now' sp s"
| "sched_exec (EvExit c now now' sp) s = leave_cpu Exited c now now' sp s"
| "sched_exec (EvWake t c) s = add_task t c s"
| "sched_exec (EvRemove pid) s = snd (remove_tasks_by_pid pid s)"

text \<open>Events of existing CPUs; the saved stack pointer is an address of the kernel, so it is not 0.\<close>

fun event_ok :: "Sched \<Rightarrow> sched_event \<Rightarrow> bool" where
  "event_ok s (EvSchedule c now now' sp) \<longleftrightarrow> c < active_cpu_slots s \<and> sp \<noteq> 0"
| "event_ok s (EvBlock c now now' sp) \<longleftrightarrow> c < active_cpu_slots s \<and> sp \<noteq> 0"
| "event_ok s (EvExit c now now' sp) \<longleftrightarrow> c < active_cpu_slots s \<and> sp \<noteq> 0"
| "event_ok s (EvWake t c) \<longleftrightarrow> c < active_cpu_slots s"
| "event_ok s (EvRemove pid) \<longleftrightarrow> True"

section \<open>The invariant\<close>

text \<open>
  On the parts of the state it reads: the number of slots, the status of the tasks, the queues, the
  current tasks, whether an idle context is saved, and the deferred list. The last argument is the
  CPU whose current task has changed its status but not yet called \<open>schedule\<close>.
\<close>

definition sinv :: "nat \<Rightarrow> (nat \<Rightarrow> TaskStatus) \<Rightarrow> (nat \<Rightarrow> nat list) \<Rightarrow> (nat \<Rightarrow> nat option) \<Rightarrow> (nat \<Rightarrow> bool) \<Rightarrow>
    (nat \<times> nat) list \<Rightarrow> nat option \<Rightarrow> bool" where
  "sinv n st rq cur idle df k \<longleftrightarrow>
     (\<forall>i < n. distinct (rq i) \<and> (\<forall>t \<in> set (rq i). st t = Ready)) \<and>
     (\<forall>i < n. \<forall>j < n. i \<noteq> j \<longrightarrow> set (rq i) \<inter> set (rq j) = {}) \<and>
     (\<forall>c t. cur c = Some t \<longrightarrow> c < n \<and> idle c \<and> (st t = Running \<or> k = Some c \<and> (st t = Blocked \<or> st t = Exited))) \<and>
     (\<forall>c d t. cur c = Some t \<longrightarrow> cur d = Some t \<longrightarrow> c = d) \<and>
     (\<forall>t. st t = Running \<longrightarrow> (\<exists>c. cur c = Some t)) \<and>
     (\<forall>(c, t) \<in> set df. c < n \<and> cur c \<noteq> Some t)"

abbreviation sched_view :: "nat option \<Rightarrow> Sched \<Rightarrow> bool" where
  "sched_view k s \<equiv> sinv (active_cpu_slots s) (status s) (s_runqueues s) (s_current s) (\<lambda>c. s_idle_sp s c \<noteq> 0) (s_deferred s) k"

definition sched_ok :: "Sched \<Rightarrow> bool" where
  "sched_ok s \<longleftrightarrow> sched_view None s"

lemma sinv_enqueue:
  assumes "sinv n st rq cur idle df k" "c < n" "st u \<noteq> Running" "\<forall>i < n. u \<notin> set (rq i)" "k \<noteq> None \<longrightarrow> cur (the k) \<noteq> Some u"
  shows "sinv n (st(u := Ready)) (rq(c := rq c @ [u])) cur idle df k"
proof -
  have nc: "cur d \<noteq> Some u" for d
    using assms(1,3,5) by (fastforce simp: sinv_def)
  show ?thesis
    using assms(1-4) nc unfolding sinv_def by (auto split: if_splits)
qed

lemma sinv_no_deferred:
  "sinv n st rq cur idle df k \<longleftrightarrow> sinv n st rq cur idle [] k \<and> (\<forall>(c, t) \<in> set df. c < n \<and> cur c \<noteq> Some t)"
  by (simp add: sinv_def)

lemma sinv_deferred: "sinv n st rq cur idle df k \<Longrightarrow> set df' \<subseteq> set df \<Longrightarrow> sinv n st rq cur idle df' k"
  using sinv_no_deferred [of n st rq cur idle df k] sinv_no_deferred [of n st rq cur idle df' k] by blast

text \<open>The current task of \<open>c\<close> is replaced by a task that has been taken off its queue.\<close>

lemma sinv_switch_to:
  assumes "sinv n st rq cur idle df k" "k = None \<or> k = Some c" "c < n" "slot < n" "t \<in> set (rq slot)"
    and q: "set q = set (rq slot) - {t}" "distinct q"
    and prev: "prev = cur c" and df: "\<forall>(d, u) \<in> set df. d \<noteq> c"
    and st': "st' = (case prev of
        Some p \<Rightarrow> if st p = Running then st(t := Running, p := Switching) else st(t := Running)
      | None \<Rightarrow> st(t := Running))"
    and df': "df' = df @ (case prev of Some p \<Rightarrow> if st p = Running then [(c, p)] else [] | None \<Rightarrow> [])"
    and idle': "idle' c" "\<forall>d. idle d \<longrightarrow> idle' d"
  shows "sinv n st' (rq(slot := q)) (cur(c := Some t)) idle' df' None"
proof -
  note inv = assms(1) [unfolded sinv_def]
  have queue: "\<forall>i < n. distinct (rq i) \<and> (\<forall>t \<in> set (rq i). st t = Ready)"
    and apart: "\<forall>i < n. \<forall>j < n. i \<noteq> j \<longrightarrow> set (rq i) \<inter> set (rq j) = {}"
    and curr: "\<And>d u. cur d = Some u \<Longrightarrow> d < n \<and> idle d \<and> (st u = Running \<or> k = Some d \<and> (st u = Blocked \<or> st u = Exited))"
    and uniq: "\<And>d e u. cur d = Some u \<Longrightarrow> cur e = Some u \<Longrightarrow> d = e"
    and run: "\<And>u. st u = Running \<Longrightarrow> \<exists>d. cur d = Some u"
    and dfr: "\<And>d u. (d, u) \<in> set df \<Longrightarrow> d < n \<and> cur d \<noteq> Some u"
    using inv by blast+
  have t: "st t = Ready" using queue assms(4,5) by blast
  have nt: "cur d \<noteq> Some t" for d using curr [of d t] t by auto
  have np: "u \<notin> set (rq i)" if "cur d = Some u" "i < n" for d u i
    using curr [OF that(1)] queue that(2) by force
  have st_other: "st' u = st u" if "u \<noteq> t" "cur c \<noteq> Some u" for u
    using that st' prev by (auto split: option.splits)
  have st_t: "st' t = Running" using st' prev nt [of c] by (auto split: option.splits)
  have st_p: "st' p = (if st p = Running then Switching else st p)" if "cur c = Some p" for p
    using that st' prev nt [of c] by auto
  have others: "st' u = Running" if "cur d = Some u" "d \<noteq> c" for d u
  proof -
    have "u \<noteq> t" "cur c \<noteq> Some u" using that nt uniq by blast+
    then show ?thesis using st_other curr [OF that(1)] that(2) assms(2) by auto
  qed
  show ?thesis
    unfolding sinv_def
  proof (intro conjI allI impI ballI)
    fix i assume "i < n"
    then show "distinct ((rq(slot := q)) i)" using queue q(2) by auto
    fix u assume "u \<in> set ((rq(slot := q)) i)"
    then have "u \<in> set (rq i)" "u \<noteq> t"
      using q(1) apart assms(4,5) \<open>i < n\<close> by (auto split: if_splits)
    then show "st' u = Ready" using st_other np queue \<open>i < n\<close> by metis
  next
    fix i j assume "i < n" "j < n" "i \<noteq> j"
    then show "set ((rq(slot := q)) i) \<inter> set ((rq(slot := q)) j) = {}"
      using apart q(1) by (auto split: if_splits)
  next
    fix d u assume "(cur(c := Some t)) d = Some u"
    then show "d < n" "idle' d" "st' u = Running \<or> None = Some d \<and> (st' u = Blocked \<or> st' u = Exited)"
      using assms(3) idle' curr [of d u] st_t others [of d u] by (auto split: if_splits)
  next
    fix d e u assume "(cur(c := Some t)) d = Some u" "(cur(c := Some t)) e = Some u"
    then show "d = e" using nt uniq by (auto split: if_splits)
  next
    fix u assume u: "st' u = Running"
    show "\<exists>d. (cur(c := Some t)) d = Some u"
    proof (cases "u = t")
      case True
      then show ?thesis by (intro exI [of _ c]) simp
    next
      case False
      have "cur c \<noteq> Some u" using u st_p by (auto split: if_splits)
      then obtain d where "cur d = Some u" using run st_other [OF False] u by metis
      then show ?thesis using \<open>cur c \<noteq> Some u\<close> by (intro exI [of _ d]) auto
    qed
  next
    fix x assume "x \<in> set df'"
    then show "case x of (d, u) \<Rightarrow> d < n \<and> (cur(c := Some t)) d \<noteq> Some u"
      using df' df dfr prev nt [of c] assms(3) by (fastforce split: option.splits if_splits)
  qed
qed

text \<open>The current task of \<open>c\<close> leaves and nothing takes its place.\<close>

lemma sinv_switch_idle:
  assumes "sinv n st rq cur idle df k" "k = None \<or> k = Some c" "cur c = Some p" and df: "\<forall>(d, u) \<in> set df. d \<noteq> c"
  shows "sinv n (if st p = Running then st(p := Switching) else st) rq (cur(c := None)) idle
    (df @ (if st p = Running then [(c, p)] else [])) None"
proof -
  note inv = assms(1) [unfolded sinv_def]
  have curr: "\<And>d u. cur d = Some u \<Longrightarrow> d < n \<and> idle d \<and> (st u = Running \<or> k = Some d \<and> (st u = Blocked \<or> st u = Exited))"
    and uniq: "\<And>d e u. cur d = Some u \<Longrightarrow> cur e = Some u \<Longrightarrow> d = e"
    and run: "\<And>u. st u = Running \<Longrightarrow> \<exists>d. cur d = Some u"
    using inv by blast+
  have np: "\<forall>i < n. p \<notin> set (rq i)" using curr [OF assms(3)] inv by force
  have c: "c < n" using curr [OF assms(3)] by simp
  have run': "\<exists>d. (cur(c := None)) d = Some u" if u: "st u = Running" "u \<noteq> p" for u
  proof -
    obtain d where "cur d = Some u" using run [OF u(1)] by blast
    then show ?thesis using assms(3) u(2) by (intro exI [of _ d]) auto
  qed
  show ?thesis
    unfolding sinv_def
  proof (intro conjI allI impI ballI)
    fix u assume "(if st p = Running then st(p := Switching) else st) u = Running"
    then show "\<exists>d. (cur(c := None)) d = Some u" by (intro run') (auto split: if_splits)
  next
    fix x assume "x \<in> set (df @ (if st p = Running then [(c, p)] else []))"
    then show "case x of (d, u) \<Rightarrow> d < n \<and> (cur(c := None)) d \<noteq> Some u"
      using inv c by (auto split: if_splits)
  next
    fix d u assume "(cur(c := None)) d = Some u"
    then have "cur d = Some u" "d \<noteq> c" by (auto split: if_splits)
    moreover from this have "u \<noteq> p" using uniq assms(3) by blast
    ultimately show "d < n" "idle d" "(if st p = Running then st(p := Switching) else st) u = Running \<or>
        None = Some d \<and> ((if st p = Running then st(p := Switching) else st) u = Blocked \<or>
          (if st p = Running then st(p := Switching) else st) u = Exited)"
      using curr [of d u] assms(2) by auto
  qed (use inv np uniq in \<open>auto split: if_splits\<close>)
qed

section \<open>The operations on the state\<close>

lemma slots_bounds: "0 < active_cpu_slots s" "active_cpu_slots s \<le> RUNQUEUE_SLOT_COUNT"
  by (simp_all add: active_cpu_slots_def RUNQUEUE_SLOT_COUNT_def)

lemma slot_index: "c < active_cpu_slots s \<Longrightarrow> runqueue_slot_index s c = c"
  "c < active_cpu_slots s \<Longrightarrow> processor_slot_index c = c"
  using slots_bounds(2) [of s] by (auto simp: runqueue_slot_index_def processor_slot_index_def)

lemma contains_iff: "contains_task_anywhere s t \<longleftrightarrow> (\<exists>i < active_cpu_slots s. t \<in> set (s_runqueues s i))"
  by (auto simp: contains_task_anywhere_def list_ex_iff)

text \<open>Enqueueing changes the status of the task and the tail of the queue, nothing else.\<close>

definition enqueued :: "nat \<Rightarrow> nat \<Rightarrow> Sched \<Rightarrow> Sched" where
  "enqueued t c s =
     (if status s t = Exited \<or> status s t = Running then s
      else if contains_task_anywhere s t then set_status t Ready s
      else (set_status t Ready s)\<lparr>s_runqueues := (s_runqueues s)(c := s_runqueues s c @ [t])\<rparr>)"

lemma set_status_simps [simp]:
  "s_runqueues (set_status t st s) = s_runqueues s" "s_current (set_status t st s) = s_current s"
  "s_idle_sp (set_status t st s) = s_idle_sp s" "s_deferred (set_status t st s) = s_deferred s"
  "s_cpu_count (set_status t st s) = s_cpu_count s" "active_cpu_slots (set_status t st s) = active_cpu_slots s"
  "t_status (s_tasks (set_status t st s) u) = (if u = t then st else status s u)"
  "t_pid (s_tasks (set_status t st s) u) = t_pid (s_tasks s u)"
  by (simp_all add: set_status_def set_task_def active_cpu_slots_def)

lemma set_status_twice: "set_status t st (set_status t st' s) = set_status t st s"
  by (simp add: set_status_def set_task_def)

lemma enqueue_eq: "c < active_cpu_slots s \<Longrightarrow> enqueue_on_cpu t c s = enqueued t c s"
  by (simp add: enqueue_on_cpu_def mark_task_ready_if_schedulable_def enqueued_def slot_index(1) set_status_twice
      contains_task_anywhere_def Let_def)

lemma enqueued_frame:
  "s_current (enqueued t c s) = s_current s" "s_idle_sp (enqueued t c s) = s_idle_sp s"
  "s_deferred (enqueued t c s) = s_deferred s" "active_cpu_slots (enqueued t c s) = active_cpu_slots s"
  "t_pid (s_tasks (enqueued t c s) u) = t_pid (s_tasks s u)" "d \<noteq> c \<Longrightarrow> s_runqueues (enqueued t c s) d = s_runqueues s d"
  "\<exists>ys. s_runqueues (enqueued t c s) c = s_runqueues s c @ ys"
  by (simp_all add: enqueued_def active_cpu_slots_def)

lemma enqueued_view:
  assumes v: "sched_view k s" and c: "c < active_cpu_slots s" and k: "k \<noteq> None \<longrightarrow> s_current s (the k) \<noteq> Some t"
  shows "sched_view k (enqueued t c s)"
proof -
  consider (not) "status s t = Exited \<or> status s t = Running" | (there) i where "i < active_cpu_slots s" "t \<in> set (s_runqueues s i)"
      "status s t \<noteq> Exited" "status s t \<noteq> Running"
    | (new) "status s t \<noteq> Exited" "status s t \<noteq> Running" "\<not> contains_task_anywhere s t"
    by (auto simp: contains_iff)
  then show ?thesis
  proof cases
    case there
    then have "status s t = Ready" using v by (auto simp: sinv_def)
    then have "status (set_status t Ready s) = status s" by auto
    then show ?thesis using v there by (auto simp: enqueued_def contains_iff)
  next
    case new
    have eq: "status (enqueued t c s) = (status s)(t := Ready)" "s_runqueues (enqueued t c s) = (s_runqueues s)(c := s_runqueues s c @ [t])"
      using new by (auto simp: enqueued_def)
    show ?thesis
      unfolding enqueued_frame(1-4) eq
      using sinv_enqueue [OF v c new(2) _ k] new(3) by (simp add: contains_iff)
  qed (use v in \<open>simp add: enqueued_def\<close>)
qed

lemma flush_fold:
  "sched_view k s \<Longrightarrow> c < active_cpu_slots s \<Longrightarrow> \<forall>t \<in> set us. k \<noteq> None \<longrightarrow> s_current s (the k) \<noteq> Some t \<Longrightarrow>
   s' = fold (\<lambda>t. sched_push_back t c) us s \<Longrightarrow>
   sched_view k s' \<and> s_current s' = s_current s \<and> s_idle_sp s' = s_idle_sp s \<and> s_deferred s' = s_deferred s \<and>
   active_cpu_slots s' = active_cpu_slots s \<and> (\<forall>u. t_pid (s_tasks s' u) = t_pid (s_tasks s u)) \<and>
   (\<forall>d. d \<noteq> c \<longrightarrow> s_runqueues s' d = s_runqueues s d) \<and> (\<exists>ys. s_runqueues s' c = s_runqueues s c @ ys) \<and>
   (\<forall>u. status s u = Running \<longrightarrow> status s' u = Running) \<and> (\<forall>u. status s u = Ready \<longrightarrow> status s' u = Ready)"
proof (induction us arbitrary: s)
  case (Cons t us)
  let ?s = "enqueued t c s"
  have s': "s' = fold (\<lambda>t. sched_push_back t c) us ?s"
    using Cons.prems(4) by (simp add: sched_push_back_def [of t] enqueue_eq [OF Cons.prems(2)])
  obtain ys where ys: "s_runqueues ?s c = s_runqueues s c @ ys" using enqueued_frame(7) by blast
  have st: "status s u = Running \<longrightarrow> status ?s u = Running" "status s u = Ready \<longrightarrow> status ?s u = Ready" for u
    by (auto simp: enqueued_def)
  have ih: "sched_view k s' \<and> s_current s' = s_current ?s \<and> s_idle_sp s' = s_idle_sp ?s \<and> s_deferred s' = s_deferred ?s \<and>
     active_cpu_slots s' = active_cpu_slots ?s \<and> (\<forall>u. t_pid (s_tasks s' u) = t_pid (s_tasks ?s u)) \<and>
     (\<forall>d. d \<noteq> c \<longrightarrow> s_runqueues s' d = s_runqueues ?s d) \<and> (\<exists>ys. s_runqueues s' c = s_runqueues ?s c @ ys) \<and>
     (\<forall>u. status ?s u = Running \<longrightarrow> status s' u = Running) \<and> (\<forall>u. status ?s u = Ready \<longrightarrow> status s' u = Ready)"
    using Cons.prems s' by (intro Cons.IH enqueued_view) (simp_all add: enqueued_frame)
  then show ?case
    using st ys by (simp add: enqueued_frame) (metis append.assoc)
qed auto

lemma flush_view:
  assumes v: "sched_view k s" and k: "k = None \<or> k = Some c" and c: "c < active_cpu_slots s" and s': "s' = flush_deferred_requeue c s"
  shows "sched_view k s'" "s_current s' = s_current s" "s_idle_sp s' = s_idle_sp s" "active_cpu_slots s' = active_cpu_slots s"
    "t_pid (s_tasks s' u) = t_pid (s_tasks s u)" "d \<noteq> c \<Longrightarrow> s_runqueues s' d = s_runqueues s d"
    "\<exists>ys. s_runqueues s' c = s_runqueues s c @ ys" "\<forall>(d, u) \<in> set (s_deferred s'). d \<noteq> c"
    "status s u = Running \<Longrightarrow> status s' u = Running" "status s u = Ready \<Longrightarrow> status s' u = Ready"
proof -
  let ?s = "s\<lparr>s_deferred := filter (\<lambda>(d, t). d \<noteq> c) (s_deferred s)\<rparr>"
  let ?us = "map snd (filter (\<lambda>(d, t). d = c) (s_deferred s))"
  have s'': "s' = fold (\<lambda>t. sched_push_back t c) ?us ?s"
    using s' by (cases "s_deferred s") (auto simp: flush_deferred_requeue_def Let_def)
  have sl: "active_cpu_slots ?s = active_cpu_slots s" by (simp add: active_cpu_slots_def)
  have "sched_view k ?s" using sinv_deferred [OF v] by (simp add: sl)
  moreover have "\<forall>t \<in> set ?us. k \<noteq> None \<longrightarrow> s_current ?s (the k) \<noteq> Some t"
    using v [unfolded sinv_no_deferred [of _ _ _ _ _ "s_deferred s"]] k by auto
  ultimately have *: "sched_view k s' \<and> s_current s' = s_current ?s \<and> s_idle_sp s' = s_idle_sp ?s \<and> s_deferred s' = s_deferred ?s \<and>
   active_cpu_slots s' = active_cpu_slots ?s \<and> (\<forall>u. t_pid (s_tasks s' u) = t_pid (s_tasks ?s u)) \<and>
   (\<forall>d. d \<noteq> c \<longrightarrow> s_runqueues s' d = s_runqueues ?s d) \<and> (\<exists>ys. s_runqueues s' c = s_runqueues ?s c @ ys) \<and>
   (\<forall>u. status ?s u = Running \<longrightarrow> status s' u = Running) \<and> (\<forall>u. status ?s u = Ready \<longrightarrow> status s' u = Ready)"
    using c s'' by (intro flush_fold) (simp_all add: sl)
  then show "sched_view k s'" by blast
  show "\<forall>(d, u) \<in> set (s_deferred s'). d \<noteq> c" using * by auto
  show "s_current s' = s_current s" "s_idle_sp s' = s_idle_sp s" "active_cpu_slots s' = active_cpu_slots s"
    "t_pid (s_tasks s' u) = t_pid (s_tasks s u)" "d \<noteq> c \<Longrightarrow> s_runqueues s' d = s_runqueues s d"
    "\<exists>ys. s_runqueues s' c = s_runqueues s c @ ys"
    "status s u = Running \<Longrightarrow> status s' u = Running" "status s u = Ready \<Longrightarrow> status s' u = Ready"
    using * by (simp_all add: sl)
qed

section \<open>Picking a task\<close>

abbreviation is_ready :: "(nat \<Rightarrow> Task) \<Rightarrow> nat \<Rightarrow> bool" where
  "is_ready ts t \<equiv> t_status (ts t) = Ready"

abbreviation alive :: "(nat \<Rightarrow> Task) \<Rightarrow> nat \<Rightarrow> bool" where
  "alive ts t \<equiv> t_status (ts t) \<noteq> Exited"

text \<open>
  The loop over a whole queue finds its first ready task; of the tasks before it the exited ones are
  dropped and the others go to the back.
\<close>

lemma pick_loop_spec:
  "n \<le> length q \<Longrightarrow> pick_loop n now ts q =
     (case dropWhile (\<lambda>t. \<not> is_ready ts t) (take n q) of
        [] \<Rightarrow> (None, ts, drop n q @ filter (alive ts) (take n q))
      | t # r \<Rightarrow> (Some t, switch_in ts t now, r @ drop n q @ filter (alive ts) (takeWhile (\<lambda>t. \<not> is_ready ts t) (take n q))))"
proof (induction n now ts q rule: pick_loop.induct)
  case (3 n now ts t q)
  then show ?case
    by (cases "t_status (ts t)"; cases "dropWhile (\<lambda>t. \<not> is_ready ts t) (take n q)")
       (simp_all del: dropWhile_eq_Nil_conv)
qed auto

lemma steal_loop_rev:
  "steal_loop n now ts q = (case pick_loop n now ts (rev q) of (r, ts', q') \<Rightarrow> (r, ts', rev q'))"
proof (induction n arbitrary: q)
  case (Suc n)
  show ?case
  proof (cases q rule: rev_cases)
    case (snoc xs x)
    then show ?thesis
      using Suc [of xs] Suc [of "x # xs"] by (cases "t_status (ts x)") simp_all
  qed simp
qed simp

lemma dropWhile_cases:
  obtains (none) "\<forall>x \<in> set q. \<not> P x" "dropWhile (\<lambda>x. \<not> P x) q = []" "takeWhile (\<lambda>x. \<not> P x) q = q"
    | (some) xs x r where "q = xs @ x # r" "\<forall>y \<in> set xs. \<not> P y" "P x" "dropWhile (\<lambda>x. \<not> P x) q = x # r"
      "takeWhile (\<lambda>x. \<not> P x) q = xs"
proof (cases "\<exists>x \<in> set q. P x")
  case True
  then obtain xs x r where "q = xs @ x # r" "P x" "\<forall>y \<in> set xs. \<not> P y" by (metis split_list_first_prop)
  then show thesis by (intro some [of xs x r]) (simp_all add: dropWhile_append takeWhile_append)
qed (use none in \<open>simp add: dropWhile_eq_Nil_conv takeWhile_eq_all_conv\<close>)

lemma pick_from_slot_cases:
  obtains (none) "\<forall>t \<in> set (s_runqueues s slot). status s t \<noteq> Ready"
      "pick_next_from_slot slot now s = (None, s\<lparr>s_runqueues := (s_runqueues s)(slot := filter (alive (s_tasks s)) (s_runqueues s slot))\<rparr>)"
    | (some) xs t ys where "s_runqueues s slot = xs @ t # ys" "\<forall>u \<in> set xs. status s u \<noteq> Ready" "status s t = Ready"
      "pick_next_from_slot slot now s = (Some t, s\<lparr>s_tasks := switch_in (s_tasks s) t now,
         s_runqueues := (s_runqueues s)(slot := ys @ filter (alive (s_tasks s)) xs)\<rparr>)"
  by (rule dropWhile_cases [of "s_runqueues s slot" "is_ready (s_tasks s)"])
     (simp_all add: pick_next_from_slot_def pick_loop_spec)

lemma steal_from_slot_cases:
  obtains (none) "\<forall>t \<in> set (s_runqueues s slot). status s t \<noteq> Ready"
      "steal_from_slot slot now s = (None, s\<lparr>s_runqueues := (s_runqueues s)(slot := filter (alive (s_tasks s)) (s_runqueues s slot))\<rparr>)"
    | (some) xs t ys where "s_runqueues s slot = ys @ t # xs" "\<forall>u \<in> set xs. status s u \<noteq> Ready" "status s t = Ready"
      "steal_from_slot slot now s = (Some t, s\<lparr>s_tasks := switch_in (s_tasks s) t now,
         s_runqueues := (s_runqueues s)(slot := filter (alive (s_tasks s)) xs @ ys)\<rparr>)"
proof (rule dropWhile_cases [of "rev (s_runqueues s slot)" "is_ready (s_tasks s)"])
  fix xs t r
  assume *: "rev (s_runqueues s slot) = xs @ t # r" "\<forall>u \<in> set xs. status s u \<noteq> Ready" "status s t = Ready"
    "dropWhile (\<lambda>t. \<not> is_ready (s_tasks s) t) (rev (s_runqueues s slot)) = t # r"
    "takeWhile (\<lambda>t. \<not> is_ready (s_tasks s) t) (rev (s_runqueues s slot)) = xs"
  have "s_runqueues s slot = rev r @ t # rev xs" using arg_cong [OF *(1), of rev] by simp
  then show thesis
    using * by (intro some [of "rev r" t "rev xs"]) (simp_all add: steal_from_slot_def steal_loop_rev pick_loop_spec rev_filter)
qed (auto intro!: none simp: steal_from_slot_def steal_loop_rev pick_loop_spec rev_filter)

text \<open>What picking leaves alone, and the queues after the exited tasks of some slots were dropped.\<close>

abbreviation pick_frame :: "Sched \<Rightarrow> Sched \<Rightarrow> bool" where
  "pick_frame s s' \<equiv> s_current s' = s_current s \<and> s_idle_sp s' = s_idle_sp s \<and> s_deferred s' = s_deferred s \<and>
     s_cpu_count s' = s_cpu_count s"

definition pruned :: "nat set \<Rightarrow> Sched \<Rightarrow> nat \<Rightarrow> nat list" where
  "pruned A s = (\<lambda>i. if i \<in> A then filter (alive (s_tasks s)) (s_runqueues s i) else s_runqueues s i)"

abbreviation none_ready :: "Sched \<Rightarrow> nat \<Rightarrow> bool" where
  "none_ready s i \<equiv> \<forall>t \<in> set (s_runqueues s i). status s t \<noteq> Ready"

text \<open>Taking the last ready task of slot \<open>v\<close> after the slots \<open>A\<close> had none.\<close>

definition stolen :: "nat set \<Rightarrow> nat \<Rightarrow> nat \<Rightarrow> u64 \<Rightarrow> Sched \<Rightarrow> Sched \<Rightarrow> bool" where
  "stolen A v t now s s' \<longleftrightarrow> (\<forall>i \<in> A. none_ready s i) \<and> status s t = Ready \<and> s_tasks s' = switch_in (s_tasks s) t now \<and>
     (\<exists>xs ys. s_runqueues s v = ys @ t # xs \<and> (\<forall>u \<in> set xs. status s u \<noteq> Ready) \<and>
        s_runqueues s' = (pruned A s)(v := filter (alive (s_tasks s)) xs @ ys))"

lemma stolen_later:
  assumes "s_tasks s1 = s_tasks s" and rq: "s_runqueues s1 = (s_runqueues s)(l := filter (alive (s_tasks s)) (s_runqueues s l))"
    and "none_ready s l" "stolen A v t now s1 s'" "l \<notin> A" "v \<noteq> l"
  shows "stolen (insert l A) v t now s s'"
proof -
  have "pruned A s1 = pruned (insert l A) s" using assms(1) rq by (auto simp: pruned_def)
  moreover have "none_ready s i" if "i \<in> A" for i
  proof -
    have "none_ready s1 i" "i \<noteq> l" using that assms(4,5) by (auto simp: stolen_def)
    then show ?thesis using assms(1) rq by simp
  qed
  ultimately show ?thesis using assms by (simp add: stolen_def)
qed

lemma steal_from_slots_spec:
  "distinct vs \<Longrightarrow> steal_from_slots vs now s = (r, s') \<Longrightarrow> pick_frame s s' \<and>
   (case r of
      None \<Rightarrow> s_tasks s' = s_tasks s \<and> (\<forall>v \<in> set vs. none_ready s v) \<and> s_runqueues s' = pruned (set vs) s
    | Some t \<Rightarrow> \<exists>us v ws. vs = us @ v # ws \<and> stolen (set us) v t now s s')"
proof (induction vs arbitrary: s)
  case Nil
  then show ?case by (auto simp: pruned_def)
next
  case (Cons v vs)
  let ?s = "s\<lparr>s_steal_attempts := s_steal_attempts s + 1\<rparr>"
  show ?case
  proof (rule steal_from_slot_cases [of ?s v now])
    fix xs t ys
    assume "s_runqueues ?s v = ys @ t # xs" "\<forall>u \<in> set xs. status ?s u \<noteq> Ready" "status ?s t = Ready"
      "steal_from_slot v now ?s = (Some t, ?s\<lparr>s_tasks := switch_in (s_tasks ?s) t now,
         s_runqueues := (s_runqueues ?s)(v := filter (alive (s_tasks ?s)) xs @ ys)\<rparr>)"
    then have "r = Some t" "pick_frame s s'" "stolen (set []) v t now s s'"
      using Cons.prems(2) by (auto simp: stolen_def pruned_def intro!: exI [of _ xs, OF exI [of _ ys]])
    then show ?thesis by (simp only: option.case) fastforce
  next
    assume none: "\<forall>t \<in> set (s_runqueues ?s v). status ?s t \<noteq> Ready"
      and "steal_from_slot v now ?s =
        (None, ?s\<lparr>s_runqueues := (s_runqueues ?s)(v := filter (alive (s_tasks ?s)) (s_runqueues ?s v))\<rparr>)"
    then obtain s1 where fr: "pick_frame s s1" and ts: "s_tasks s1 = s_tasks s"
      and rq: "s_runqueues s1 = (s_runqueues s)(v := filter (alive (s_tasks s)) (s_runqueues s v))"
      and st: "steal_from_slots vs now s1 = (r, s')"
      using Cons.prems(2)
      by (intro that [of "?s\<lparr>s_runqueues := (s_runqueues s)(v := filter (alive (s_tasks s)) (s_runqueues s v))\<rparr>"]) simp_all
    have v: "v \<notin> set vs" and d: "distinct vs" using Cons.prems(1) by simp_all
    note ih = Cons.IH [OF d st]
    have nr: "none_ready s v" using none by simp
    show ?thesis
    proof (cases r)
      case None
      then have q: "s_tasks s' = s_tasks s1" "\<forall>w \<in> set vs. none_ready s1 w" "s_runqueues s' = pruned (set vs) s1"
        using ih by simp_all
      have "none_ready s w" if "w \<in> set vs" for w
        using bspec [OF q(2) that] that v rq ts by (cases "w = v") simp_all
      moreover have "pruned (set vs) s1 = pruned (set (v # vs)) s"
        using rq ts by (intro ext) (simp add: pruned_def)
      ultimately show ?thesis using None ih fr ts q(1,3) nr by simp
    next
      case (Some t)
      then obtain us w ws where vs: "vs = us @ w # ws" and stl: "stolen (set us) w t now s1 s'" using ih by auto
      have "v \<notin> set us" "w \<noteq> v" using v vs by auto
      then have "v # vs = (v # us) @ w # ws \<and> stolen (set (v # us)) w t now s s'"
        using vs stolen_later [OF ts rq nr stl] by simp
      moreover have "pick_frame s s'" using ih fr by simp
      ultimately show ?thesis unfolding Some option.case by blast
    qed
  qed
qed

lemma victims:
  assumes "l < (n :: nat)"
  shows "distinct (map (\<lambda>offset. (l + offset) mod n) [1..<n])" "set (map (\<lambda>offset. (l + offset) mod n) [1..<n]) = {..<n} - {l}"
proof -
  have off: "(l + x) mod n = (if l + x < n then l + x else l + x - n)" if "x < n" for x
    using assms that by (simp add: mod_if)
  have inj: "inj_on (\<lambda>offset. (l + offset) mod n) {1..<n}"
    by (rule inj_onI) (auto simp: off split: if_splits)
  then show "distinct (map (\<lambda>offset. (l + offset) mod n) [1..<n])" by (simp add: distinct_map)
  have "(\<lambda>offset. (l + offset) mod n) ` {1..<n} \<subseteq> {..<n} - {l}" using assms by (auto simp: off split: if_splits)
  moreover have "card ((\<lambda>offset. (l + offset) mod n) ` {1..<n}) = card ({..<n} - {l})"
    using card_image [OF inj] assms by simp
  ultimately show "set (map (\<lambda>offset. (l + offset) mod n) [1..<n]) = {..<n} - {l}"
    by (simp add: card_subset_eq)
qed

text \<open>Taking the first ready task of the local slot.\<close>

definition picked :: "nat \<Rightarrow> nat \<Rightarrow> u64 \<Rightarrow> Sched \<Rightarrow> Sched \<Rightarrow> bool" where
  "picked l t now s s' \<longleftrightarrow> status s t = Ready \<and> s_tasks s' = switch_in (s_tasks s) t now \<and>
     (\<exists>xs ys. s_runqueues s l = xs @ t # ys \<and> (\<forall>u \<in> set xs. status s u \<noteq> Ready) \<and>
        s_runqueues s' = (s_runqueues s)(l := ys @ filter (alive (s_tasks s)) xs))"

lemma pick_next_spec:
  assumes "pick_next c now s = (r, s')" and l: "l = runqueue_slot_index s c"
  shows "pick_frame s s' \<and>
    (case r of
       None \<Rightarrow> s_tasks s' = s_tasks s \<and> (\<forall>v < active_cpu_slots s. none_ready s v) \<and> s_runqueues s' = pruned {..<active_cpu_slots s} s
     | Some t \<Rightarrow> picked l t now s s' \<or> (\<exists>A v. v < active_cpu_slots s \<and> v \<noteq> l \<and> l \<in> A \<and> A \<subseteq> {..<active_cpu_slots s} \<and>
         stolen A v t now s s'))"
proof -
  let ?n = "active_cpu_slots s"
  have ln: "l < ?n" using l slots_bounds(1) [of s] by (simp add: runqueue_slot_index_def)
  show ?thesis
  proof (rule pick_from_slot_cases [of s l now])
    fix xs t ys
    assume "s_runqueues s l = xs @ t # ys" "\<forall>u \<in> set xs. status s u \<noteq> Ready" "status s t = Ready"
      "pick_next_from_slot l now s = (Some t, s\<lparr>s_tasks := switch_in (s_tasks s) t now,
         s_runqueues := (s_runqueues s)(l := ys @ filter (alive (s_tasks s)) xs)\<rparr>)"
    then have "r = Some t" "pick_frame s s'" "picked l t now s s'"
      using assms by (auto simp: pick_next_def picked_def intro!: exI [of _ xs, OF exI [of _ ys]])
    then show ?thesis by simp
  next
    define s1 where "s1 = s\<lparr>s_runqueues := (s_runqueues s)(l := filter (alive (s_tasks s)) (s_runqueues s l))\<rparr>"
    let ?vs = "map (\<lambda>offset. (l + offset) mod ?n) [1..<?n]"
    assume none: "none_ready s l"
      and "pick_next_from_slot l now s = (None, s\<lparr>s_runqueues := (s_runqueues s)(l := filter (alive (s_tasks s)) (s_runqueues s l))\<rparr>)"
    then have st: "steal_from_slots ?vs now s1 = (r, s')"
      using assms by (simp add: pick_next_def s1_def active_cpu_slots_def Let_def)
    note sp = steal_from_slots_spec [OF victims(1) [OF ln] st]
    have fr: "pick_frame s s'" using sp by (simp add: s1_def)
    show ?thesis
    proof (cases r)
      case None
      have "s_tasks s' = s_tasks s1" "\<forall>v \<in> {..<?n} - {l}. none_ready s1 v" "s_runqueues s' = pruned ({..<?n} - {l}) s1"
        using sp None unfolding victims(2) [OF ln] by (simp_all only: option.case) blast+
      moreover have "pruned ({..<?n} - {l}) s1 = pruned {..<?n} s" using ln by (auto simp: pruned_def s1_def)
      ultimately show ?thesis using fr None none by (auto simp: s1_def)
    next
      case (Some t)
      then obtain us v ws where vs: "?vs = us @ v # ws" and stl: "stolen (set us) v t now s1 s'" using sp by auto
      have v: "v < ?n" "v \<noteq> l" "l \<notin> set us" using victims(2) [OF ln] unfolding vs by auto
      have nv: "insert l (set us) \<subseteq> {..<?n}" using victims(2) [OF ln] ln unfolding vs by auto
      show ?thesis
        using fr Some v nv stolen_later [of s1 s l, OF _ _ none stl v(3,2)] by (simp add: s1_def) blast
    qed
  qed
qed

text \<open>In a good state every queued task is ready: the head of the local queue or the tail of another one is taken.\<close>

lemma pick_view:
  assumes v: "sched_view k s" and c: "c < active_cpu_slots s" and pick: "pick_next c now s = (r, s')"
  shows "case r of
      None \<Rightarrow> s_tasks s' = s_tasks s \<and> (\<forall>i < active_cpu_slots s. s_runqueues s i = []) \<and> s_runqueues s' = s_runqueues s
    | Some t \<Rightarrow> s_tasks s' = switch_in (s_tasks s) t now \<and> (\<exists>v q. v < active_cpu_slots s \<and>
        (v = c \<and> s_runqueues s v = t # q \<or> v \<noteq> c \<and> s_runqueues s c = [] \<and> s_runqueues s v = q @ [t]) \<and>
        s_runqueues s' = (s_runqueues s)(v := q))"
proof -
  let ?n = "active_cpu_slots s"
  have ready: "status s t = Ready" if "t \<in> set (s_runqueues s i)" "i < ?n" for t i
    using v that by (simp add: sinv_def)
  have empty: "s_runqueues s i = []" if "none_ready s i" "i < ?n" for i
    using that ready [of "hd (s_runqueues s i)" i] by (cases "s_runqueues s i") auto
  note sp = pick_next_spec [OF pick refl, unfolded slot_index(1) [OF c]]
  show ?thesis
  proof (cases r)
    case None
    then have q: "\<forall>i < ?n. none_ready s i" "s_runqueues s' = pruned {..<?n} s" "s_tasks s' = s_tasks s" using sp by simp_all
    have "\<forall>i < ?n. s_runqueues s i = []" using q(1) empty by blast
    then show ?thesis using None q(2,3) by (auto simp: pruned_def)
  next
    case (Some t)
    then consider (pick) "picked c t now s s'"
      | (steal) A w where "w < ?n" "w \<noteq> c" "c \<in> A" "A \<subseteq> {..<?n}" "stolen A w t now s s'"
      using sp by auto
    then show ?thesis
    proof cases
      case pick
      then obtain xs ys where q: "s_runqueues s c = xs @ t # ys" "\<forall>u \<in> set xs. status s u \<noteq> Ready" "s_tasks s' = switch_in (s_tasks s) t now"
        "s_runqueues s' = (s_runqueues s)(c := ys @ filter (alive (s_tasks s)) xs)"
        by (auto simp: picked_def)
      have "xs = []" using q(1,2) ready [OF _ c] by (cases xs) auto
      then show ?thesis using Some q c by auto
    next
      case steal
      then obtain xs ys where q: "s_runqueues s w = ys @ t # xs" "\<forall>u \<in> set xs. status s u \<noteq> Ready" "s_tasks s' = switch_in (s_tasks s) t now"
        "s_runqueues s' = (pruned A s)(w := filter (alive (s_tasks s)) xs @ ys)" and A: "\<forall>i \<in> A. none_ready s i"
        by (auto simp: stolen_def)
      have xs: "xs = []" using q(1,2) ready [OF _ steal(1)] by (cases xs) auto
      have "s_runqueues s i = []" if "i \<in> A" for i using empty [of i] A steal(4) that by blast
      then have "pruned A s = s_runqueues s" by (intro ext) (simp add: pruned_def)
      moreover have "s_runqueues s c = []" using empty [OF _ c] A steal(3) by blast
      ultimately show ?thesis using Some q xs steal(1,2) by auto
    qed
  qed
qed

lemma on_switch_out_simps [simp]:
  "t_status (on_switch_out t now b) = t_status t" "t_pid (on_switch_out t now b) = t_pid t"
  by (simp_all add: on_switch_out_def Let_def split: option.split)

lemma set_task_simps [simp]:
  "s_runqueues (set_task t x s) = s_runqueues s" "s_current (set_task t x s) = s_current s"
  "s_idle_sp (set_task t x s) = s_idle_sp s" "s_deferred (set_task t x s) = s_deferred s"
  "s_cpu_count (set_task t x s) = s_cpu_count s" "active_cpu_slots (set_task t x s) = active_cpu_slots s"
  "s_tasks (set_task t x s) u = (if u = t then x else s_tasks s u)"
  by (simp_all add: set_task_def active_cpu_slots_def)

lemma deferred_simps [simp]:
  "s_runqueues (enqueue_deferred_requeue t c s) = s_runqueues s" "s_current (enqueue_deferred_requeue t c s) = s_current s"
  "s_idle_sp (enqueue_deferred_requeue t c s) = s_idle_sp s" "s_deferred (enqueue_deferred_requeue t c s) = s_deferred s @ [(c, t)]"
  "s_cpu_count (enqueue_deferred_requeue t c s) = s_cpu_count s"
  "active_cpu_slots (enqueue_deferred_requeue t c s) = active_cpu_slots s" "s_tasks (enqueue_deferred_requeue t c s) = s_tasks s"
  by (simp_all add: enqueue_deferred_requeue_def active_cpu_slots_def)

lemma switch_out_frame:
  assumes "s' = switch_out p c now sp s"
  shows "s_current s' = s_current s" "s_idle_sp s' = s_idle_sp s" "s_runqueues s' = s_runqueues s" "s_cpu_count s' = s_cpu_count s"
    "active_cpu_slots s' = active_cpu_slots s"
    "t_pid (s_tasks s' u) = t_pid (s_tasks s u)"
    "status s' = (if status s p = Blocked \<or> status s p = Exited then status s else (status s)(p := Switching))"
    "s_deferred s' = s_deferred s @ (if status s p = Blocked \<or> status s p = Exited then [] else [(c, p)])"
  using assms
  by (simp_all add: switch_out_def Let_def fun_eq_iff set_status_def active_cpu_slots_def split: TaskStatus.split)

section \<open>One call of the scheduler\<close>

lemma sinv_no_current: "sinv n st rq cur idle df (Some c) \<Longrightarrow> cur c = None \<Longrightarrow> sinv n st rq cur idle df None"
  unfolding sinv_def by (elim conjE, intro conjI) (assumption | fastforce)+

text \<open>The queues after a call: unchanged when all were empty, otherwise one task left a queue and runs.\<close>

definition sched_effect :: "nat \<Rightarrow> Sched \<Rightarrow> Sched \<Rightarrow> bool" where
  "sched_effect c f s' \<longleftrightarrow>
     (\<forall>i < active_cpu_slots f. s_runqueues f i = []) \<and> s_runqueues s' = s_runqueues f \<or>
     (\<exists>t v q. v < active_cpu_slots f \<and>
        (v = c \<and> s_runqueues f v = t # q \<or> v \<noteq> c \<and> s_runqueues f c = [] \<and> s_runqueues f v = q @ [t]) \<and>
        s_runqueues s' = (s_runqueues f)(v := q) \<and> status s' t = Running)"

lemma schedule_some:
  assumes v: "sched_view k f" and k: "k = None \<or> k = Some c" and c: "c < active_cpu_slots f" and sp: "sp \<noteq> 0"
    and df: "\<forall>(d, u) \<in> set (s_deferred f). d \<noteq> c"
    and pick: "pick_next c now f = (Some t, s1)"
    and s': "s' = (case s_current s1 c of
        Some p \<Rightarrow> switch_out p c now' sp (s1\<lparr>s_current := (s_current s1)(c := Some t)\<rparr>)
      | None \<Rightarrow> s1\<lparr>s_current := (s_current s1)(c := Some t), s_idle_sp := (s_idle_sp s1)(c := sp)\<rparr>)"
  shows "sched_ok s' \<and> sched_effect c f s' \<and> active_cpu_slots s' = active_cpu_slots f \<and> (\<forall>u. t_pid (s_tasks s' u) = t_pid (s_tasks f u))"
proof -
  let ?n = "active_cpu_slots f"
  have fr: "pick_frame f s1" using pick_next_spec [OF pick refl] by simp
  obtain w q where ts: "s_tasks s1 = switch_in (s_tasks f) t now" and w: "w < ?n"
    and q: "w = c \<and> s_runqueues f w = t # q \<or> w \<noteq> c \<and> s_runqueues f c = [] \<and> s_runqueues f w = q @ [t]"
    and rq: "s_runqueues s1 = (s_runqueues f)(w := q)"
    using pick_view [OF v c pick] by auto
  have d: "distinct (s_runqueues f w)" using v w by (simp add: sinv_def)
  have t: "t \<in> set (s_runqueues f w)" and sq: "set q = set (s_runqueues f w) - {t}" and dq: "distinct q" using q d by auto
  have rt: "status f t = Ready" using v w t by (simp add: sinv_def)
  have st1: "status s1 = (status f)(t := Running)" using ts by (simp add: switch_in_def on_switch_in_def fun_eq_iff)
  have n: "active_cpu_slots s1 = ?n" using fr by (simp add: active_cpu_slots_def)
  have pid: "t_pid (s_tasks s1 u) = t_pid (s_tasks f u)" for u using ts by (simp add: switch_in_def on_switch_in_def)
  have cur: "status f p = Running \<or> status f p = Blocked \<or> status f p = Exited" if "s_current f c = Some p" for p
    using v that by (simp add: sinv_def) blast
  have idle: "s_idle_sp f c \<noteq> 0" if "s_current f c = Some p" for p using v that by (simp add: sinv_def)
  have pt: "p \<noteq> t" if "s_current f c = Some p" for p using cur [OF that] rt by auto
  have view: "s_current s' = (s_current f)(c := Some t) \<and> s_runqueues s' = (s_runqueues f)(w := q) \<and> active_cpu_slots s' = ?n \<and>
     status s' = (case s_current f c of
        Some p \<Rightarrow> if status f p = Running then (status f)(t := Running, p := Switching) else (status f)(t := Running)
      | None \<Rightarrow> (status f)(t := Running)) \<and>
     s_deferred s' = s_deferred f @ (case s_current f c of Some p \<Rightarrow> if status f p = Running then [(c, p)] else [] | None \<Rightarrow> []) \<and>
     s_idle_sp s' = (case s_current f c of Some p \<Rightarrow> s_idle_sp f | None \<Rightarrow> (s_idle_sp f)(c := sp)) \<and>
     (\<forall>u. t_pid (s_tasks s' u) = t_pid (s_tasks f u))"
  proof (cases "s_current f c")
    case None
    then show ?thesis using s' fr st1 rq n pid by (simp add: active_cpu_slots_def)
  next
    case (Some p)
    then have so: "s' = switch_out p c now' sp (s1\<lparr>s_current := (s_current f)(c := Some t)\<rparr>)" using s' fr by simp
    have "status s1 p = status f p" using fun_cong [OF st1, of p] pt [OF Some] by simp
    then show ?thesis
      using cur [OF Some] Some fr st1 rq n pid by (elim disjE) (simp_all add: switch_out_frame [OF so] active_cpu_slots_def)
  qed
  note view = view [THEN conjunct1] view [THEN conjunct2, THEN conjunct1] view [THEN conjunct2, THEN conjunct2]
  note view = view(1,2) view(3) [THEN conjunct1] view(3) [THEN conjunct2, THEN conjunct1]
    view(3) [THEN conjunct2, THEN conjunct2, THEN conjunct1] view(3) [THEN conjunct2, THEN conjunct2, THEN conjunct2]
  have "sinv ?n (status s') (s_runqueues s') (s_current s') (\<lambda>d. s_idle_sp s' d \<noteq> 0) (s_deferred s') None"
    unfolding view(1,2)
    by (rule sinv_switch_to [OF v k c w t sq dq refl df view(4,5)]) (use sp idle view(6) in \<open>auto split: option.splits\<close>)
  moreover have "status s' t = Running" using fun_cong [OF view(4), of t] pt by (cases "s_current f c") auto
  ultimately show ?thesis
    using view(2,3,6) w q by (auto simp: sched_ok_def sched_effect_def)
qed

lemma schedule_none:
  assumes v: "sched_view k f" and k: "k = None \<or> k = Some c" and c: "c < active_cpu_slots f"
    and df: "\<forall>(d, u) \<in> set (s_deferred f). d \<noteq> c"
    and pick: "pick_next c now f = (None, s1)" and s2: "s2 = s1\<lparr>s_idle_fallbacks := s_idle_fallbacks s1 + 1\<rparr>"
    and s': "s' = (if s_idle_sp s2 c \<noteq> 0 then
        case s_current s2 c of
          Some p \<Rightarrow> switch_out p c now' sp (s2\<lparr>s_current := (s_current s2)(c := None)\<rparr>)
        | None \<Rightarrow> s2\<lparr>s_current := (s_current s2)(c := None)\<rparr>
      else s2)"
  shows "sched_ok s' \<and> sched_effect c f s' \<and> active_cpu_slots s' = active_cpu_slots f \<and> (\<forall>u. t_pid (s_tasks s' u) = t_pid (s_tasks f u))"
proof -
  let ?n = "active_cpu_slots f"
  have fr: "pick_frame f s2" using pick_next_spec [OF pick refl] s2 by simp
  have pv: "s_tasks s2 = s_tasks f" "\<forall>i < ?n. s_runqueues f i = []" "s_runqueues s2 = s_runqueues f"
    using pick_view [OF v c pick] s2 by simp_all
  have n: "active_cpu_slots s2 = ?n" using fr by (simp add: active_cpu_slots_def)
  show ?thesis
  proof (cases "s_current f c")
    case None
    then have "s' = s2" using s' fr by (auto simp: fun_upd_idem)
    moreover have "sched_view None f"
      using k
    proof
      assume "k = Some c"
      then show ?thesis using sinv_no_current [where cur = "s_current f"] v None by simp
    qed (use v in simp)
    ultimately show ?thesis using fr pv n by (simp add: sched_ok_def sched_effect_def)
  next
    case (Some p)
    have "s_idle_sp f c \<noteq> 0" and st: "status f p = Running \<or> status f p = Blocked \<or> status f p = Exited"
      using v Some by (simp_all add: sinv_def) blast
    then have so: "s' = switch_out p c now' sp (s2\<lparr>s_current := (s_current s2)(c := None)\<rparr>)" using s' fr Some by simp
    have view: "s_current s' = (s_current f)(c := None)" "s_runqueues s' = s_runqueues f" "active_cpu_slots s' = ?n"
      "status s' = (if status f p = Running then (status f)(p := Switching) else status f)"
      "s_deferred s' = s_deferred f @ (if status f p = Running then [(c, p)] else [])" "s_idle_sp s' = s_idle_sp f"
      "\<And>u. t_pid (s_tasks s' u) = t_pid (s_tasks f u)"
      using fr pv n st by (auto simp: switch_out_frame [OF so] active_cpu_slots_def)
    have "sinv ?n (status s') (s_runqueues s') (s_current s') (\<lambda>d. s_idle_sp s' d \<noteq> 0) (s_deferred s') None"
      unfolding view by (rule sinv_switch_idle [OF v k Some df])
    then show ?thesis using view(2,3,7) pv(2) by (simp add: sched_ok_def sched_effect_def)
  qed
qed

lemma schedule_view:
  assumes v: "sched_view k s" and k: "k = None \<or> k = Some c" and c: "c < active_cpu_slots s" and sp: "sp \<noteq> 0"
    and s': "s' = snd (schedule c now now' sp s)"
  shows "sched_ok s' \<and> sched_effect c (flush_deferred_requeue c s) s' \<and> active_cpu_slots s' = active_cpu_slots s \<and>
    (\<forall>u. t_pid (s_tasks s' u) = t_pid (s_tasks s u))"
proof -
  define f where "f = flush_deferred_requeue c s"
  note fl = flush_view [OF v k c f_def]
  have cf: "c < active_cpu_slots f" using c fl(4) by simp
  obtain r s1 where pick: "pick_next c now f = (r, s1)" by force
  have "sched_ok s' \<and> sched_effect c f s' \<and> active_cpu_slots s' = active_cpu_slots f \<and> (\<forall>u. t_pid (s_tasks s' u) = t_pid (s_tasks f u))"
  proof (cases r)
    case None
    show ?thesis
      by (rule schedule_none [OF fl(1) k cf fl(8) pick [unfolded None] refl, where now' = now' and sp = sp])
         (use s' pick None in \<open>simp add: schedule_def take_current_task_def Let_def slot_index(2) [OF c] f_def split: option.split\<close>)
  next
    case (Some t)
    show ?thesis
      by (rule schedule_some [OF fl(1) k cf sp fl(8) pick [unfolded Some], where now' = now'])
         (use s' pick Some in \<open>simp add: schedule_def replace_current_task_def Let_def slot_index(2) [OF c] f_def split: option.split\<close>)
  qed
  then show ?thesis using fl(4,5) unfolding f_def by simp
qed

end
