(* ===== verification/Sched_Props.thy ===== *)
theory Sched_Props
  imports Sched_Proofs
begin

text \<open>
  Properties of the scheduler over sequences of events: exclusive ownership of tasks in every
  reachable state, no ready task is overlooked, and a bound on the time a task waits in a queue.
\<close>

section \<open>Reachable states\<close>

inductive sched_reach :: "Sched \<Rightarrow> Sched \<Rightarrow> bool" where
  reach_start: "sched_reach s s"
| reach_event: "sched_reach s0 s \<Longrightarrow> event_ok s e \<Longrightarrow> sched_reach s0 (sched_exec e s)"

fun sched_run :: "sched_event list \<Rightarrow> Sched \<Rightarrow> Sched" where
  "sched_run [] s = s"
| "sched_run (e # es) s = sched_run es (sched_exec e s)"

lemma sinv_leave:
  assumes "sinv n st rq cur idle df None" "cur c = Some t" "x = Blocked \<or> x = Exited"
  shows "sinv n (st(t := x)) rq cur idle df (Some c)"
proof -
  note inv = assms(1) [unfolded sinv_def]
  have queue: "\<And>i u. i < n \<Longrightarrow> u \<in> set (rq i) \<Longrightarrow> st u = Ready"
    and curr: "\<And>d u. cur d = Some u \<Longrightarrow> d < n \<and> idle d \<and> st u = Running"
    and uniq: "\<And>d e u. cur d = Some u \<Longrightarrow> cur e = Some u \<Longrightarrow> d = e"
    and run: "\<And>u. st u = Running \<Longrightarrow> \<exists>d. cur d = Some u"
    using inv by auto
  show ?thesis
    unfolding sinv_def
  proof (intro conjI allI impI)
    fix i assume i: "i < n"
    then show "distinct (rq i)" using inv by blast
    show "\<forall>u \<in> set (rq i). (st(t := x)) u = Ready"
      using queue [OF i] curr [OF assms(2)] by auto
  next
    fix d u assume d: "cur d = Some u"
    show "d < n" "idle d" using curr [OF d] by simp_all
    show "(st(t := x)) u = Running \<or> Some c = Some d \<and> ((st(t := x)) u = Blocked \<or> (st(t := x)) u = Exited)"
      using curr [OF d] uniq [OF d] assms(2,3) by auto
  next
    fix u assume "(st(t := x)) u = Running"
    then show "\<exists>d. cur d = Some u" using run assms(3) by (auto split: if_splits)
  qed (use inv in blast)+
qed

lemma sinv_filter: "sinv n st rq cur idle df k \<Longrightarrow> sinv n st (\<lambda>i. if i < n then filter P (rq i) else rq i) cur idle df k"
  unfolding sinv_def by (elim conjE, intro conjI) (assumption | simp | fastforce)+

text \<open>What one event does: the CPU whose dispatch it is, the queues before it, and the state after.\<close>

fun dispatcher :: "Sched \<Rightarrow> sched_event \<Rightarrow> nat option" where
  "dispatcher s (EvSchedule c now now' sp) = Some c"
| "dispatcher s (EvBlock c now now' sp) = (if s_current s c = None then None else Some c)"
| "dispatcher s (EvExit c now now' sp) = (if s_current s c = None then None else Some c)"
| "dispatcher s (EvWake t c) = None"
| "dispatcher s (EvRemove pid) = None"

abbreviation stable :: "Sched \<Rightarrow> Sched \<Rightarrow> bool" where
  "stable s s' \<equiv> sched_ok s' \<and> active_cpu_slots s' = active_cpu_slots s \<and> (\<forall>u. t_pid (s_tasks s' u) = t_pid (s_tasks s u))"

text \<open>A task waits in the queue of \<open>c\<close> with at most \<open>i\<close> tasks before it.\<close>

definition waits :: "Sched \<Rightarrow> nat \<Rightarrow> nat \<Rightarrow> nat \<Rightarrow> bool" where
  "waits s c t i \<longleftrightarrow> (\<exists>xs ys. s_runqueues s c = xs @ t # ys \<and> length xs \<le> i)"

lemma waits_append: "waits s c t i \<Longrightarrow> s_runqueues s' c = s_runqueues s c @ zs \<Longrightarrow> waits s' c t i"
  unfolding waits_def by (elim exE conjE) (simp, blast)

lemma waits_same: "waits s c t i \<Longrightarrow> s_runqueues s' c = s_runqueues s c \<Longrightarrow> waits s' c t i"
  by (simp add: waits_def)

lemma waits_later: "waits s c t i \<Longrightarrow> i \<le> j \<Longrightarrow> waits s c t j"
  unfolding waits_def by (meson le_trans)

lemma effect_waits:
  assumes eff: "sched_effect d f s'" and w: "waits f c t i" and c: "c < active_cpu_slots f"
  shows "status s' t = Running \<or> waits s' c t i \<and> (d = c \<longrightarrow> 0 < i \<and> waits s' c t (i - 1))"
proof -
  obtain xs ys where q: "s_runqueues f c = xs @ t # ys" "length xs \<le> i" using w by (auto simp: waits_def)
  then obtain u v r where v: "v = d \<and> s_runqueues f v = u # r \<or> v \<noteq> d \<and> s_runqueues f d = [] \<and> s_runqueues f v = r @ [u]"
    and rq: "s_runqueues s' = (s_runqueues f)(v := r)" and run: "status s' u = Running"
    using eff c by (auto simp: sched_effect_def)
  consider (other) "v \<noteq> c" | (head) "v = c" "d = c" "s_runqueues f c = u # r" | (tail) "v = c" "d \<noteq> c" "s_runqueues f c = r @ [u]"
    using v by auto
  then show ?thesis
  proof cases
    case other
    then have "d \<noteq> c" using v q(1) by auto
    then show ?thesis using other waits_same [OF w, of s'] rq by simp
  next
    case head
    then show ?thesis
      using q rq run by (cases xs) (auto simp: waits_def intro: exI [of _ "tl xs"])
  next
    case tail
    then show ?thesis
      using q rq run by (cases ys rule: rev_cases) (auto simp: waits_def)
  qed
qed

lemma dispatch_step:
  assumes v: "sched_view k s" and k: "k = None \<or> k = Some d" and d: "d < active_cpu_slots s" and sp: "sp \<noteq> 0"
    and w: "waits s c t i" and c: "c < active_cpu_slots s" and s': "s' = snd (schedule d now now' sp s)"
  shows "status s' t = Running \<or> waits s' c t i \<and> (d = c \<longrightarrow> 0 < i \<and> waits s' c t (i - 1))"
proof -
  let ?f = "flush_deferred_requeue d s"
  note fl = flush_view [OF v k d refl]
  obtain zs where "s_runqueues ?f c = s_runqueues s c @ zs"
    using fl(6) [of c] fl(7) by (cases "c = d") auto
  then have "waits ?f c t i" by (rule waits_append [OF w])
  then show ?thesis
    using schedule_view [OF v k d sp s'] effect_waits [of d ?f s'] c fl(4) by simp
qed

lemma leave_view:
  assumes "sched_ok s" "c < active_cpu_slots s" "s_current s c = Some t" "x = Blocked \<or> x = Exited"
  shows "sched_view (Some c) (set_status t x s)"
proof -
  have "status (set_status t x s) = (status s)(t := x)" by (simp add: fun_eq_iff)
  then show ?thesis using sinv_leave [OF assms(1) [unfolded sched_ok_def] assms(3,4)] by simp
qed

lemma leave_step:
  assumes ok: "sched_ok s" and d: "d < active_cpu_slots s" and sp: "sp \<noteq> 0" and x: "x = Blocked \<or> x = Exited"
    and s': "s' = leave_cpu x d now now' sp s"
  shows "stable s s'"
    "waits s c t i \<Longrightarrow> c < active_cpu_slots s \<Longrightarrow>
     status s' t = Running \<or> waits s' c t i \<and> (s_current s d \<noteq> None \<and> d = c \<longrightarrow> 0 < i \<and> waits s' c t (i - 1))"
proof -
  have cur: "current_task s d = s_current s d" using slot_index(2) [OF d] by (simp add: current_task_def)
  have "stable s s' \<and> (waits s c t i \<longrightarrow> c < active_cpu_slots s \<longrightarrow>
     status s' t = Running \<or> waits s' c t i \<and> (s_current s d \<noteq> None \<and> d = c \<longrightarrow> 0 < i \<and> waits s' c t (i - 1)))"
  proof (cases "s_current s d")
    case None
    then show ?thesis using s' ok cur by (simp add: leave_cpu_def)
  next
    case (Some p)
    let ?s = "set_status p x s"
    have s'': "s' = snd (schedule d now now' sp ?s)" using s' cur Some by (simp add: leave_cpu_def)
    note v = leave_view [OF ok d Some x]
    have d': "d < active_cpu_slots ?s" using d by simp
    have "waits ?s c t i" if "waits s c t i" using waits_same [OF that, of ?s] by simp
    then show ?thesis
      using schedule_view [OF v _ d' sp s''] dispatch_step [OF v _ d' sp _ _ s'', of c t i] Some by simp
  qed
  then show "stable s s'" "waits s c t i \<Longrightarrow> c < active_cpu_slots s \<Longrightarrow>
     status s' t = Running \<or> waits s' c t i \<and> (s_current s d \<noteq> None \<and> d = c \<longrightarrow> 0 < i \<and> waits s' c t (i - 1))"
    by blast+
qed

lemma wake_step:
  assumes ok: "sched_ok s" and d: "d < active_cpu_slots s" and s': "s' = add_task u d s"
  shows "stable s s'" "waits s c t i \<Longrightarrow> waits s' c t i"
proof -
  have s'': "s' = enqueued u d s" using s' enqueue_eq [OF d] by (simp add: add_task_def)
  show "stable s s'"
    using enqueued_view [OF ok [unfolded sched_ok_def] d] unfolding s'' by (simp add: sched_ok_def enqueued_frame)
  obtain zs where "s_runqueues s' c = s_runqueues s c @ zs"
    using enqueued_frame(6,7) unfolding s'' by (metis append_Nil2)
  then show "waits s c t i \<Longrightarrow> waits s' c t i" by (rule waits_append [rotated])
qed

lemma remove_step:
  assumes ok: "sched_ok s" and s': "s' = snd (remove_tasks_by_pid pid s)"
  shows "stable s s'" "waits s c t i \<Longrightarrow> t_pid (s_tasks s t) \<noteq> pid \<Longrightarrow> waits s' c t i"
proof -
  let ?P = "\<lambda>t. t_pid (s_tasks s t) \<noteq> pid" and ?n = "active_cpu_slots s"
  have rq: "s_runqueues s' = (\<lambda>i. if i < ?n then filter ?P (s_runqueues s i) else s_runqueues s i)"
    and fr: "s_tasks s' = s_tasks s" "s_current s' = s_current s" "s_idle_sp s' = s_idle_sp s" "s_deferred s' = s_deferred s"
      "active_cpu_slots s' = ?n"
    using s' by (simp_all add: remove_tasks_by_pid_def Let_def active_cpu_slots_def)
  show "stable s s'"
    using sinv_filter [OF ok [unfolded sched_ok_def], of ?P] by (simp add: sched_ok_def rq fr)
  assume "waits s c t i" and t: "?P t"
  then obtain xs ys where q: "s_runqueues s c = xs @ t # ys" "length xs \<le> i" by (auto simp: waits_def)
  have "s_runqueues s' c = filter ?P xs @ t # filter ?P ys \<or> s_runqueues s' c = xs @ t # ys" using q(1) t rq by simp
  then show "waits s' c t i"
    using q(2) le_trans [OF length_filter_le [of ?P xs] q(2)] unfolding waits_def by blast
qed

text \<open>Every event keeps the invariant.\<close>

lemma sched_exec_stable:
  assumes "sched_ok s" "event_ok s e"
  shows "stable s (sched_exec e s)"
proof (cases e)
  case (EvSchedule c now now' sp)
  then show ?thesis using schedule_view [OF assms(1) [unfolded sched_ok_def] _ _ _ refl, of c sp] assms(2) by simp
next
  case (EvBlock c now now' sp)
  then show ?thesis using leave_step(1) [OF assms(1) _ _ _ refl, of c sp Blocked] assms(2) by simp
next
  case (EvExit c now now' sp)
  then show ?thesis using leave_step(1) [OF assms(1) _ _ _ refl, of c sp Exited] assms(2) by simp
next
  case (EvWake t c)
  then show ?thesis using wake_step(1) [OF assms(1) _ refl, of c t] assms(2) by simp
next
  case (EvRemove pid)
  then show ?thesis using remove_step(1) [OF assms(1) refl, of pid] by simp
qed

text \<open>Every event moves a waiting task forward or leaves it; a dispatch of its CPU moves it.\<close>

lemma sched_exec_waits:
  assumes "sched_ok s" "event_ok s e" "waits s c t i" "c < active_cpu_slots s" "e \<noteq> EvRemove (t_pid (s_tasks s t))" "s' = sched_exec e s"
  shows "status s' t = Running \<or> waits s' c t i \<and> (dispatcher s e = Some c \<longrightarrow> 0 < i \<and> waits s' c t (i - 1))"
proof (cases e)
  case (EvSchedule d now now' sp)
  then show ?thesis using dispatch_step [OF assms(1) [unfolded sched_ok_def] _ _ _ assms(3,4), of d sp] assms(2,6) by simp
next
  case (EvBlock d now now' sp)
  then show ?thesis using leave_step(2) [OF assms(1) _ _ _ _ assms(3,4), of d sp Blocked] assms(2,6) by auto
next
  case (EvExit d now now' sp)
  then show ?thesis using leave_step(2) [OF assms(1) _ _ _ _ assms(3,4), of d sp Exited] assms(2,6) by auto
next
  case (EvWake u d)
  then show ?thesis using wake_step(2) [OF assms(1) _ _ assms(3), of d s' u] assms(2,6) by simp
next
  case (EvRemove pid)
  then show ?thesis using remove_step(2) [OF assms(1) _ assms(3), of s' pid] assms(5,6) by auto
qed

lemma sched_statics_ok: "\<forall>t. t_status (ts t) \<noteq> Running \<Longrightarrow> sched_ok (sched_statics cpus ts)"
  by (simp add: sched_ok_def sched_statics_def sinv_def)

lemma sched_reach_ok: "sched_reach s0 s \<Longrightarrow> sched_ok s0 \<Longrightarrow> sched_ok s \<and> active_cpu_slots s = active_cpu_slots s0"
  by (induction rule: sched_reach.induct) (auto dest: sched_exec_stable)

section \<open>Exclusive ownership\<close>


definition demo_tasks :: "nat \<Rightarrow> Task" where
  "demo_tasks t = task_new_for_process ''worker'' (of_nat t) 4096 1 0"

definition demo_start :: Sched where
  "demo_start = sched_run [EvWake 7 0, EvWake 8 0] (sched_statics 2 demo_tasks)"

lemma demo_start_eq: "demo_start = (sched_statics 2 demo_tasks)\<lparr>s_runqueues := (\<lambda>_. [])(0 := [7, 8])\<rparr>"
  by (simp add: demo_start_def add_task_def enqueue_eq active_cpu_slots_def sched_statics_def RUNQUEUE_SLOT_COUNT_def
      enqueued_def contains_task_anywhere_def demo_tasks_def task_new_for_process_def set_status_def set_task_def fun_eq_iff)

lemma demo_slots: "active_cpu_slots demo_start = 2" "active_cpu_slots (sched_statics 2 demo_tasks) = 2"
  by (simp_all add: demo_start_eq active_cpu_slots_def sched_statics_def RUNQUEUE_SLOT_COUNT_def)

lemma demo_ready: "t_status (demo_tasks t) = Ready" "t_pid (demo_tasks t) = 1"
  by (simp_all add: demo_tasks_def task_new_for_process_def)

lemma demo_start_reach: "sched_reach (sched_statics 2 demo_tasks) demo_start"
proof -
  let ?s = "sched_statics 2 demo_tasks"
  have "sched_reach ?s (sched_exec (EvWake 7 0) ?s)"
    by (intro reach_event reach_start) (simp add: demo_slots)
  then have "sched_reach ?s (sched_exec (EvWake 8 0) (sched_exec (EvWake 7 0) ?s))"
    by (rule reach_event)
       (simp add: demo_slots add_task_def enqueue_eq enqueued_frame)
  then show ?thesis by (simp add: demo_start_def)
qed

lemma demo_first: "s_current (sched_exec (EvSchedule 0 1 1 4096) demo_start) 0 = Some 7"
  by (simp add: schedule_def flush_deferred_requeue_def demo_start_eq sched_statics_def pick_next_def pick_next_from_slot_def
      runqueue_slot_index_def processor_slot_index_def RUNQUEUE_SLOT_COUNT_def replace_current_task_def demo_ready Let_def)


section \<open>No ready task is overlooked\<close>

text \<open>
  C38: \<open>pick_next\<close> returns no task exactly when no active queue holds a ready one; a task it returns was
  ready on an active queue and is running afterwards, with its clock started; and when the local
  queue holds a ready task, the result is the first of these.
\<close>

theorem pick_next_work_conserving:
  "case pick_next c now s of
     (None, s') \<Rightarrow> (\<forall>i < active_cpu_slots s. \<forall>t \<in> set (s_runqueues s i). status s t \<noteq> Ready) \<and> s_tasks s' = s_tasks s
   | (Some t, s') \<Rightarrow> (\<exists>i < active_cpu_slots s. t \<in> set (s_runqueues s i)) \<and> status s t = Ready \<and>
       status s' t = Running \<and> t_run_start_tick (s_tasks s' t) = Some now \<and>
       (case filter (\<lambda>u. status s u = Ready) (s_runqueues s (runqueue_slot_index s c)) of [] \<Rightarrow> True | u # us \<Rightarrow> u = t)"
proof (cases "pick_next c now s")
  case (Pair r s')
  let ?l = "runqueue_slot_index s c"
  note sp = pick_next_spec [OF Pair refl]
  have l: "?l < active_cpu_slots s" using slots_bounds(1) [of s] by (simp add: runqueue_slot_index_def)
  have sw: "t_status (switch_in ts t now t) = Running" "t_run_start_tick (switch_in ts t now t) = Some now" for ts t
    by (simp_all add: switch_in_def on_switch_in_def)
  show ?thesis
  proof (cases r)
    case None
    then show ?thesis using sp Pair by auto
  next
    case (Some t)
    then consider "picked ?l t now s s'" | A v where "v < active_cpu_slots s" "?l \<in> A" "stolen A v t now s s'" using sp by auto
    then show ?thesis
    proof cases
      case 1
      then obtain xs ys where q: "s_runqueues s ?l = xs @ t # ys" "\<forall>u \<in> set xs. status s u \<noteq> Ready" "status s t = Ready"
        and ts: "s_tasks s' = switch_in (s_tasks s) t now" by (auto simp: picked_def)
      have "filter (\<lambda>u. status s u = Ready) (s_runqueues s ?l) = t # filter (\<lambda>u. status s u = Ready) ys" using q by simp
      moreover have "\<exists>i < active_cpu_slots s. t \<in> set (s_runqueues s i)" using q(1) l by (intro exI [of _ ?l]) simp
      ultimately show ?thesis using Pair Some q(3) by (simp add: ts sw)
    next
      case 2
      then have q: "t \<in> set (s_runqueues s v)" "status s t = Ready" "s_tasks s' = switch_in (s_tasks s) t now"
        "none_ready s ?l" by (auto simp: stolen_def)
      have "filter (\<lambda>u. status s u = Ready) (s_runqueues s ?l) = []" using q(4) by simp
      then show ?thesis using Pair Some q(1-3) 2(1) by (auto simp: sw)
    qed
  qed
qed

theorem pick_next_work_conserving_witness:
  "case pick_next 0 5 demo_start of
     (None, s') \<Rightarrow> False
   | (Some t, s') \<Rightarrow> t = 7 \<and> status s' t = Running \<and> t_run_start_tick (s_tasks s' t) = Some 5"
proof -
  have q: "s_runqueues demo_start 0 = [7, 8]" "status demo_start t = Ready" for t
    by (simp_all add: demo_start_eq sched_statics_def demo_ready)
  have "runqueue_slot_index demo_start 0 = 0" by (simp add: runqueue_slot_index_def)
  then show ?thesis
    using pick_next_work_conserving [where c = 0 and now = 5 and s = demo_start] q demo_slots(1) by (auto split: prod.splits option.splits)
qed

section \<open>Bounded waiting\<close>

text \<open>How often CPU \<open>c\<close> dispatches during the events.\<close>

fun rounds :: "nat \<Rightarrow> Sched \<Rightarrow> sched_event list \<Rightarrow> nat" where
  "rounds c s [] = 0"
| "rounds c s (e # es) = (if dispatcher s e = Some c then 1 else 0) + rounds c (sched_exec e s) es"

lemma event_ok_slots: "active_cpu_slots s' = active_cpu_slots s \<Longrightarrow> event_ok s' e = event_ok s e"
  by (cases e) simp_all

lemma waits_runs:
  "sched_ok s \<Longrightarrow> waits s c t i \<Longrightarrow> c < active_cpu_slots s \<Longrightarrow> list_all (event_ok s) es \<Longrightarrow>
   EvRemove (t_pid (s_tasks s t)) \<notin> set es \<Longrightarrow> i < rounds c s es \<Longrightarrow>
   \<exists>m \<le> length es. status (sched_run (take m es) s) t = Running"
proof (induction es arbitrary: s i)
  case (Cons e es)
  let ?s = "sched_exec e s"
  have ev: "event_ok s e" "e \<noteq> EvRemove (t_pid (s_tasks s t))" using Cons.prems(4,5) by auto
  note st = sched_exec_stable [OF Cons.prems(1) ev(1)]
  consider (run) "status ?s t = Running" | (wait) j where "waits ?s c t j" "j < rounds c ?s es"
    using sched_exec_waits [OF Cons.prems(1) ev(1) Cons.prems(2,3) ev(2) refl] Cons.prems(6)
    by (cases "dispatcher s e = Some c") (simp_all, force+)
  then show ?case
  proof cases
    case run
    then show ?thesis by (intro exI [of _ 1]) simp
  next
    case wait
    have "event_ok ?s = event_ok s" using event_ok_slots [of ?s s] st by (simp add: fun_eq_iff)
    then have "\<exists>m \<le> length es. status (sched_run (take m es) ?s) t = Running"
      using Cons.prems(3-5) st wait by (intro Cons.IH [of ?s j]) simp_all
    then obtain m where "m \<le> length es" "status (sched_run (take m es) ?s) t = Running" by blast
    then show ?thesis by (intro exI [of _ "Suc m"]) simp
  qed
qed simp


definition demo_events :: "sched_event list" where
  "demo_events = [EvSchedule 0 1 1 4096, EvWake 9 1, EvSchedule 0 2 2 4096]"


section \<open>A stop signal for a running task\<close>

text \<open>
  A CPU that stops a task of another CPU (\<^verbatim>\<open>SIGSTOP\<close> in \<^verbatim>\<open>task/proc/signal.rs\<close>) marks it blocked while it is still
  the current task there. A \<^verbatim>\<open>SIGCONT\<close> before that CPU schedules makes it ready and queues it, since
  \<open>enqueue_on_cpu\<close> refuses running tasks only, and the next call of \<open>schedule\<close> runs it a second time.
\<close>

lemma schedule_head:
  assumes "s_deferred s = []" "c < active_cpu_slots s" "s_runqueues s c = t # q" "status s t = Ready" "s_current s c = None"
    and s': "s' = snd (schedule c now now' sp s)"
  shows "s_current s' = (s_current s)(c := Some t)" "s_runqueues s' = (s_runqueues s)(c := q)" "s_deferred s' = []"
    "active_cpu_slots s' = active_cpu_slots s"
  using assms(1,3-5) unfolding s'
  by (simp_all add: schedule_def flush_deferred_requeue_def pick_next_def pick_next_from_slot_def slot_index [OF assms(2)]
      replace_current_task_def Let_def active_cpu_slots_def)

lemma stopped_task_on_two_cpus:
  "let s1 = snd (schedule 0 1 1 4096 demo_start);
       s2 = add_task 7 1 (set_status 7 Ready (set_status 7 Blocked s1));
       s3 = snd (schedule 1 2 2 4096 s2)
   in s_current s3 0 = Some 7 \<and> s_current s3 1 = Some 7"
proof -
  define s1 where "s1 = snd (schedule 0 1 1 4096 demo_start)"
  define s2 where "s2 = add_task 7 1 (set_status 7 Ready (set_status 7 Blocked s1))"
  have start: "s_deferred demo_start = []" "0 < active_cpu_slots demo_start" "s_runqueues demo_start 0 = 7 # [8]"
    "status demo_start 7 = Ready" "s_current demo_start 0 = None" "s_runqueues demo_start 1 = []" "s_current demo_start 1 = None"
    using demo_slots by (simp_all add: demo_start_eq sched_statics_def demo_ready)
  note start = start start(6,7) [unfolded One_nat_def]
  note h = schedule_head [OF start(1-5) s1_def] demo_slots(1) start(6-)
  have s2: "s2 = enqueued 7 1 (set_status 7 Ready s1)"
    unfolding s2_def add_task_def set_status_twice by (rule enqueue_eq) (simp add: h)
  have "\<not> contains_task_anywhere (set_status 7 Ready s1) 7"
    using start(3,6) by (auto simp: contains_iff h less_Suc_eq numeral_2_eq_2)
  then have "s_deferred s2 = []" "1 < active_cpu_slots s2" "s_runqueues s2 1 = 7 # []" "status s2 7 = Ready" "s_current s2 1 = None"
    "s_current s2 0 = Some 7"
    by (simp_all add: s2 enqueued_frame h) (simp_all add: enqueued_def h)
  then show ?thesis
    using schedule_head(1) [of s2 1 7 "[]" _ 2 2 4096] by (simp add: Let_def s1_def s2_def)
qed

end
