(* ===== verification/Radix_Tree.thy ===== *)
theory Radix_Tree
  imports Prelude
begin

text \<open>
  The radix tree of \<^verbatim>\<open>libs/rdtree/tree.rs\<close>: a map from machine words to values in levels of 64 slots,
  6 bits of the key per level. The slot array of a node is a list of length 64; every index into it is
  masked with 63 or runs over \<open>0..64\<close>. The level of a node is the number of levels below it. An operation
  that can reach \<^verbatim>\<open>unreachable!\<close> or \<^verbatim>\<open>unwrap\<close> of \<^verbatim>\<open>None\<close> returns \<open>None\<close> for the panic. A mutable reference
  into the tree is a function that is applied to the value.
\<close>

unbundle bit_operations_syntax

section \<open>Keys\<close>

definition RADIX :: nat where
  "RADIX = 64"

definition SHIFT :: nat where
  "SHIFT = 6"

definition MASK :: usize where
  "MASK = 63"

text \<open>\<^verbatim>\<open>usize::leading_zeros\<close>.\<close>

definition leading_zeros :: "usize \<Rightarrow> nat" where
  "leading_zeros w = length (takeWhile (\<lambda>i. \<not> bit w i) (rev [0..<64]))"

definition height_for_key :: "usize \<Rightarrow> nat" where
  "height_for_key key = (if key = 0 then 1 else let bits = 64 - leading_zeros key in (bits + SHIFT - 1) div SHIFT)"

definition key_index :: "usize \<Rightarrow> nat \<Rightarrow> nat" where
  "key_index key level = unat (drop_bit (level * SHIFT) key AND MASK)"

section \<open>Nodes\<close>

datatype 'v RNode = RNode (slots: "'v RSlot option list") (rcount: nat)
  and 'v RSlot = NodeSlot "'v RNode" | ValueSlot 'v

definition node_new :: "'v RNode" where
  "node_new = RNode (replicate RADIX None) 0"

definition get_slot :: "'v RNode \<Rightarrow> nat \<Rightarrow> 'v RSlot option" where
  "get_slot node index = slots node ! index"

definition set_slot :: "'v RNode \<Rightarrow> nat \<Rightarrow> 'v RSlot \<Rightarrow> 'v RNode" where
  "set_slot node index slot = RNode ((slots node)[index := Some slot]) (rcount node)"

definition remove_slot :: "'v RNode \<Rightarrow> nat \<Rightarrow> 'v RSlot option \<times> 'v RNode" where
  "remove_slot node index = (slots node ! index, RNode ((slots node)[index := None]) (rcount node))"

definition node_is_empty :: "'v RNode \<Rightarrow> bool" where
  "node_is_empty node \<longleftrightarrow> rcount node = 0"

text \<open>Assignment to \<^verbatim>\<open>count\<close>; it is incremented for a new key and decremented for a removed one.\<close>

definition count_up :: "'v RNode \<Rightarrow> 'v RNode" where
  "count_up node = RNode (slots node) (rcount node + 1)"

definition count_down :: "'v RNode \<Rightarrow> 'v RNode" where
  "count_down node = RNode (slots node) (rcount node - 1)"

section \<open>The tree\<close>

record 'v RadixTree =
  rt_root :: "'v RNode option"
  rt_len :: nat
  rt_height :: nat

definition rt_new :: "'v RadixTree" where
  "rt_new = \<lparr>rt_root = None, rt_len = 0, rt_height = 0\<rparr>"

definition rt_is_empty :: "'v RadixTree \<Rightarrow> bool" where
  "rt_is_empty t \<longleftrightarrow> rt_len t = 0"

definition rt_grow :: "'v RadixTree \<Rightarrow> 'v RadixTree" where
  "rt_grow t =
     (let new_root = (case rt_root t of
                        Some old_root \<Rightarrow> RNode ((slots node_new)[0 := Some (NodeSlot old_root)]) (rt_len t)
                      | None \<Rightarrow> node_new)
      in t\<lparr>rt_root := Some new_root, rt_height := rt_height t + 1\<rparr>)"

function ensure_height :: "nat \<Rightarrow> 'v RadixTree \<Rightarrow> 'v RadixTree" where
  "ensure_height required t = (if rt_height t < required then ensure_height required (rt_grow t) else t)"
  by auto
termination
  by (relation "measure (\<lambda>(required, t). required - rt_height t)") (auto simp: rt_grow_def Let_def)

declare ensure_height.simps [simp del]

fun insert_at :: "nat \<Rightarrow> usize \<Rightarrow> 'v \<Rightarrow> 'v RNode \<Rightarrow> ('v option \<times> 'v RNode) option" where
  "insert_at 0 key value node =
     (let idx = key_index key 0;
          (old, node) = remove_slot node idx;
          node = set_slot node idx (ValueSlot value);
          node = (if old = None then count_up node else node)
      in case old of
           Some (ValueSlot v) \<Rightarrow> Some (Some v, node)
         | Some (NodeSlot c) \<Rightarrow> None
         | None \<Rightarrow> Some (None, node))"
| "insert_at (Suc level) key value node =
     (let idx = key_index key (Suc level);
          child = (case get_slot node idx of Some (NodeSlot child) \<Rightarrow> child | _ \<Rightarrow> node_new)
      in do {
        (old, child) \<leftarrow> insert_at level key value child;
        let node = set_slot node idx (NodeSlot child);
        Some (old, if old = None then count_up node else node)
      })"

definition rt_insert :: "usize \<Rightarrow> 'v \<Rightarrow> 'v RadixTree \<Rightarrow> ('v option \<times> 'v RadixTree) option" where
  "rt_insert index value t =
     (let t = ensure_height (height_for_key index) t
      in do {
        r \<leftarrow> rt_root t;
        (old, r) \<leftarrow> insert_at (rt_height t - 1) index value r;
        let t = t\<lparr>rt_root := Some r\<rparr>;
        Some (old, if old = None then t\<lparr>rt_len := rt_len t + 1\<rparr> else t)
      })"

fun get_at :: "nat \<Rightarrow> usize \<Rightarrow> 'v RNode \<Rightarrow> 'v option" where
  "get_at 0 key node = (case get_slot node (key_index key 0) of Some (ValueSlot v) \<Rightarrow> Some v | _ \<Rightarrow> None)"
| "get_at (Suc level) key node =
     (case get_slot node (key_index key (Suc level)) of Some (NodeSlot child) \<Rightarrow> get_at level key child | _ \<Rightarrow> None)"

definition rt_get :: "'v RadixTree \<Rightarrow> usize \<Rightarrow> 'v option" where
  "rt_get t index =
     (if rt_height t < height_for_key index then None
      else do { r \<leftarrow> rt_root t; get_at (rt_height t - 1) index r })"

definition rt_contains :: "'v RadixTree \<Rightarrow> usize \<Rightarrow> bool" where
  "rt_contains t index \<longleftrightarrow> rt_get t index \<noteq> None"

definition rt_get_key_value :: "'v RadixTree \<Rightarrow> usize \<Rightarrow> (usize \<times> 'v) option" where
  "rt_get_key_value t index = map_option (\<lambda>v. (index, v)) (rt_get t index)"

text \<open>Writing through the reference that \<^verbatim>\<open>get_mut\<close> returns; \<open>None\<close> when there is none.\<close>

fun get_mut_at :: "nat \<Rightarrow> usize \<Rightarrow> ('v \<Rightarrow> 'v) \<Rightarrow> 'v RNode \<Rightarrow> 'v RNode option" where
  "get_mut_at 0 key f node =
     (let idx = key_index key 0
      in case get_slot node idx of Some (ValueSlot v) \<Rightarrow> Some (set_slot node idx (ValueSlot (f v))) | _ \<Rightarrow> None)"
| "get_mut_at (Suc level) key f node =
     (let idx = key_index key (Suc level)
      in case get_slot node idx of
           Some (NodeSlot child) \<Rightarrow> map_option (\<lambda>child. set_slot node idx (NodeSlot child)) (get_mut_at level key f child)
         | _ \<Rightarrow> None)"

definition rt_get_mut :: "usize \<Rightarrow> ('v \<Rightarrow> 'v) \<Rightarrow> 'v RadixTree \<Rightarrow> 'v RadixTree option" where
  "rt_get_mut index f t =
     (if rt_height t < height_for_key index then None
      else do {
        r \<leftarrow> rt_root t;
        r \<leftarrow> get_mut_at (rt_height t - 1) index f r;
        Some (t\<lparr>rt_root := Some r\<rparr>)
      })"

text \<open>Removal below a node: the outer option is the panic, the inner one the missing key.\<close>

fun remove_at :: "nat \<Rightarrow> usize \<Rightarrow> 'v RNode \<Rightarrow> ('v \<times> 'v RNode) option option" where
  "remove_at 0 key node =
     (case remove_slot node (key_index key 0) of
        (None, node) \<Rightarrow> Some None
      | (Some (ValueSlot v), node) \<Rightarrow> Some (Some (v, count_down node))
      | (Some (NodeSlot c), node) \<Rightarrow> None)"
| "remove_at (Suc level) key node =
     (let idx = key_index key (Suc level)
      in case get_slot node idx of
           Some (NodeSlot child) \<Rightarrow>
             do {
               r \<leftarrow> remove_at level key child;
               Some (case r of
                       None \<Rightarrow> None
                     | Some (value, child) \<Rightarrow>
                         let node = count_down (set_slot node idx (NodeSlot child))
                         in Some (value, if node_is_empty child then snd (remove_slot node idx) else node))
             }
         | _ \<Rightarrow> Some None)"

text \<open>
  The loop after a removal ends in one round: it clears the tree when the root is empty.
\<close>

definition rt_remove :: "usize \<Rightarrow> 'v RadixTree \<Rightarrow> ('v option \<times> 'v RadixTree) option" where
  "rt_remove index t =
     (if rt_height t < height_for_key index then Some (None, t)
      else case rt_root t of
        None \<Rightarrow> Some (None, t)
      | Some r \<Rightarrow>
          do {
            res \<leftarrow> remove_at (rt_height t - 1) index r;
            Some (case res of
                    None \<Rightarrow> (None, t)
                  | Some (value, r) \<Rightarrow>
                      let t = t\<lparr>rt_root := Some r, rt_len := rt_len t - 1\<rparr>
                      in (Some value,
                          if 0 < rt_height t \<and> node_is_empty r then t\<lparr>rt_root := None, rt_height := 0\<rparr> else t))
          })"

definition rt_remove_entry :: "usize \<Rightarrow> 'v RadixTree \<Rightarrow> ((usize \<times> 'v) option \<times> 'v RadixTree) option" where
  "rt_remove_entry index t =
     do { (v, t) \<leftarrow> rt_remove index t; Some (map_option (\<lambda>v. (index, v)) v, t) }"

definition rt_clear :: "'v RadixTree \<Rightarrow> 'v RadixTree" where
  "rt_clear t = t\<lparr>rt_root := None, rt_len := 0, rt_height := 0\<rparr>"

section \<open>Ordered queries\<close>

text \<open>The first result that a loop over slot indices returns.\<close>

fun first_some :: "('a \<Rightarrow> 'b option) \<Rightarrow> 'a list \<Rightarrow> 'b option" where
  "first_some f [] = None"
| "first_some f (x # xs) = (case f x of Some y \<Rightarrow> Some y | None \<Rightarrow> first_some f xs)"

definition child_key :: "usize \<Rightarrow> nat \<Rightarrow> nat \<Rightarrow> usize" where
  "child_key prefix i level = prefix OR push_bit (level * SHIFT) (of_nat i)"

fun find_first :: "nat \<Rightarrow> usize \<Rightarrow> 'v RNode \<Rightarrow> (usize \<times> 'v) option" where
  "find_first 0 prefix node =
     first_some (\<lambda>i. case get_slot node i of
         Some (ValueSlot v) \<Rightarrow> Some (child_key prefix i 0, v) | _ \<Rightarrow> None) [0..<RADIX]"
| "find_first (Suc level) prefix node =
     first_some (\<lambda>i. case get_slot node i of
         Some (NodeSlot child) \<Rightarrow> find_first level (child_key prefix i (Suc level)) child | _ \<Rightarrow> None) [0..<RADIX]"

fun find_last :: "nat \<Rightarrow> usize \<Rightarrow> 'v RNode \<Rightarrow> (usize \<times> 'v) option" where
  "find_last 0 prefix node =
     first_some (\<lambda>i. case get_slot node i of
         Some (ValueSlot v) \<Rightarrow> Some (child_key prefix i 0, v) | _ \<Rightarrow> None) (rev [0..<RADIX])"
| "find_last (Suc level) prefix node =
     first_some (\<lambda>i. case get_slot node i of
         Some (NodeSlot child) \<Rightarrow> find_last level (child_key prefix i (Suc level)) child | _ \<Rightarrow> None) (rev [0..<RADIX])"

definition rt_first :: "'v RadixTree \<Rightarrow> (usize \<times> 'v) option" where
  "rt_first t = do { r \<leftarrow> rt_root t; find_first (rt_height t - 1) 0 r }"

definition rt_last :: "'v RadixTree \<Rightarrow> (usize \<times> 'v) option" where
  "rt_last t = do { r \<leftarrow> rt_root t; find_last (rt_height t - 1) 0 r }"

text \<open>Removing the entry that a query found.\<close>

definition rt_pop :: "(usize \<times> 'v) option \<Rightarrow> 'v RadixTree \<Rightarrow> ((usize \<times> 'v) option \<times> 'v RadixTree) option" where
  "rt_pop found t =
     (case found of
        None \<Rightarrow> Some (None, t)
      | Some (key, _) \<Rightarrow> rt_remove_entry key t)"

definition rt_pop_first :: "'v RadixTree \<Rightarrow> ((usize \<times> 'v) option \<times> 'v RadixTree) option" where
  "rt_pop_first t = rt_pop (rt_first t) t"

definition rt_pop_last :: "'v RadixTree \<Rightarrow> ((usize \<times> 'v) option \<times> 'v RadixTree) option" where
  "rt_pop_last t = rt_pop (rt_last t) t"

fun find_lower_bound :: "nat \<Rightarrow> usize \<Rightarrow> usize \<Rightarrow> 'v RNode \<Rightarrow> (usize \<times> 'v) option" where
  "find_lower_bound 0 prefix target node =
     first_some (\<lambda>i. case get_slot node i of
         Some (ValueSlot v) \<Rightarrow> let key = child_key prefix i 0 in if target \<le> key then Some (key, v) else None
       | _ \<Rightarrow> None) [key_index target 0..<RADIX]"
| "find_lower_bound (Suc level) prefix target node =
     first_some (\<lambda>i. case get_slot node i of
         Some (NodeSlot child) \<Rightarrow>
           let key = child_key prefix i (Suc level)
           in if i = key_index target (Suc level) then find_lower_bound level key target child
              else find_first level key child
       | _ \<Rightarrow> None) [key_index target (Suc level)..<RADIX]"

definition rt_lower_bound :: "'v RadixTree \<Rightarrow> usize \<Rightarrow> (usize \<times> 'v) option" where
  "rt_lower_bound t index = do { r \<leftarrow> rt_root t; find_lower_bound (rt_height t - 1) 0 index r }"

definition rt_upper_bound :: "'v RadixTree \<Rightarrow> usize \<Rightarrow> (usize \<times> 'v) option" where
  "rt_upper_bound t index = do { n \<leftarrow> u64_checked_add index 1; rt_lower_bound t n }"

fun find_floor :: "nat \<Rightarrow> usize \<Rightarrow> usize \<Rightarrow> 'v RNode \<Rightarrow> (usize \<times> 'v) option" where
  "find_floor 0 prefix target node =
     first_some (\<lambda>i. case get_slot node i of
         Some (ValueSlot v) \<Rightarrow> let key = child_key prefix i 0 in if key \<le> target then Some (key, v) else None
       | _ \<Rightarrow> None) (rev [0..<Suc (key_index target 0)])"
| "find_floor (Suc level) prefix target node =
     first_some (\<lambda>i. case get_slot node i of
         Some (NodeSlot child) \<Rightarrow>
           let key = child_key prefix i (Suc level)
           in if i = key_index target (Suc level) then find_floor level key target child
              else find_last level key child
       | _ \<Rightarrow> None) (rev [0..<Suc (key_index target (Suc level))])"

definition rt_floor :: "'v RadixTree \<Rightarrow> usize \<Rightarrow> (usize \<times> 'v) option" where
  "rt_floor t index = do { r \<leftarrow> rt_root t; find_floor (rt_height t - 1) 0 index r }"

definition rt_lower_than :: "'v RadixTree \<Rightarrow> usize \<Rightarrow> (usize \<times> 'v) option" where
  "rt_lower_than t index = (if index = 0 then None else rt_floor t (index - 1))"

definition rt_first_in_range :: "'v RadixTree \<Rightarrow> usize \<Rightarrow> usize \<Rightarrow> (usize \<times> 'v) option" where
  "rt_first_in_range t start stop =
     (if stop < start then None
      else do { (key, v) \<leftarrow> rt_lower_bound t start; if key \<le> stop then Some (key, v) else None })"

definition rt_last_in_range :: "'v RadixTree \<Rightarrow> usize \<Rightarrow> usize \<Rightarrow> (usize \<times> 'v) option" where
  "rt_last_in_range t start stop =
     (if stop < start then None
      else do { (key, v) \<leftarrow> rt_floor t stop; if start \<le> key then Some (key, v) else None })"

section \<open>Iteration\<close>

record 'v IterState =
  it_node :: "'v RNode"
  it_prefix :: usize
  it_level :: nat
  it_index :: nat

text \<open>
  The inner loop over the slots of one node: the first slot from \<open>index\<close> on whose kind fits the level,
  and the index after it.
\<close>

definition slot_fits :: "nat \<Rightarrow> 'v RSlot \<Rightarrow> bool" where
  "slot_fits level slot = (case slot of ValueSlot v \<Rightarrow> level = 0 | NodeSlot c \<Rightarrow> 0 < level)"

function scan_slots :: "'v RNode \<Rightarrow> nat \<Rightarrow> nat \<Rightarrow> (nat \<times> 'v RSlot) option \<times> nat" where
  "scan_slots node level index =
     (if index < RADIX then
        case get_slot node index of
          Some slot \<Rightarrow> if slot_fits level slot then (Some (index, slot), index + 1) else scan_slots node level (index + 1)
        | None \<Rightarrow> scan_slots node level (index + 1)
      else (None, index))"
  by auto
termination
  by (relation "measure (\<lambda>(node, level, index). RADIX - index)") auto

declare scan_slots.simps [simp del]

definition fits_at :: "nat \<Rightarrow> 'v RNode \<Rightarrow> nat \<Rightarrow> bool" where
  "fits_at level node j = (case get_slot node j of Some slot \<Rightarrow> slot_fits level slot | None \<Rightarrow> False)"

lemma scan_slots_spec:
  "index \<le> RADIX \<Longrightarrow>
   (\<forall>j \<in> {index..<RADIX}. \<not> fits_at level node j) \<and> scan_slots node level index = (None, RADIX) \<or>
   (\<exists>i slot. index \<le> i \<and> i < RADIX \<and> (\<forall>j \<in> {index..<i}. \<not> fits_at level node j) \<and> get_slot node i = Some slot \<and>
      slot_fits level slot \<and> scan_slots node level index = (Some (i, slot), Suc i))"
proof (induction "RADIX - index" arbitrary: index)
  case 0
  then have "index = RADIX" by simp
  then show ?case by (simp add: scan_slots.simps [of node level RADIX])
next
  case (Suc n)
  then have idx: "index < RADIX" by simp
  show ?case
  proof (cases "fits_at level node index")
    case True
    then show ?thesis
      using idx by (auto simp: fits_at_def scan_slots.simps [of node level index] split: option.splits)
  next
    case False
    then have eq: "scan_slots node level index = scan_slots node level (Suc index)"
      using idx by (auto simp: fits_at_def scan_slots.simps [of node level index] split: option.splits)
    have skip: "\<forall>j \<in> {index..<m}. \<not> fits_at level node j" if "\<forall>j \<in> {Suc index..<m}. \<not> fits_at level node j" for m
      using that False by (metis Suc_leI atLeastLessThan_iff nat_less_le)
    have "n = RADIX - Suc index" "Suc index \<le> RADIX" using Suc.hyps(2) idx by simp_all
    from Suc.hyps(1) [OF this] show ?thesis
    proof
      assume "(\<forall>j \<in> {Suc index..<RADIX}. \<not> fits_at level node j) \<and> scan_slots node level (Suc index) = (None, RADIX)"
      then show ?thesis using skip [of RADIX] eq by simp
    next
      assume "\<exists>i slot. Suc index \<le> i \<and> i < RADIX \<and> (\<forall>j \<in> {Suc index..<i}. \<not> fits_at level node j) \<and> get_slot node i = Some slot \<and>
        slot_fits level slot \<and> scan_slots node level (Suc index) = (Some (i, slot), Suc i)"
      then obtain i slot where "Suc index \<le> i" "i < RADIX" "\<forall>j \<in> {Suc index..<i}. \<not> fits_at level node j"
        "get_slot node i = Some slot" "slot_fits level slot" "scan_slots node level (Suc index) = (Some (i, slot), Suc i)" by blast
      then show ?thesis using skip [of i] eq by (intro disjI2 exI [of _ i] exI [of _ slot]) simp
    qed
  qed
qed

text \<open>
  The loop of \<^verbatim>\<open>Iter::next\<close>; the top of the stack is the head of the list. After the inner loop the index of
  the top state is updated, also when that state has just been pushed for a child.
\<close>

definition iter_settle :: "nat \<Rightarrow> 'v IterState list \<Rightarrow> 'v IterState list" where
  "iter_settle index stack =
     (case stack of
        [] \<Rightarrow> []
      | st # rest \<Rightarrow> if RADIX \<le> index then rest else st\<lparr>it_index := index\<rparr> # rest)"

definition iter_push :: "'v IterState \<Rightarrow> nat \<Rightarrow> 'v RNode \<Rightarrow> nat \<Rightarrow> 'v IterState list \<Rightarrow> 'v IterState list" where
  "iter_push st i child index rest =
     \<lparr>it_node = child, it_prefix = child_key (it_prefix st) i (it_level st), it_level = it_level st - 1, it_index = 0\<rparr>
     # st\<lparr>it_index := index\<rparr> # rest"

definition iter_weight :: "'v IterState list \<Rightarrow> nat" where
  "iter_weight stack = (\<Sum>st \<leftarrow> stack. (RADIX - it_index st) * 66 ^ it_level st + 1)"

lemma scan_slots_result:
  assumes "scan_slots node level index = (r, index')"
  shows "case r of None \<Rightarrow> RADIX \<le> index'
    | Some (i, slot) \<Rightarrow> index \<le> i \<and> i < RADIX \<and> index' = Suc i \<and> slot_fits level slot \<and> get_slot node i = Some slot"
proof (cases "index \<le> RADIX")
  case True
  then show ?thesis using scan_slots_spec [OF True, of level node] assms by auto
next
  case False
  then show ?thesis using assms by (auto simp: scan_slots.simps [of node level index])
qed

definition iter_advance :: "nat \<Rightarrow> 'v IterState list \<Rightarrow> 'v IterState list" where
  "iter_advance index stack = (case stack of [] \<Rightarrow> [] | st # rest \<Rightarrow> st\<lparr>it_index := index\<rparr> # rest)"

lemma iter_weight_advance:
  assumes "it_index st \<le> i" "i < RADIX" "0 < it_level st"
  shows "iter_weight (iter_advance (Suc i) (iter_push st i child (Suc i) rest)) < iter_weight (st # rest)"
proof -
  obtain l where l: "it_level st = Suc l" using assms(3) by (cases "it_level st") auto
  let ?a = "(RADIX - it_index st) * 66 ^ Suc l" and ?b = "(RADIX - Suc i) * 66 ^ Suc l" and ?c = "(RADIX - Suc i) * 66 ^ l"
  have "?b + 66 ^ Suc l = (RADIX - i) * 66 ^ Suc l"
    using assms(2) by (metis Suc_diff_Suc add.commute mult_Suc)
  moreover have "(RADIX - i) * 66 ^ Suc l \<le> ?a"
    using assms(1) by (intro mult_le_mono1) simp
  moreover have "?c + 1 < (66 :: nat) ^ Suc l"
  proof -
    have "?c \<le> 64 * 66 ^ l" by (simp add: RADIX_def)
    moreover have "(1 :: nat) \<le> 66 ^ l" by simp
    ultimately show ?thesis unfolding power_Suc by linarith
  qed
  ultimately have "?c + 1 + ?b < ?a" by linarith
  then show ?thesis
    using l by (simp add: iter_advance_def iter_push_def iter_weight_def del: power_Suc)
qed

lemma iter_weight_push:
  assumes "it_index st \<le> i" "i < RADIX" "0 < it_level st"
  shows "iter_weight (iter_settle (Suc i) (iter_push st i child (Suc i) rest)) < iter_weight (st # rest)"
proof -
  have "iter_weight (iter_settle index stack) \<le> iter_weight (iter_advance index stack)" for index and stack :: "'a IterState list"
    by (cases stack) (simp_all add: iter_settle_def iter_advance_def iter_weight_def)
  then show ?thesis using iter_weight_advance [OF assms] by (rule le_less_trans)
qed

lemma iter_weight_pop: "iter_weight rest < iter_weight (st # rest)"
  by (simp add: iter_weight_def)

lemma iter_weight_settle: "RADIX \<le> index \<Longrightarrow> iter_weight (iter_settle index (st # rest)) < iter_weight (st' # rest)"
  by (simp add: iter_weight_def iter_settle_def)

function (sequential) iter_loop :: "'v IterState list \<Rightarrow> (usize \<times> 'v) option \<times> 'v IterState list" where
  "iter_loop [] = (None, [])"
| "iter_loop (st # rest) =
     (case scan_slots (it_node st) (it_level st) (it_index st) of
        (Some (i, ValueSlot v), index) \<Rightarrow>
          (Some (child_key (it_prefix st) i (it_level st), v), st\<lparr>it_index := index\<rparr> # rest)
      | (Some (i, NodeSlot child), index) \<Rightarrow> iter_loop (iter_settle index (iter_push st i child index rest))
      | (None, index) \<Rightarrow> iter_loop (iter_settle index (st\<lparr>it_index := index\<rparr> # rest)))"
  by pat_completeness auto
termination
  by (relation "measure iter_weight")
     (auto dest!: scan_slots_result [OF sym] simp: slot_fits_def intro!: iter_weight_push iter_weight_settle)

lemma iter_loop_weight: "iter_loop stack = (Some kv, stack') \<Longrightarrow> iter_weight stack' < iter_weight stack"
proof (induction stack arbitrary: kv stack' rule: iter_loop.induct)
  case (2 st rest)
  obtain r index where sc: "scan_slots (it_node st) (it_level st) (it_index st) = (r, index)" by force
  show ?case
  proof (cases r)
    case None
    then show ?thesis
      using 2(1) [OF sc [symmetric] None] 2(3) sc scan_slots_result [OF sc]
        iter_weight_settle [of index "st\<lparr>it_index := index\<rparr>" rest st] by fastforce
  next
    case (Some a)
    obtain i slot where a: "a = (i, slot)" by force
    note res = scan_slots_result [OF sc, unfolded Some a]
    show ?thesis
    proof (cases slot)
      case (NodeSlot child)
      have "iter_weight stack' < iter_weight (iter_settle index (iter_push st i child index rest))"
        using 2(2) [OF sc [symmetric] Some a [symmetric] NodeSlot] 2(3) sc Some a NodeSlot by simp
      also have "\<dots> < iter_weight (st # rest)"
        using iter_weight_push [of st i child rest] res NodeSlot by (simp add: slot_fits_def)
      finally show ?thesis .
    next
      case (ValueSlot v)
      have "RADIX - index < RADIX - it_index st" using res by simp linarith
      then show ?thesis using 2(3) sc Some a ValueSlot by (auto simp: iter_weight_def)
    qed
  qed
qed simp

text \<open>All results of the iterator from a stack on. While it returns results the stack is not empty.\<close>

function rt_iter_collect :: "'v IterState list \<Rightarrow> (usize \<times> 'v) list" where
  "rt_iter_collect stack = (case iter_loop stack of (None, _) \<Rightarrow> [] | (Some kv, stack) \<Rightarrow> kv # rt_iter_collect stack)"
  by auto
termination
  by (relation "measure iter_weight") (auto dest: iter_loop_weight [OF sym])

declare rt_iter_collect.simps [simp del]

text \<open>The first call of \<^verbatim>\<open>next\<close> pushes the root.\<close>

definition iter_start :: "'v RadixTree \<Rightarrow> 'v IterState list" where
  "iter_start t =
     (case rt_root t of
        Some r \<Rightarrow> [\<lparr>it_node = r, it_prefix = 0, it_level = rt_height t - 1, it_index = 0\<rparr>]
      | None \<Rightarrow> [])"

definition rt_iter_next :: "'v RadixTree \<Rightarrow> 'v IterState list \<Rightarrow> (usize \<times> 'v) option \<times> 'v IterState list" where
  "rt_iter_next t stack = iter_loop (if stack = [] then iter_start t else stack)"

definition rt_iter :: "'v RadixTree \<Rightarrow> (usize \<times> 'v) list" where
  "rt_iter t = rt_iter_collect (iter_start t)"

text \<open>
  The loop of \<^verbatim>\<open>IterMut::next\<close>, which continues without the check for a finished state after a push.
\<close>

function (sequential) iter_mut_loop :: "'v IterState list \<Rightarrow> (usize \<times> 'v) option \<times> 'v IterState list" where
  "iter_mut_loop [] = (None, [])"
| "iter_mut_loop (st # rest) =
     (case scan_slots (it_node st) (it_level st) (it_index st) of
        (Some (i, ValueSlot v), index) \<Rightarrow>
          (Some (child_key (it_prefix st) i (it_level st), v), st\<lparr>it_index := index\<rparr> # rest)
      | (Some (i, NodeSlot child), index) \<Rightarrow>
          iter_mut_loop (iter_advance index (iter_push st i child index rest))
      | (None, index) \<Rightarrow> iter_mut_loop (iter_settle index (st\<lparr>it_index := index\<rparr> # rest)))"
  by pat_completeness auto
termination
  by (relation "measure iter_weight")
     (auto dest!: scan_slots_result [OF sym] simp: slot_fits_def intro!: iter_weight_advance iter_weight_settle)

definition rt_keys :: "'v RadixTree \<Rightarrow> usize list" where
  "rt_keys t = map fst (rt_iter t)"

definition rt_values :: "'v RadixTree \<Rightarrow> 'v list" where
  "rt_values t = map snd (rt_iter t)"

section \<open>Operations over the iterators\<close>

text \<open>The first free index from \<open>start\<close> on; there is none when the search passes the largest index.\<close>

function rt_find_first_gap_from :: "'v RadixTree \<Rightarrow> usize \<Rightarrow> usize option" where
  "rt_find_first_gap_from t current =
     (if \<not> rt_contains t current then Some current
      else case u64_checked_add current 1 of
        None \<Rightarrow> None
      | Some current \<Rightarrow> rt_find_first_gap_from t current)"
  by auto
termination
  by (relation "measure (\<lambda>(t, current). 2 ^ 64 - unat current)")
     (auto simp: u64_checked_add_eq_Some unat_word_ariths)

declare rt_find_first_gap_from.simps [simp del]

definition rt_insert_first_gap_from :: "usize \<Rightarrow> 'v \<Rightarrow> 'v RadixTree \<Rightarrow> (usize option \<times> 'v RadixTree) option" where
  "rt_insert_first_gap_from start value t =
     (case rt_find_first_gap_from t start of
        None \<Rightarrow> Some (None, t)
      | Some index \<Rightarrow> do { (_, t) \<leftarrow> rt_insert index value t; Some (Some index, t) })"

text \<open>Removing a list of keys one by one and collecting what was there.\<close>

fun remove_keys :: "usize list \<Rightarrow> 'v RadixTree \<Rightarrow> ((usize \<times> 'v) list \<times> 'v RadixTree) option" where
  "remove_keys [] t = Some ([], t)"
| "remove_keys (key # keys) t =
     do {
       (v, t) \<leftarrow> rt_remove key t;
       (removed, t) \<leftarrow> remove_keys keys t;
       Some (case v of Some v \<Rightarrow> (key, v) # removed | None \<Rightarrow> removed, t)
     }"

definition rt_remove_range :: "usize \<Rightarrow> usize \<Rightarrow> 'v RadixTree \<Rightarrow> ((usize \<times> 'v) list \<times> 'v RadixTree) option" where
  "rt_remove_range start stop t =
     (if stop < start then Some ([], t)
      else remove_keys (filter (\<lambda>k. start \<le> k \<and> k \<le> stop) (rt_keys t)) t)"

text \<open>Inserting the items of an iterator (\<^verbatim>\<open>FromIterator\<close>, \<^verbatim>\<open>Extend\<close>, \<^verbatim>\<open>clone\<close>).\<close>

fun rt_extend :: "(usize \<times> 'v) list \<Rightarrow> 'v RadixTree \<Rightarrow> 'v RadixTree option" where
  "rt_extend [] t = Some t"
| "rt_extend ((k, v) # items) t = do { (_, t) \<leftarrow> rt_insert k v t; rt_extend items t }"

definition rt_from_iter :: "(usize \<times> 'v) list \<Rightarrow> 'v RadixTree option" where
  "rt_from_iter items = rt_extend items rt_new"

definition rt_clone :: "'v RadixTree \<Rightarrow> 'v RadixTree option" where
  "rt_clone t = rt_extend (rt_iter t) rt_new"

text \<open>The consuming iterator takes the keys first and removes them from the tree; it ends at the first missing one.\<close>

fun into_iter_next :: "usize list \<Rightarrow> 'v RadixTree \<Rightarrow> (usize \<times> 'v) list option" where
  "into_iter_next [] t = Some []"
| "into_iter_next (key # items) t =
     do {
       (v, t) \<leftarrow> rt_remove key t;
       (case v of
          None \<Rightarrow> Some []
        | Some v \<Rightarrow> do { rest \<leftarrow> into_iter_next items t; Some ((key, v) # rest) })
     }"

definition rt_into_iter :: "'v RadixTree \<Rightarrow> (usize \<times> 'v) list option" where
  "rt_into_iter t = into_iter_next (rt_keys t) t"

text \<open>The other tree is left empty.\<close>

definition rt_append :: "'v RadixTree \<Rightarrow> 'v RadixTree \<Rightarrow> ('v RadixTree \<times> 'v RadixTree) option" where
  "rt_append other t = do { items \<leftarrow> rt_into_iter other; t \<leftarrow> rt_extend items t; Some (t, rt_new) }"

text \<open>The predicate gets a mutable reference: it returns its verdict and the value it leaves.\<close>

fun retain_visit :: "(usize \<Rightarrow> 'v \<Rightarrow> bool \<times> 'v) \<Rightarrow> (usize \<times> 'v) list \<Rightarrow> 'v RadixTree \<Rightarrow> usize list \<times> 'v RadixTree" where
  "retain_visit f [] t = ([], t)"
| "retain_visit f ((k, v) # items) t =
     (let t = (case rt_get_mut k (\<lambda>_. snd (f k v)) t of Some t \<Rightarrow> t | None \<Rightarrow> t);
          (keys, t) = retain_visit f items t
      in (if fst (f k v) then keys else k # keys, t))"

lemma iter_loop_advance: "iter_loop (iter_advance index stack) = iter_loop (iter_settle index stack)"
proof (cases "\<exists>st rest. stack = st # rest \<and> RADIX \<le> index")
  case True
  then obtain st rest where "stack = st # rest" "RADIX \<le> index" by blast
  then show ?thesis by (simp add: iter_advance_def iter_settle_def scan_slots.simps [of _ _ index])
next
  case False
  then show ?thesis by (auto simp: iter_advance_def iter_settle_def split: list.split)
qed

text \<open>Both iterators visit the same entries.\<close>

lemma iter_mut_loop_eq: "iter_mut_loop stack = iter_loop stack"
proof (induction stack rule: iter_mut_loop.induct)
  case (2 st rest)
  obtain r index where sc: "scan_slots (it_node st) (it_level st) (it_index st) = (r, index)" by force
  show ?case
  proof (cases r)
    case None
    then show ?thesis using 2(1) [OF sc [symmetric] None] sc by simp
  next
    case (Some a)
    obtain i slot where a: "a = (i, slot)" by force
    show ?thesis
      using 2(2) [OF sc [symmetric] Some a [symmetric]] sc Some a iter_loop_advance by (cases slot) simp_all
  qed
qed simp

function iter_mut_collect :: "'v IterState list \<Rightarrow> (usize \<times> 'v) list" where
  "iter_mut_collect stack =
     (case iter_mut_loop stack of (None, _) \<Rightarrow> [] | (Some kv, stack) \<Rightarrow> kv # iter_mut_collect stack)"
  by auto
termination
  by (relation "measure iter_weight") (auto simp: iter_mut_loop_eq dest: iter_loop_weight [OF sym])

declare iter_mut_collect.simps [simp del]

definition rt_iter_mut :: "'v RadixTree \<Rightarrow> (usize \<times> 'v) list" where
  "rt_iter_mut t = iter_mut_collect (iter_start t)"

definition rt_retain :: "(usize \<Rightarrow> 'v \<Rightarrow> bool \<times> 'v) \<Rightarrow> 'v RadixTree \<Rightarrow> 'v RadixTree option" where
  "rt_retain f t =
     (let (keys_to_remove, t) = retain_visit f (rt_iter_mut t) t
      in do { (_, t) \<leftarrow> remove_keys keys_to_remove t; Some t })"

definition rt_split_off :: "usize \<Rightarrow> 'v RadixTree \<Rightarrow> ('v RadixTree \<times> 'v RadixTree) option" where
  "rt_split_off index t =
     do {
       (removed, t) \<leftarrow> remove_keys (filter (\<lambda>k. index \<le> k) (rt_keys t)) t;
       new_tree \<leftarrow> rt_extend removed rt_new;
       Some (new_tree, t)
     }"

text \<open>The reference is used by \<open>f\<close>; the \<^verbatim>\<open>unwrap\<close> panics when the key is missing.\<close>

definition rt_get_or_insert_with :: "usize \<Rightarrow> 'v \<Rightarrow> ('v \<Rightarrow> 'v) \<Rightarrow> 'v RadixTree \<Rightarrow> 'v RadixTree option" where
  "rt_get_or_insert_with index fresh f t =
     do {
       t \<leftarrow> (if rt_contains t index then Some t else map_option snd (rt_insert index fresh t));
       rt_get_mut index f t
     }"

definition rt_get_or_insert :: "usize \<Rightarrow> 'v \<Rightarrow> ('v \<Rightarrow> 'v) \<Rightarrow> 'v RadixTree \<Rightarrow> 'v RadixTree option" where
  "rt_get_or_insert index fresh f t =
     do {
       t \<leftarrow> (if \<not> rt_contains t index then map_option snd (rt_insert index fresh t) else Some t);
       rt_get_mut index f t
     }"

datatype Bound = Included usize | Excluded usize | Unbounded

definition rt_range :: "Bound \<Rightarrow> Bound \<Rightarrow> 'v RadixTree \<Rightarrow> (usize \<times> 'v) list" where
  "rt_range lo hi t =
     (let start = (case lo of Included s \<Rightarrow> s | Excluded s \<Rightarrow> u64_saturating_add s 1 | Unbounded \<Rightarrow> 0);
          stop = (case hi of Included e \<Rightarrow> e | Excluded e \<Rightarrow> u64_saturating_sub e 1 | Unbounded \<Rightarrow> - 1)
      in takeWhile (\<lambda>(k, _). k \<le> stop) (dropWhile (\<lambda>(k, _). k < start) (rt_iter t)))"

text \<open>A client of a mutable iterator applies \<open>f\<close> to the values it gets.\<close>

fun update_keys :: "('v \<Rightarrow> 'v) \<Rightarrow> usize list \<Rightarrow> 'v RadixTree \<Rightarrow> 'v RadixTree" where
  "update_keys f [] t = t"
| "update_keys f (k # ks) t = update_keys f ks (case rt_get_mut k f t of Some t \<Rightarrow> t | None \<Rightarrow> t)"

definition rt_values_mut :: "('v \<Rightarrow> 'v) \<Rightarrow> 'v RadixTree \<Rightarrow> 'v RadixTree" where
  "rt_values_mut f t = update_keys f (map fst (rt_iter_mut t)) t"

definition rt_range_mut :: "Bound \<Rightarrow> Bound \<Rightarrow> ('v \<Rightarrow> 'v) \<Rightarrow> 'v RadixTree \<Rightarrow> 'v RadixTree" where
  "rt_range_mut lo hi f t =
     (let start = (case lo of Included s \<Rightarrow> s | Excluded s \<Rightarrow> u64_saturating_add s 1 | Unbounded \<Rightarrow> 0);
          stop = (case hi of Included e \<Rightarrow> e | Excluded e \<Rightarrow> u64_saturating_sub e 1 | Unbounded \<Rightarrow> - 1)
      in update_keys f (takeWhile (\<lambda>k. k \<le> stop) (dropWhile (\<lambda>k. k < start) (map fst (rt_iter_mut t)))) t)"

end
