(* ===== verification/Radix_Proofs.thy ===== *)
theory Radix_Proofs
  imports Radix_Tree
begin

text \<open>
  The radix tree as a map: keys read as numbers in base 64, the invariant of nodes and trees, and the effect of
  lookup, insertion and removal.
\<close>

unbundle bit_operations_syntax

section \<open>Digits\<close>

definition digit :: "nat \<Rightarrow> nat \<Rightarrow> nat" where
  "digit k l = (k div 64 ^ l) mod 64"

lemma pow64: "(2 :: nat) ^ (l * SHIFT) = 64 ^ l"
  by (simp add: SHIFT_def mult.commute [of l] power_mult)

lemma digit_less [simp]: "digit k l < 64" "digit k l < RADIX"
  by (simp_all add: digit_def RADIX_def)

lemma key_index_digit: "key_index key l = digit (unat key) l"
proof -
  have "MASK = (mask 6 :: usize)" by (simp add: MASK_def mask_eq_exp_minus_1)
  then have "key_index key l = unat (take_bit 6 (drop_bit (l * SHIFT) key))"
    by (simp add: key_index_def take_bit_eq_mask)
  also have "\<dots> = take_bit 6 (drop_bit (l * SHIFT) (unat key))"
    by (simp only: unsigned_take_bit_eq unsigned_drop_bit_eq) (simp add: take_bit_nat_eq_self)
  also have "\<dots> = digit (unat key) l"
    by (simp add: take_bit_eq_mod drop_bit_eq_div digit_def pow64)
  finally show ?thesis .
qed

lemma mod_digit: "k mod 64 ^ Suc l = digit k l * 64 ^ l + k mod 64 ^ l"
  using mod_mult2_eq [of k "64 ^ l" 64] by (simp add: digit_def mult.commute)

lemma mod_eq_iff: "j mod 64 ^ Suc l = k mod 64 ^ Suc l \<longleftrightarrow> digit j l = digit k l \<and> j mod 64 ^ l = k mod 64 ^ l"
proof
  assume eq: "j mod 64 ^ Suc l = k mod 64 ^ Suc l"
  have "(j mod 64 ^ Suc l) div 64 ^ l = digit j l" "(j mod 64 ^ Suc l) mod 64 ^ l = j mod 64 ^ l" for j
    unfolding mod_digit by simp_all
  then show "digit j l = digit k l \<and> j mod 64 ^ l = k mod 64 ^ l" using eq by metis
qed (simp only: mod_digit)

lemma digit_mod: "m < l \<Longrightarrow> digit (k mod 64 ^ l) m = digit k m"
proof -
  assume "m < l"
  then have "64 ^ Suc m dvd (64 :: nat) ^ l" by (intro le_imp_power_dvd) simp
  then have "(k mod 64 ^ l) mod 64 ^ Suc m = k mod 64 ^ Suc m" by (simp add: mod_mod_cancel)
  then show ?thesis by (simp only: mod_eq_iff)
qed

lemma digit_zero: "k < 64 ^ Suc l \<Longrightarrow> digit k l = 0 \<longleftrightarrow> k < 64 ^ l"
  by (simp add: digit_def less_mult_imp_div_less mult.commute div_eq_0_iff)

lemma leading_zeros_bits:
  assumes "w \<noteq> 0" "b = 64 - leading_zeros w"
  shows "0 < b" "2 ^ (b - 1) \<le> unat w" "unat w < 2 ^ b"
proof -
  let ?P = "\<lambda>i. \<not> bit w i" and ?xs = "rev [0..<64 :: nat]"
  have nth: "?xs ! i = 63 - i" if "i < 64" for i using that by (simp add: rev_nth)
  have z: "leading_zeros w = length (takeWhile ?P ?xs)" by (simp add: leading_zeros_def)
  have "leading_zeros w \<le> 64" unfolding z using length_takeWhile_le [of ?P ?xs] by simp
  have low: "\<not> bit w i" if "b \<le> i" for i
  proof (cases "i < 64")
    case True
    then have "63 - i < leading_zeros w" using that assms(2) by simp
    then have "?xs ! (63 - i) \<in> set (takeWhile ?P ?xs)" unfolding z by (metis nth_mem takeWhile_nth)
    then show ?thesis using True nth [of "63 - i"] by (auto dest: set_takeWhileD)
  next
    case False
    then show ?thesis using bit_imp_le_length [of w i] by auto
  qed
  have b: "0 < b"
  proof (rule ccontr)
    assume "\<not> 0 < b"
    then have "w = 0" using low by (intro bit_eqI) simp
    then show False using assms(1) by simp
  qed
  then show "0 < b" .
  have "w = take_bit b w" using low by (intro bit_eqI) (auto simp: bit_take_bit_iff not_le [symmetric])
  then have "unat w = unat w mod 2 ^ b" by (metis unsigned_take_bit_eq take_bit_eq_mod)
  then show "unat w < 2 ^ b" using mod_less_divisor [of "2 ^ b" "unat w"] by simp
  have "leading_zeros w < 64" using b assms(2) by simp
  then have "bit w (63 - leading_zeros w)"
    using nth_length_takeWhile [of ?P ?xs] nth [of "leading_zeros w"] by (simp add: z)
  moreover have "63 - leading_zeros w = b - 1" using assms(2) by simp
  ultimately have "bit (unat w) (b - 1)" by (simp add: bit_unsigned_iff)
  then have "unat w div 2 ^ (b - 1) \<noteq> 0" by (metis bit_iff_odd even_zero)
  then show "2 ^ (b - 1) \<le> unat w" by (metis div_less not_le)
qed

lemma height_for_key_le: "0 < h \<Longrightarrow> height_for_key k \<le> h \<longleftrightarrow> unat k < 64 ^ h"
proof (cases "k = 0")
  case False
  assume h: "0 < h"
  define b where "b = 64 - leading_zeros k"
  note bits = leading_zeros_bits [OF False b_def]
  have pow: "(64 :: nat) ^ h = 2 ^ (6 * h)" by (simp add: power_mult)
  have "height_for_key k = (b + 5) div 6" using False by (simp add: height_for_key_def b_def SHIFT_def)
  then have "height_for_key k \<le> h \<longleftrightarrow> b \<le> 6 * h" by linarith
  also have "\<dots> \<longleftrightarrow> unat k < 64 ^ h"
  proof
    assume "b \<le> 6 * h"
    then have "(2 :: nat) ^ b \<le> 64 ^ h" unfolding pow by simp
    then show "unat k < 64 ^ h" using bits(3) by linarith
  next
    assume "unat k < 64 ^ h"
    then have "(2 :: nat) ^ (b - 1) < 2 ^ (6 * h)" using bits(2) unfolding pow by linarith
    then have "b - 1 < 6 * h" by simp
    then show "b \<le> 6 * h" using bits(1) by simp
  qed
  finally show ?thesis .
qed (simp add: height_for_key_def)

lemma height_for_key_bounds: "0 < height_for_key k" "height_for_key k \<le> 11"
proof -
  show "height_for_key k \<le> 11"
    by (subst height_for_key_le) (auto intro: less_trans [OF unat_less_2p64])
  show "0 < height_for_key k"
    using leading_zeros_bits(1) [of k "64 - leading_zeros k"] by (auto simp: height_for_key_def SHIFT_def Let_def div_greater_zero_iff)
qed

section \<open>Nodes as maps\<close>

fun nget :: "nat \<Rightarrow> 'v RNode \<Rightarrow> nat \<Rightarrow> 'v option" where
  "nget 0 node k = (case slots node ! digit k 0 of Some (ValueSlot v) \<Rightarrow> Some v | _ \<Rightarrow> None)"
| "nget (Suc l) node k = (case slots node ! digit k (Suc l) of Some (NodeSlot c) \<Rightarrow> nget l c k | _ \<Rightarrow> None)"

definition ndom :: "nat \<Rightarrow> 'v RNode \<Rightarrow> nat set" where
  "ndom l node = {k. k < 64 ^ Suc l \<and> nget l node k \<noteq> None}"

fun rinv :: "nat \<Rightarrow> 'v RNode \<Rightarrow> bool" where
  "rinv 0 node \<longleftrightarrow> length (slots node) = RADIX \<and> rcount node = card (ndom 0 node) \<and>
     (\<forall>s \<in> set (slots node). case s of Some (NodeSlot c) \<Rightarrow> False | _ \<Rightarrow> True)"
| "rinv (Suc l) node \<longleftrightarrow> length (slots node) = RADIX \<and> rcount node = card (ndom (Suc l) node) \<and>
     (\<forall>s \<in> set (slots node). case s of Some (NodeSlot c) \<Rightarrow> rinv l c | Some (ValueSlot v) \<Rightarrow> False | None \<Rightarrow> True)"

lemma finite_ndom [simp]: "finite (ndom l node)"
  by (rule finite_subset [of _ "{..<64 ^ Suc l}"]) (auto simp: ndom_def)

lemma get_at_nget: "get_at l key node = nget l node (unat key)"
  by (induction l arbitrary: node) (auto simp: get_slot_def key_index_digit split: option.split RSlot.split)

lemma nget_mod: "nget l node (k mod 64 ^ Suc l) = nget l node k"
proof (induction l arbitrary: node k)
  case 0
  then show ?case by (simp only: nget.simps digit_mod [OF lessI])
next
  case (Suc l)
  have "nget l c (k mod 64 ^ Suc (Suc l)) = nget l c k" for c :: "'a RNode"
  proof -
    have "(k mod 64 ^ Suc (Suc l)) mod 64 ^ Suc l = k mod 64 ^ Suc l" by (simp add: mod_mod_cancel)
    then show ?thesis using Suc [of c k] Suc [of c "k mod 64 ^ Suc (Suc l)"] by simp
  qed
  then show ?case by (simp only: nget.simps digit_mod [OF lessI])
qed

definition slot_ok :: "nat \<Rightarrow> 'v RSlot option \<Rightarrow> bool" where
  "slot_ok l s = (case s of
     None \<Rightarrow> True
   | Some (ValueSlot v) \<Rightarrow> l = 0
   | Some (NodeSlot c) \<Rightarrow> (case l of 0 \<Rightarrow> False | Suc l' \<Rightarrow> rinv l' c))"

definition slot_get :: "nat \<Rightarrow> 'v RSlot option \<Rightarrow> nat \<Rightarrow> 'v option" where
  "slot_get l s k = (case s of
     None \<Rightarrow> None
   | Some (ValueSlot v) \<Rightarrow> if l = 0 then Some v else None
   | Some (NodeSlot c) \<Rightarrow> (case l of 0 \<Rightarrow> None | Suc l' \<Rightarrow> nget l' c k))"

lemma rinv_iff:
  "rinv l node \<longleftrightarrow> length (slots node) = RADIX \<and> rcount node = card (ndom l node) \<and> (\<forall>s \<in> set (slots node). slot_ok l s)"
  by (cases l) (auto simp: slot_ok_def split: option.splits RSlot.splits)

lemma nget_slot: "nget l node k = slot_get l (slots node ! digit k l) k"
  by (cases l) (auto simp: slot_get_def split: option.splits RSlot.splits)

lemma rinv_slot: "rinv l node \<Longrightarrow> slot_ok l (slots node ! digit k l)"
  by (simp add: rinv_iff)

text \<open>One slot is replaced; the count follows the domain.\<close>

lemma rinv_update:
  assumes "rinv l node" "slot_ok l s" "c = card (ndom l node')"
    and node': "node' = RNode ((slots node)[digit j l := s]) c"
  shows "rinv l node'" "nget l node' k = (if digit k l = digit j l then slot_get l s k else nget l node k)"
proof -
  show "nget l node' k = (if digit k l = digit j l then slot_get l s k else nget l node k)"
    using assms(1) by (simp add: node' nget_slot rinv_iff nth_list_update)
  have "rcount node' = card (ndom l node')" using assms(3) node' by simp
  then show "rinv l node'"
    using assms(1,2) by (auto simp: rinv_iff node' dest!: subsetD [OF set_update_subset_insert])
qed

lemma rinv_length: "rinv l node \<Longrightarrow> length (slots node) = RADIX"
  by (cases l) auto

lemma rinv_count: "rinv l node \<Longrightarrow> rcount node = card (ndom l node)"
  by (cases l) auto

lemma nget_new [simp]: "nget l node_new k = None"
  by (cases l) (simp_all add: node_new_def)

lemma ndom_new [simp]: "ndom l node_new = {}"
  by (simp add: ndom_def)

lemma rinv_new: "rinv l node_new"
  by (cases l) (simp_all add: ndom_def, simp_all add: node_new_def)

text \<open>The domain after one key has changed.\<close>

lemma ndom_upd:
  assumes "\<And>k. nget l node' k = (if k mod 64 ^ Suc l = j mod 64 ^ Suc l then x else nget l node k)"
  shows "ndom l node' = (if x = None then ndom l node - {j mod 64 ^ Suc l} else insert (j mod 64 ^ Suc l) (ndom l node))"
  using assms by (auto simp: ndom_def split: if_splits)

lemma ndom_mem: "j mod 64 ^ Suc l \<in> ndom l node \<longleftrightarrow> nget l node j \<noteq> None"
  by (simp only: ndom_def mem_Collect_eq nget_mod) simp

section \<open>Insertion\<close>

lemma insert_at_spec:
  "rinv l node \<Longrightarrow> \<exists>node'. insert_at l key v node = Some (nget l node (unat key), node') \<and> rinv l node' \<and>
   (\<forall>k. nget l node' k = (if k mod 64 ^ Suc l = unat key mod 64 ^ Suc l then Some v else nget l node k))"
proof (induction l arbitrary: node)
  case 0
  let ?i = "digit (unat key) 0" and ?old = "nget 0 node (unat key)"
  let ?node = "RNode ((slots node)[?i := Some (ValueSlot v)]) (rcount node + (if ?old = None then 1 else 0))"
  note sok = rinv_slot [OF 0, of "unat key"]
  have ins: "insert_at 0 key v node = Some (?old, ?node)"
    using sok by (auto simp: Let_def remove_slot_def set_slot_def count_up_def key_index_digit slot_ok_def split: option.splits RSlot.splits)
  have get: "nget 0 ?node k = (if k mod 64 ^ Suc 0 = unat key mod 64 ^ Suc 0 then Some v else nget 0 node k)" for k
    unfolding mod_eq_iff using 0 by (simp add: rinv_iff nth_list_update)
  have "rcount ?node = card (ndom 0 ?node)"
    using ndom_upd [OF get] ndom_mem [of "unat key" 0 node] rinv_count [OF 0] by (simp add: card_insert_if)
  then have "rinv 0 ?node"
    by (intro rinv_update(1) [OF 0, of "Some (ValueSlot v)"]) (simp_all add: slot_ok_def)
  then show ?case using ins get by blast
next
  case (Suc l)
  let ?i = "digit (unat key) (Suc l)" and ?old = "nget (Suc l) node (unat key)"
  define child where "child = (case slots node ! ?i of Some (NodeSlot child) \<Rightarrow> child | _ \<Rightarrow> node_new)"
  note sok = rinv_slot [OF Suc.prems, of "unat key"]
  have child: "rinv l child" "nget l child (unat key) = ?old" "\<And>k. digit k (Suc l) = ?i \<Longrightarrow> nget l child k = nget (Suc l) node k"
    using sok rinv_new by (auto simp: child_def slot_ok_def split: option.splits RSlot.splits)
  obtain child' where c': "insert_at l key v child = Some (?old, child')" "rinv l child'"
    "\<And>k. nget l child' k = (if k mod 64 ^ Suc l = unat key mod 64 ^ Suc l then Some v else nget l child k)"
    using Suc.IH [OF child(1)] child(2) by auto
  let ?node = "RNode ((slots node)[?i := Some (NodeSlot child')]) (rcount node + (if ?old = None then 1 else 0))"
  have ins: "insert_at (Suc l) key v node = Some (?old, ?node)"
    using c'(1) by (simp add: key_index_digit get_slot_def set_slot_def count_up_def Let_def flip: child_def)
  have get: "nget (Suc l) ?node k = (if k mod 64 ^ Suc (Suc l) = unat key mod 64 ^ Suc (Suc l) then Some v else nget (Suc l) node k)" for k
    using Suc.prems child(3) c'(3) unfolding mod_eq_iff [of _ "Suc l"] by (simp add: rinv_iff nth_list_update)
  have "rcount ?node = card (ndom (Suc l) ?node)"
    using ndom_upd [OF get] ndom_mem [of "unat key" "Suc l" node] rinv_count [OF Suc.prems] by (simp add: card_insert_if)
  then have "rinv (Suc l) ?node"
    using c'(2) by (intro rinv_update(1) [OF Suc.prems, of "Some (NodeSlot child')"]) (simp_all add: slot_ok_def)
  then show ?case using ins get by blast
qed

section \<open>Removal\<close>

lemma ndom_remove_count:
  assumes "rinv l node" "nget l node j \<noteq> None"
    and "\<And>k. nget l node' k = (if k mod 64 ^ Suc l = j mod 64 ^ Suc l then None else nget l node k)"
  shows "rcount node - 1 = card (ndom l node')"
  using ndom_upd [of l node' j None node] ndom_mem [of j l node] rinv_count [OF assms(1)] assms(2,3) by simp

lemma remove_at_spec:
  "rinv l node \<Longrightarrow> (case nget l node (unat key) of
     None \<Rightarrow> remove_at l key node = Some None
   | Some v \<Rightarrow> \<exists>node'. remove_at l key node = Some (Some (v, node')) \<and> rinv l node' \<and>
       (\<forall>k. nget l node' k = (if k mod 64 ^ Suc l = unat key mod 64 ^ Suc l then None else nget l node k)))"
proof (induction l arbitrary: node)
  case 0
  let ?i = "digit (unat key) 0" and ?node = "RNode ((slots node)[digit (unat key) 0 := None]) (rcount node - 1)"
  note sok = rinv_slot [OF 0, of "unat key"]
  show ?case
  proof (cases "nget 0 node (unat key)")
    case None
    then have "slots node ! ?i = None" using sok by (auto simp: slot_ok_def split: option.splits RSlot.splits)
    then show ?thesis using None by (simp add: remove_slot_def key_index_digit)
  next
    case (Some v)
    then have "slots node ! ?i = Some (ValueSlot v)" by (auto split: option.splits RSlot.splits)
    then have rem: "remove_at 0 key node = Some (Some (v, ?node))" by (simp add: remove_slot_def key_index_digit count_down_def)
    have get: "nget 0 ?node k = (if k mod 64 ^ Suc 0 = unat key mod 64 ^ Suc 0 then None else nget 0 node k)" for k
      unfolding mod_eq_iff using 0 by (simp add: rinv_iff nth_list_update)
    have "rinv 0 ?node"
      using ndom_remove_count [OF 0 _ get] Some by (intro rinv_update(1) [OF 0, of None]) (simp_all add: slot_ok_def)
    then show ?thesis using rem get Some by auto
  qed
next
  case (Suc l)
  let ?i = "digit (unat key) (Suc l)"
  note sok = rinv_slot [OF Suc.prems, of "unat key"]
  show ?case
  proof (cases "slots node ! ?i")
    case None
    then show ?thesis by (simp add: get_slot_def key_index_digit)
  next
    case (Some s)
    then obtain child where c: "slots node ! ?i = Some (NodeSlot child)" "rinv l child"
      using sok by (auto simp: slot_ok_def split: RSlot.splits)
    have ch: "nget (Suc l) node k = nget l child k" if "digit k (Suc l) = ?i" for k using c that by simp
    show ?thesis
    proof (cases "nget l child (unat key)")
      case None
      then show ?thesis using Suc.IH [OF c(2)] c(1) ch [of "unat key"] by (simp add: get_slot_def key_index_digit)
    next
      case (Some v)
      obtain child' where c': "remove_at l key child = Some (Some (v, child'))" "rinv l child'"
        "\<And>k. nget l child' k = (if k mod 64 ^ Suc l = unat key mod 64 ^ Suc l then None else nget l child k)"
        using Suc.IH [OF c(2)] Some by auto
      define s where "s = (if node_is_empty child' then None else Some (NodeSlot child'))"
      let ?node = "RNode ((slots node)[?i := s]) (rcount node - 1)"
      have rem: "remove_at (Suc l) key node = Some (Some (v, ?node))"
        using c'(1) c(1) by (simp add: get_slot_def key_index_digit set_slot_def count_down_def remove_slot_def s_def)
      have empty: "nget l child' k = None" if "node_is_empty child'" for k
        using that rinv_count [OF c'(2)] ndom_mem [of k l child'] by (simp add: node_is_empty_def)
      have sg: "slot_get (Suc l) s k = nget l child' k" for k using empty by (simp add: s_def slot_get_def)
      have get: "nget (Suc l) ?node k = (if k mod 64 ^ Suc (Suc l) = unat key mod 64 ^ Suc (Suc l) then None else nget (Suc l) node k)" for k
      proof -
        have "nget (Suc l) ?node k = (if digit k (Suc l) = ?i then nget l child' k else nget (Suc l) node k)"
          unfolding sg [symmetric] nget_slot [of "Suc l"] using Suc.prems by (simp add: rinv_iff nth_list_update)
        then show ?thesis using ch [of k] c'(3) unfolding mod_eq_iff [of k "Suc l"] by simp
      qed
      have "rinv (Suc l) ?node"
        using ndom_remove_count [OF Suc.prems _ get] Some ch [of "unat key"] c'(2)
        by (intro rinv_update(1) [OF Suc.prems, of s]) (simp_all add: slot_ok_def s_def)
      then show ?thesis using rem get Some ch [of "unat key"] by auto
    qed
  qed
qed

lemma get_mut_at_spec:
  "rinv l node \<Longrightarrow> (case nget l node (unat key) of
     None \<Rightarrow> get_mut_at l key f node = None
   | Some v \<Rightarrow> \<exists>node'. get_mut_at l key f node = Some node' \<and> rinv l node' \<and>
       (\<forall>k. nget l node' k = (if k mod 64 ^ Suc l = unat key mod 64 ^ Suc l then Some (f v) else nget l node k)))"
proof (induction l arbitrary: node)
  case 0
  let ?i = "digit (unat key) 0"
  show ?case
  proof (cases "nget 0 node (unat key)")
    case None
    then show ?thesis by (auto simp: get_slot_def key_index_digit split: option.splits RSlot.splits)
  next
    case (Some v)
    let ?node = "RNode ((slots node)[?i := Some (ValueSlot (f v))]) (rcount node)"
    have "slots node ! ?i = Some (ValueSlot v)" using Some by (auto split: option.splits RSlot.splits)
    then have mut: "get_mut_at 0 key f node = Some ?node" by (simp add: get_slot_def set_slot_def key_index_digit)
    have get: "nget 0 ?node k = (if k mod 64 ^ Suc 0 = unat key mod 64 ^ Suc 0 then Some (f v) else nget 0 node k)" for k
      unfolding mod_eq_iff using 0 by (simp add: rinv_iff nth_list_update)
    have "rcount node = card (ndom 0 ?node)"
      using ndom_upd [OF get] ndom_mem [of "unat key" 0 node] rinv_count [OF 0] Some by (simp add: insert_absorb)
    then have "rinv 0 ?node" by (intro rinv_update(1) [OF 0, of "Some (ValueSlot (f v))"]) (simp_all add: slot_ok_def)
    then show ?thesis using mut get Some by auto
  qed
next
  case (Suc l)
  let ?i = "digit (unat key) (Suc l)"
  note sok = rinv_slot [OF Suc.prems, of "unat key"]
  show ?case
  proof (cases "nget (Suc l) node (unat key)")
    case None
    then show ?thesis
      using Suc.IH sok by (fastforce simp: get_slot_def key_index_digit slot_ok_def split: option.splits RSlot.splits)
  next
    case (Some v)
    then obtain child where c: "slots node ! ?i = Some (NodeSlot child)" "nget l child (unat key) = Some v" "rinv l child"
      using sok by (auto simp: slot_ok_def split: option.splits RSlot.splits)
    obtain child' where c': "get_mut_at l key f child = Some child'" "rinv l child'"
      "\<And>k. nget l child' k = (if k mod 64 ^ Suc l = unat key mod 64 ^ Suc l then Some (f v) else nget l child k)"
      using Suc.IH [OF c(3)] c(2) by auto
    let ?node = "RNode ((slots node)[?i := Some (NodeSlot child')]) (rcount node)"
    have mut: "get_mut_at (Suc l) key f node = Some ?node" using c(1) c'(1) by (simp add: get_slot_def set_slot_def key_index_digit)
    have get: "nget (Suc l) ?node k = (if k mod 64 ^ Suc (Suc l) = unat key mod 64 ^ Suc (Suc l) then Some (f v) else nget (Suc l) node k)" for k
      using Suc.prems c(1) c'(3) unfolding mod_eq_iff [of _ "Suc l"] by (auto simp: rinv_iff nth_list_update)
    have "rcount node = card (ndom (Suc l) ?node)"
      using ndom_upd [OF get] ndom_mem [of "unat key" "Suc l" node] rinv_count [OF Suc.prems] Some by (simp add: insert_absorb)
    then have "rinv (Suc l) ?node"
      using c'(2) by (intro rinv_update(1) [OF Suc.prems, of "Some (NodeSlot child')"]) (simp_all add: slot_ok_def)
    then show ?thesis using mut get Some by auto
  qed
qed

section \<open>Trees as maps\<close>

definition rt_ok :: "'v RadixTree \<Rightarrow> bool" where
  "rt_ok t \<longleftrightarrow> (case rt_root t of
     None \<Rightarrow> rt_height t = 0 \<and> rt_len t = 0
   | Some r \<Rightarrow> 0 < rt_height t \<and> rt_height t \<le> 11 \<and> rinv (rt_height t - 1) r \<and> rt_len t = rcount r \<and>
       (\<forall>k \<in> ndom (rt_height t - 1) r. k < 2 ^ 64))"

lemma rt_okE:
  assumes "rt_ok t"
  obtains (empty) "rt_root t = None" "rt_height t = 0" "rt_len t = 0"
    | (node) r l where "rt_root t = Some r" "rt_height t = Suc l" "l \<le> 10" "rinv l r" "rt_len t = rcount r" "\<forall>k \<in> ndom l r. k < 2 ^ 64"
  using assms by (cases "rt_root t"; cases "rt_height t") (auto simp: rt_ok_def)

lemma rt_okI:
  "rt_root t = Some r \<Longrightarrow> rt_height t = Suc l \<Longrightarrow> l \<le> 10 \<Longrightarrow> rinv l r \<Longrightarrow> rt_len t = rcount r \<Longrightarrow>
   (\<And>k. k \<in> ndom l r \<Longrightarrow> k < 2 ^ 64) \<Longrightarrow> rt_ok t"
  by (simp add: rt_ok_def)

lemma rt_get_empty: "rt_root t = None \<Longrightarrow> rt_get t = (\<lambda>_. None)"
  by (simp add: rt_get_def fun_eq_iff)

lemma rt_get_node:
  "rt_root t = Some r \<Longrightarrow> rt_height t = Suc l \<Longrightarrow> rt_get t k = (if unat k < 64 ^ Suc l then nget l r (unat k) else None)"
  using height_for_key_le [of "Suc l" k] by (auto simp: rt_get_def get_at_nget not_le [symmetric])

lemma rt_get_ndom:
  assumes "rt_root t = Some r" "rt_height t = Suc l" "\<forall>k \<in> ndom l r. k < 2 ^ 64"
  shows "unat ` dom (rt_get t) = ndom l r"
proof (intro equalityI subsetI)
  fix k assume k: "k \<in> ndom l r"
  then have "unat (of_nat k :: usize) = k" using assms(3) by (simp add: unsigned_of_nat take_bit_nat_eq_self)
  then have "of_nat k \<in> dom (rt_get t)" using k by (simp add: rt_get_node [OF assms(1,2)] dom_def ndom_def)
  then show "k \<in> unat ` dom (rt_get t)" using \<open>unat (of_nat k :: usize) = k\<close> by (metis image_eqI)
qed (auto simp: rt_get_node [OF assms(1,2)] ndom_def split: if_splits)

lemma rt_len_card: "rt_ok t \<Longrightarrow> rt_len t = card (dom (rt_get t))"
proof (erule rt_okE, goal_cases)
  case (2 r l)
  have "card (unat ` dom (rt_get t)) = card (dom (rt_get t))" by (intro card_image inj_onI) (simp add: word_unat_eq_iff)
  then show ?thesis using rt_get_ndom [OF 2(1,2,6)] 2(4,5) rinv_count by metis
qed (simp add: rt_get_empty)

lemma rt_ok_new: "rt_ok rt_new" "rt_get rt_new = (\<lambda>_. None)"
  by (simp_all add: rt_ok_def rt_new_def rt_get_def fun_eq_iff)

lemma rt_ok_clear: "rt_ok (rt_clear t)" "rt_get (rt_clear t) = (\<lambda>_. None)"
  by (simp_all add: rt_ok_def rt_clear_def rt_get_def fun_eq_iff)

lemma rt_grow_spec:
  assumes "rt_ok t" "rt_height t < 11"
  shows "rt_ok (rt_grow t) \<and> rt_get (rt_grow t) = rt_get t \<and> rt_height (rt_grow t) = Suc (rt_height t)"
  using assms(1)
proof (cases rule: rt_okE)
  case empty
  then have "rt_root (rt_grow t) = Some node_new" "rt_height (rt_grow t) = Suc 0" "rt_len (rt_grow t) = 0"
    by (simp_all add: rt_grow_def)
  then show ?thesis
    using empty rt_get_node [of "rt_grow t" node_new 0]
    by (auto intro!: rt_okI [of _ node_new 0] rinv_new simp: rt_get_empty fun_eq_iff) (simp add: node_new_def)
next
  case (node r l)
  let ?r = "RNode ((slots node_new)[0 := Some (NodeSlot r)]) (rt_len t)"
  have g: "rt_root (rt_grow t) = Some ?r" "rt_height (rt_grow t) = Suc (Suc l)" "rt_len (rt_grow t) = rt_len t"
    using node by (simp_all add: rt_grow_def)
  have get: "nget (Suc l) ?r k = (if digit k (Suc l) = 0 then nget l r k else None)" for k
    by (simp add: node_new_def nth_list_update RADIX_def)
  have le: "k < 64 ^ Suc l \<Longrightarrow> k < 64 ^ Suc (Suc l) \<and> digit k (Suc l) = 0" for k :: nat
    by (auto simp: digit_def intro: less_le_trans)
  have dom: "ndom (Suc l) ?r = ndom l r"
    using digit_zero [of _ "Suc l"] le by (auto simp: ndom_def get simp del: nget.simps power_Suc split: if_splits)
  have "rinv (Suc l) ?r"
    unfolding rinv_iff dom using node(4,5) rinv_count [OF node(4)]
    by (auto simp: node_new_def slot_ok_def dest!: subsetD [OF set_update_subset_insert])
  then have "rt_ok (rt_grow t)"
    using g(3) node(2,6) assms(2) dom by (intro rt_okI [OF g(1,2)]) simp_all
  moreover have "rt_get (rt_grow t) k = rt_get t k" for k
    unfolding rt_get_node [OF g(1,2)] rt_get_node [OF node(1,2)] get using digit_zero [of "unat k" "Suc l"] le by auto
  ultimately show ?thesis using g node(2) by auto
qed

lemma ensure_height_spec:
  "rt_ok t \<Longrightarrow> n \<le> 11 \<Longrightarrow> rt_ok (ensure_height n t) \<and> rt_get (ensure_height n t) = rt_get t \<and>
   rt_height (ensure_height n t) = max n (rt_height t)"
proof (induction n t rule: ensure_height.induct)
  case (1 n t)
  show ?case
  proof (cases "rt_height t < n")
    case True
    then show ?thesis
      using 1 rt_grow_spec [of t] by (subst (1 2 3) ensure_height.simps) auto
  next
    case False
    then show ?thesis using 1(2) by (subst (1 2 3) ensure_height.simps) auto
  qed
qed

text \<open>The contract of a map, for insertion, removal and access through a reference.\<close>

lemma rt_insert_spec:
  assumes "rt_ok t"
  obtains t' where "rt_insert k v t = Some (rt_get t k, t')" "rt_ok t'" "rt_get t' = (rt_get t)(k \<mapsto> v)"
    "rt_height t' = max (height_for_key k) (rt_height t)"
proof -
  define u where "u = ensure_height (height_for_key k) t"
  have u: "rt_ok u" "rt_get u = rt_get t" "rt_height u = max (height_for_key k) (rt_height t)"
    using ensure_height_spec [OF assms height_for_key_bounds(2)] by (simp_all add: u_def)
  obtain r l where n: "rt_root u = Some r" "rt_height u = Suc l" "l \<le> 10" "rinv l r" "rt_len u = rcount r" "\<forall>k \<in> ndom l r. k < 2 ^ 64"
    by (rule rt_okE [OF u(1)]) (use u(3) height_for_key_bounds(1) [of k] that in auto)
  have "height_for_key k \<le> Suc l" using u(3) n(2) by simp
  then have kl: "unat k < 64 ^ Suc l" using height_for_key_le [of "Suc l" k] by blast
  obtain r' where r': "insert_at l k v r = Some (nget l r (unat k), r')" "rinv l r'"
    "\<And>j. nget l r' j = (if j mod 64 ^ Suc l = unat k mod 64 ^ Suc l then Some v else nget l r j)"
    using insert_at_spec [OF n(4)] by blast
  let ?t = "u\<lparr>rt_root := Some r', rt_len := rcount r'\<rparr>"
  have old: "nget l r (unat k) = rt_get t k" using u(2) rt_get_node [OF n(1,2)] kl by metis
  have dom: "ndom l r' = insert (unat k) (ndom l r)" using ndom_upd [OF r'(3)] kl by simp
  have "rcount r' = rcount r + (if rt_get t k = None then 1 else 0)"
    using ndom_mem [of "unat k" l r] kl rinv_count [OF r'(2)] rinv_count [OF n(4)] by (simp add: dom card_insert_if old)
  then have "rt_insert k v t = Some (rt_get t k, ?t)"
    using r'(1) n(1,2,5) by (auto simp: rt_insert_def u_def [symmetric] old Let_def intro!: RadixTree.equality)
  moreover have "rt_ok ?t" using n r'(2) dom unsigned_less [of k] by (intro rt_okI [of _ r' l]) auto
  moreover have "rt_get ?t j = ((rt_get t)(k \<mapsto> v)) j" for j
    using rt_get_node [of ?t r' l j] rt_get_node [OF n(1,2), of j] n(2) r'(3) [of "unat j"] kl u(2) by (auto simp: word_unat_eq_iff)
  ultimately show thesis using u(3) by (intro that [of ?t]) auto
qed

lemma rt_remove_spec:
  assumes "rt_ok t"
  obtains t' where "rt_remove k t = Some (rt_get t k, t')" "rt_ok t'" "rt_get t' = (rt_get t)(k := None)"
  using assms
proof (cases rule: rt_okE)
  case empty
  then show thesis using assms that [of t] by (simp add: rt_remove_def rt_get_empty fun_eq_iff fun_upd_idem)
next
  case (node r l)
  show thesis
  proof (cases "rt_get t k")
    case None
    have "rt_remove k t = Some (None, t)"
      using None rt_get_node [OF node(1,2), of k] height_for_key_le [of "Suc l" k] remove_at_spec [OF node(4), of k] node(1,2)
      by (auto simp: rt_remove_def split: if_splits)
    then show thesis using None assms that [of t] by (simp add: fun_upd_idem)
  next
    case (Some v)
    then have kl: "unat k < 64 ^ Suc l" and v: "nget l r (unat k) = Some v" using rt_get_node [OF node(1,2), of k] by (auto split: if_splits)
    obtain r' where r': "remove_at l k r = Some (Some (v, r'))" "rinv l r'"
      "\<And>j. nget l r' j = (if j mod 64 ^ Suc l = unat k mod 64 ^ Suc l then None else nget l r j)"
      using remove_at_spec [OF node(4), of k] v by auto
    have dom: "ndom l r' = ndom l r - {unat k}" using ndom_upd [OF r'(3)] kl by simp
    have cnt: "rcount r - 1 = rcount r'" using ndom_remove_count [OF node(4) _ r'(3)] v rinv_count [OF r'(2)] by simp
    let ?u = "t\<lparr>rt_root := Some r', rt_len := rcount r'\<rparr>"
    let ?t = "if node_is_empty r' then ?u\<lparr>rt_root := None, rt_height := 0\<rparr> else ?u"
    have rem: "rt_remove k t = Some (Some v, ?t)"
      using r'(1) node(1,2,5) cnt height_for_key_le [of "Suc l" k] kl by (auto simp: rt_remove_def)
    have oku: "rt_ok ?u" using node r'(2) dom by (intro rt_okI [of _ r' l]) auto
    have getu: "rt_get ?u = (rt_get t)(k := None)"
      using rt_get_node [of ?u r' l] rt_get_node [OF node(1,2)] node(2) r'(3) kl by (auto simp: fun_eq_iff word_unat_eq_iff)
    have "rt_ok ?t" using oku by (auto simp: node_is_empty_def rt_ok_def)
    moreover have "rt_get ?t = rt_get ?u"
    proof (cases "node_is_empty r'")
      case True
      then have "dom (rt_get ?u) = {}" using rt_len_card [OF oku] by (simp add: node_is_empty_def)
      then show ?thesis using True by (auto simp: rt_get_empty fun_eq_iff dom_def)
    qed simp
    ultimately show thesis using rem getu Some by (intro that [of ?t]) auto
  qed
qed

lemma rt_get_mut_spec:
  assumes "rt_ok t"
  shows "case rt_get t k of
      None \<Rightarrow> rt_get_mut k f t = None
    | Some v \<Rightarrow> \<exists>t'. rt_get_mut k f t = Some t' \<and> rt_ok t' \<and> rt_get t' = (rt_get t)(k \<mapsto> f v)"
  using assms
proof (cases rule: rt_okE)
  case empty
  then show ?thesis by (simp add: rt_get_mut_def rt_get_empty)
next
  case (node r l)
  show ?thesis
  proof (cases "rt_get t k")
    case None
    then show ?thesis
      using rt_get_node [OF node(1,2), of k] height_for_key_le [of "Suc l" k] get_mut_at_spec [OF node(4), of k f] node(1,2)
      by (auto simp: rt_get_mut_def split: if_splits)
  next
    case (Some v)
    then have kl: "unat k < 64 ^ Suc l" and v: "nget l r (unat k) = Some v" using rt_get_node [OF node(1,2), of k] by (auto split: if_splits)
    obtain r' where r': "get_mut_at l k f r = Some r'" "rinv l r'"
      "\<And>j. nget l r' j = (if j mod 64 ^ Suc l = unat k mod 64 ^ Suc l then Some (f v) else nget l r j)"
      using get_mut_at_spec [OF node(4), of k f] v by auto
    have dom: "ndom l r' = ndom l r" using ndom_upd [OF r'(3)] ndom_mem [of "unat k" l r] kl v by (auto simp: insert_absorb)
    let ?t = "t\<lparr>rt_root := Some r'\<rparr>"
    have "rt_get_mut k f t = Some ?t" using r'(1) node(1,2) kl height_for_key_le [of "Suc l" k] by (auto simp: rt_get_mut_def)
    moreover have "rt_ok ?t"
      using node r'(2) dom rinv_count [OF r'(2)] rinv_count [OF node(4)] by (intro rt_okI [of _ r' l]) auto
    moreover have "rt_get ?t = (rt_get t)(k \<mapsto> f v)"
      using rt_get_node [of ?t r' l] rt_get_node [OF node(1,2)] node(2) r'(3) kl by (auto simp: fun_eq_iff word_unat_eq_iff)
    ultimately show ?thesis using Some by auto
  qed
qed

end
