(* ===== verification/Radix_Order.thy ===== *)
theory Radix_Order
  imports Radix_Proofs
begin

text \<open>
  Ordered queries of the radix tree: the smallest and largest key, the neighbours of a key, and the sequence
  that the iterators visit.
\<close>

unbundle bit_operations_syntax

section \<open>Searching slots in order\<close>

lemma first_some_None: "first_some f xs = None \<longleftrightarrow> (\<forall>x \<in> set xs. f x = None)"
  by (induction xs) (auto split: option.split)

lemma first_some_upt:
  "first_some f [a..<b] = Some y \<longleftrightarrow> (\<exists>i. a \<le> i \<and> i < b \<and> f i = Some y \<and> (\<forall>j. a \<le> j \<and> j < i \<longrightarrow> f j = None))"
proof (induction "b - a" arbitrary: a)
  case (Suc n)
  then have e: "[a..<b] = a # [Suc a..<b]" and n: "n = b - Suc a" by (simp_all add: upt_rec)
  show ?case
  proof (cases "f a")
    case None
    have "(\<forall>j. a \<le> j \<and> j < i \<longrightarrow> f j = None) \<longleftrightarrow> (\<forall>j. Suc a \<le> j \<and> j < i \<longrightarrow> f j = None)" for i
      using None by (auto simp: Suc_le_eq) (metis le_neq_implies_less)
    moreover have "a \<le> i \<and> i < b \<and> f i = Some y \<longleftrightarrow> Suc a \<le> i \<and> i < b \<and> f i = Some y" for i
      using None by (cases "i = a") auto
    ultimately show ?thesis unfolding e using None Suc.hyps(1) [OF n] by simp metis
  next
    case (Some z)
    then show ?thesis unfolding e using Suc.hyps(2) by (auto intro!: exI [of _ a]) (metis le_eq_less_or_eq option.distinct(1) option.inject)
  qed
qed auto

lemma first_some_rev_upt:
  "first_some f (rev [0..<b]) = Some y \<longleftrightarrow> (\<exists>i < b. f i = Some y \<and> (\<forall>j. i < j \<and> j < b \<longrightarrow> f j = None))"
proof (induction b)
  case (Suc b)
  show ?case
  proof (cases "f b")
    case None
    then show ?thesis using Suc by (auto simp: less_Suc_eq)
  next
    case (Some z)
    then show ?thesis by (auto simp: less_Suc_eq)
  qed
qed auto

section \<open>Keys of children\<close>

lemma digit_combine:
  assumes "i < 64" "k < 64 ^ l"
  shows "digit (i * 64 ^ l + k) l = i" "(i * 64 ^ l + k) mod 64 ^ l = k" "i * 64 ^ l + k < 64 ^ Suc l"
proof -
  show "digit (i * 64 ^ l + k) l = i" "(i * 64 ^ l + k) mod 64 ^ l = k" using assms by (simp_all add: digit_def)
  have "Suc i * 64 ^ l \<le> 64 * 64 ^ l" using assms(1) by (intro mult_le_mono1) simp
  then show "i * 64 ^ l + k < 64 ^ Suc l" using assms(2) unfolding power_Suc mult_Suc by linarith
qed

lemma digit_split: "k < 64 ^ Suc l \<Longrightarrow> k = digit k l * 64 ^ l + k mod 64 ^ l"
  using mod_digit [of k l] by simp

lemma nget_child:
  assumes "i < 64" "k < 64 ^ Suc l" "slots node ! i = Some (NodeSlot c)"
  shows "nget (Suc l) node (i * 64 ^ Suc l + k) = nget l c k"
  using digit_combine [OF assms(1,2)] assms(3) nget_mod [of l c "i * 64 ^ Suc l + k"] by (simp del: power_Suc)

lemma child_key_add:
  assumes "64 ^ Suc l dvd unat p" "i < 64" "unat p + i * 64 ^ l < 2 ^ 64"
  shows "unat (child_key p i l) = unat p + i * 64 ^ l"
proof -
  let ?b = "push_bit (l * SHIFT) (of_nat i) :: usize"
  have ub: "unat ?b = i * 64 ^ l"
  proof -
    have "unat (of_nat i :: usize) = i" using assms(2) by (simp add: unsigned_of_nat take_bit_nat_eq_self)
    then have "unat ?b = take_bit 64 (push_bit (l * SHIFT) i)" by (simp add: unsigned_push_bit_eq)
    also have "\<dots> = i * 64 ^ l" using assms(3) by (simp add: push_bit_eq_mult pow64 take_bit_nat_eq_self)
    finally show ?thesis .
  qed
  have "\<not> bit p n \<or> \<not> bit ?b n" for n
  proof (cases "n < l * SHIFT + 6")
    case True
    have "unat p mod 2 ^ (l * SHIFT + 6) = 0" 
      unfolding power_add pow64 using assms(1) by (simp add: mult.commute)
    then have "\<not> bit (unat p) n" using True by (metis bit_take_bit_iff take_bit_eq_mod bit_0_eq bot_apply bot_bool_def)
    then show ?thesis by (simp add: bit_unsigned_iff)
  next
    case False
    have "i < 2 ^ (n - l * SHIFT)"
    proof -
      have "(64 :: nat) = 2 ^ 6" by simp
      also have "\<dots> \<le> 2 ^ (n - l * SHIFT)" using False by (intro power_increasing) simp_all
      finally show ?thesis using assms(2) by simp
    qed
    then have "\<not> bit i (n - l * SHIFT)" by (simp add: bit_iff_odd)
    then show ?thesis by (simp add: bit_push_bit_iff bit_of_nat_iff)
  qed
  then have "child_key p i l = p + ?b" unfolding child_key_def by (intro disjunctive_add [symmetric]) auto
  then show ?thesis using ub assms(3) by (simp add: unat_add_no_wrap)
qed

lemma lex_le:
  assumes "x < 64 ^ Suc l" "y < 64 ^ Suc l"
  shows "x \<le> y \<longleftrightarrow> digit x l < digit y l \<or> digit x l = digit y l \<and> x mod 64 ^ l \<le> y mod 64 ^ l"
proof -
  have d: "digit z l = z div 64 ^ l" if "z < 64 ^ Suc l" for z using that by (simp add: digit_def less_mult_imp_div_less mult.commute)
  have "x \<le> y \<Longrightarrow> digit x l \<le> digit y l" using d assms by (simp add: div_le_mono del: power_Suc)
  moreover have "\<not> x \<le> y \<Longrightarrow> digit y l \<le> digit x l" using d assms by (simp add: div_le_mono del: power_Suc)
  moreover have "digit x l = digit y l \<Longrightarrow> x \<le> y \<longleftrightarrow> x mod 64 ^ l \<le> y mod 64 ^ l"
    using digit_split [OF assms(1)] digit_split [OF assms(2)] by (metis add_le_cancel_left)
  moreover have "digit x l < digit y l \<Longrightarrow> x < y"
    using digit_split [OF assms(1)] digit_split [OF assms(2)] digit_combine(3) d assms by (metis div_le_mono leI leD)
  ultimately show ?thesis by (meson less_imp_le nat_less_le)
qed

lemma digit_lt: "j < 64 \<Longrightarrow> digit j 0 = j"
  by (simp add: digit_def)

section \<open>The least key from a bound on\<close>

definition least_from :: "nat \<Rightarrow> nat \<Rightarrow> 'v RNode \<Rightarrow> usize \<Rightarrow> (usize \<times> 'v) option \<Rightarrow> bool" where
  "least_from a l node p r = (case r of
     None \<Rightarrow> \<forall>j. a \<le> j \<and> j < 64 ^ Suc l \<longrightarrow> nget l node j = None
   | Some (key, v) \<Rightarrow> \<exists>k. a \<le> k \<and> k < 64 ^ Suc l \<and> unat key = unat p + k \<and> nget l node k = Some v \<and>
       (\<forall>j. a \<le> j \<and> j < k \<longrightarrow> nget l node j = None))"

text \<open>A loop over the values of a leaf.\<close>

lemma least_leaf:
  assumes f: "\<And>i. a \<le> i \<Longrightarrow> i < 64 \<Longrightarrow> f i = (case slots node ! i of Some (ValueSlot v) \<Rightarrow> Some (child_key p i 0, v) | _ \<Rightarrow> None)"
    and dvd: "64 dvd unat p" and fits: "\<And>k. k < 64 ^ Suc 0 \<Longrightarrow> nget 0 node k \<noteq> None \<Longrightarrow> unat p + k < 2 ^ 64"
  shows "least_from a 0 node p (first_some f [a..<64])"
proof -
  have get: "map_option snd (f i) = nget 0 node i" if "a \<le> i" "i < 64" for i
    using f [OF that] that by (auto simp: digit_lt split: option.splits RSlot.splits)
  show ?thesis
  proof (cases "first_some f [a..<64]")
    case None
    then have "\<forall>i. a \<le> i \<and> i < 64 \<longrightarrow> f i = None" by (auto simp: first_some_None)
    then show ?thesis unfolding least_from_def None using get by (fastforce simp del: nget.simps)
  next
    case (Some kv)
    then obtain i where i: "a \<le> i" "i < 64" "f i = Some kv" "\<forall>j. a \<le> j \<and> j < i \<longrightarrow> f j = None" by (auto simp: first_some_upt)
    obtain v where v: "slots node ! i = Some (ValueSlot v)" "kv = (child_key p i 0, v)"
      using i f [OF i(1,2)] by (auto split: option.splits RSlot.splits)
    have n: "nget 0 node i = Some v" using v i(2) by (simp add: digit_lt)
    then have "unat (child_key p i 0) = unat p + i" using child_key_add [of 0 p i] dvd fits [of i] i(2) by simp
    moreover have "nget 0 node j = None" if "a \<le> j" "j < i" for j using get [of j] i that by (simp del: nget.simps)
    ultimately show ?thesis unfolding least_from_def Some v(2) using i n by (auto simp del: nget.simps)
  qed
qed

text \<open>A loop over the children of an inner node.\<close>

lemma least_inner:
  assumes a: "a < 64 ^ Suc (Suc l)" "d = digit a (Suc l)"
    and other: "\<And>i. d \<le> i \<Longrightarrow> i < 64 \<Longrightarrow> (\<nexists>c. slots node ! i = Some (NodeSlot c)) \<Longrightarrow> f i = None"
    and child: "\<And>i c. d \<le> i \<Longrightarrow> i < 64 \<Longrightarrow> slots node ! i = Some (NodeSlot c) \<Longrightarrow>
      least_from (if i = d then a mod 64 ^ Suc l else 0) l c (q i) (f i) \<and> (f i \<noteq> None \<longrightarrow> unat (q i) = unat p + i * 64 ^ Suc l)"
  shows "least_from a (Suc l) node p (first_some f [d..<64])"
proof -
  let ?m = "64 ^ Suc l :: nat"
  have above: "d \<le> digit j (Suc l)" "digit j (Suc l) = d \<Longrightarrow> a mod ?m \<le> j mod ?m" if "a \<le> j" "j < 64 ^ Suc (Suc l)" for j
    using lex_le [OF a(1) that(2)] that(1) a(2) by auto
  have gone: "nget (Suc l) node j = None" if j: "a \<le> j" "j < 64 ^ Suc (Suc l)" and "f (digit j (Suc l)) = None" for j
  proof (cases "\<exists>c. slots node ! digit j (Suc l) = Some (NodeSlot c)")
    case True
    then obtain c where c: "slots node ! digit j (Suc l) = Some (NodeSlot c)" by blast
    have "nget l c (j mod ?m) = None"
      using child [OF above(1) [OF j] _ c] above(2) [OF j] that(3) by (auto simp: least_from_def simp del: power_Suc split: if_splits)
    then show ?thesis using c by (simp only: nget.simps nget_mod) simp
  qed (auto split: option.splits RSlot.splits)
  show ?thesis
  proof (cases "first_some f [d..<64]")
    case None
    then have "f i = None" if "d \<le> i" "i < 64" for i using that by (auto simp: first_some_None)
    then have "nget (Suc l) node j = None" if "a \<le> j" "j < 64 ^ Suc (Suc l)" for j using gone [OF that] above(1) [OF that] by simp
    then show ?thesis unfolding least_from_def None by simp
  next
    case (Some kv)
    then obtain i where i: "d \<le> i" "i < 64" "f i = Some kv" "\<forall>j. d \<le> j \<and> j < i \<longrightarrow> f j = None" by (auto simp: first_some_upt)
    obtain c where c: "slots node ! i = Some (NodeSlot c)" using other [OF i(1,2)] i(3) by auto
    obtain key v k where k: "kv = (key, v)" "(if i = d then a mod ?m else 0) \<le> k" "k < ?m" "unat key = unat p + i * ?m + k"
      "nget l c k = Some v" "\<And>j. (if i = d then a mod ?m else 0) \<le> j \<Longrightarrow> j < k \<Longrightarrow> nget l c j = None"
      using child [OF i(1,2) c] i(3) by (cases kv) (auto simp: least_from_def simp del: power_Suc)
    let ?k = "i * ?m + k"
    note dc = digit_combine [OF i(2) k(3)]
    have "a \<le> ?k" using lex_le [OF a(1) dc(3)] dc(1,2) k(2) i(1) a(2) by (auto split: if_splits)
    moreover have "nget (Suc l) node j = None" if j: "a \<le> j" "j < ?k" for j
    proof -
      have jb: "j < 64 ^ Suc (Suc l)" using j(2) dc(3) by linarith
      have "digit j (Suc l) < i \<or> digit j (Suc l) = i \<and> j mod ?m < k"
        using lex_le [OF dc(3) jb] dc(1,2) j(2) by (metis leI leD nat_neq_iff)
      then show ?thesis
      proof
        assume "digit j (Suc l) < i"
        then have "f (digit j (Suc l)) = None" using i(4) above(1) [OF j(1) jb] by simp
        then show ?thesis by (rule gone [OF j(1) jb])
      next
        assume e: "digit j (Suc l) = i \<and> j mod ?m < k"
        then have "nget l c (j mod ?m) = None" using k(6) [of "j mod ?m"] above(2) [OF j(1) jb] by (simp del: power_Suc)
        then show ?thesis using c e by (simp only: nget.simps nget_mod) simp
      qed
    qed
    ultimately show ?thesis
      unfolding least_from_def Some k(1) using dc(3) k(4) nget_child [OF i(2) k(3) c] k(5)
      by (auto simp del: power_Suc nget.simps intro!: exI [of _ ?k])
  qed
qed

text \<open>The prefix of a child, when the keys below it are machine words.\<close>

definition keys_fit :: "nat \<Rightarrow> usize \<Rightarrow> 'v RNode \<Rightarrow> bool" where
  "keys_fit l p node \<longleftrightarrow> 64 ^ Suc l dvd unat p \<and> (\<forall>k < 64 ^ Suc l. nget l node k \<noteq> None \<longrightarrow> unat p + k < 2 ^ 64)"

lemma child_prefix:
  assumes fit: "keys_fit (Suc l) p node" and i: "i < 64" and c: "slots node ! i = Some (NodeSlot c)"
    and room: "unat p + i * 64 ^ Suc l < 2 ^ 64"
  shows "unat (child_key p i (Suc l)) = unat p + i * 64 ^ Suc l" "keys_fit l (child_key p i (Suc l)) c"
proof -
  have dvd: "64 ^ Suc (Suc l) dvd unat p" using fit by (simp add: keys_fit_def)
  show key: "unat (child_key p i (Suc l)) = unat p + i * 64 ^ Suc l" by (rule child_key_add [OF dvd i room])
  have "64 ^ Suc l dvd unat p" using dvd by (rule dvd_trans [rotated]) simp
  moreover have "unat p + i * 64 ^ Suc l + k < 2 ^ 64" if "k < 64 ^ Suc l" "nget l c k \<noteq> None" for k
  proof -
    have "nget (Suc l) node (i * 64 ^ Suc l + k) \<noteq> None" using nget_child [OF i that(1) c] that(2) by (simp del: nget.simps)
    then have "unat p + (i * 64 ^ Suc l + k) < 2 ^ 64" using fit digit_combine(3) [OF i that(1)] unfolding keys_fit_def by blast
    then show ?thesis by simp
  qed
  ultimately show "keys_fit l (child_key p i (Suc l)) c" unfolding keys_fit_def key by (simp del: power_Suc)
qed

lemma child_room:
  assumes fit: "keys_fit (Suc l) p node" and i: "i < 64" and c: "slots node ! i = Some (NodeSlot c)" and k: "nget l c k \<noteq> None"
  shows "unat p + i * 64 ^ Suc l < 2 ^ 64"
proof -
  let ?k = "k mod 64 ^ Suc l"
  have kl: "?k < 64 ^ Suc l" by simp
  have "nget (Suc l) node (i * 64 ^ Suc l + ?k) \<noteq> None"
    using nget_child [OF i kl c] k nget_mod [of l c k] by (simp del: nget.simps power_Suc)
  then have "unat p + (i * 64 ^ Suc l + ?k) < 2 ^ 64" using fit digit_combine(3) [OF i kl] unfolding keys_fit_def by blast
  then show ?thesis by linarith
qed

text \<open>Searches below a node without keys find nothing, whatever the prefix.\<close>

lemma empty_children:
  assumes "\<And>k. nget (Suc l) node k = None" "i < 64" "slots node ! i = Some (NodeSlot c)"
  shows "nget l c k = None"
proof -
  have "nget (Suc l) node (i * 64 ^ Suc l + k mod 64 ^ Suc l) = nget l c (k mod 64 ^ Suc l)"
    by (rule nget_child [OF assms(2) _ assms(3)]) simp
  then show ?thesis using assms(1) nget_mod [of l c k] by (simp del: nget.simps power_Suc)
qed

lemma find_empty:
  "(\<And>k. nget l node k = None) \<Longrightarrow> find_first l p node = None \<and> find_last l p node = None"
proof (induction l arbitrary: p node)
  case 0
  then have "slots node ! i = None \<or> (\<exists>c. slots node ! i = Some (NodeSlot c))" if "i < 64" for i
    using 0 [of i] that by (auto simp: digit_lt split: option.splits RSlot.splits)
  then show ?case by (fastforce simp: first_some_None get_slot_def RADIX_def split: option.splits RSlot.splits)
next
  case (Suc l)
  have "find_first l q c = None \<and> find_last l q c = None" if "i < 64" "slots node ! i = Some (NodeSlot c)" for i c q
    using Suc.IH [of c q] empty_children [OF Suc.prems that] by blast
  then show ?case by (auto simp: first_some_None get_slot_def RADIX_def split: option.splits RSlot.splits)
qed

text \<open>What a search below a child returns, for a search that finds nothing in empty nodes.\<close>

lemma child_search:
  assumes fit: "keys_fit (Suc l) p node" and i: "i < 64" and c: "slots node ! i = Some (NodeSlot c)"
    and spec: "keys_fit l (child_key p i (Suc l)) c \<Longrightarrow> P (child_key p i (Suc l)) (F (child_key p i (Suc l)) c)"
    and empty: "(\<And>k. nget l c k = None) \<Longrightarrow> F (child_key p i (Suc l)) c = None \<and> P (child_key p i (Suc l)) None"
  shows "P (child_key p i (Suc l)) (F (child_key p i (Suc l)) c) \<and>
    (F (child_key p i (Suc l)) c \<noteq> None \<longrightarrow> unat (child_key p i (Suc l)) = unat p + i * 64 ^ Suc l)"
proof (cases "\<exists>k. nget l c k \<noteq> None")
  case True
  then have "unat p + i * 64 ^ Suc l < 2 ^ 64" using child_room [OF fit i c] by blast
  then show ?thesis using spec child_prefix [OF fit i c] by blast
next
  case False
  then show ?thesis using empty by auto
qed

lemma least_below:
  assumes "keys_fit (Suc l) p node" "i < 64" "slots node ! i = Some (NodeSlot c)" "q = child_key p i (Suc l)"
    and spec: "\<And>p (node :: 'v RNode). keys_fit l p node \<Longrightarrow> least_from 0 l node p (find_first l p node)"
  shows "least_from 0 l (c :: 'v RNode) q (find_first l q c) \<and> (find_first l q c \<noteq> None \<longrightarrow> unat q = unat p + i * 64 ^ Suc l)"
  unfolding assms(4)
proof (rule child_search [OF assms(1-3), where F = "find_first l"])
  assume "\<And>k. nget l c k = None"
  then show "find_first l (child_key p i (Suc l)) c = None \<and> least_from 0 l c (child_key p i (Suc l)) None"
    using find_empty [of l c] by (simp add: least_from_def del: power_Suc)
qed (rule spec)

lemma find_first_spec: "keys_fit l p node \<Longrightarrow> least_from 0 l node p (find_first l p node)"
proof (induction l arbitrary: p node)
  case 0
  then show ?case
    unfolding find_first.simps RADIX_def by (intro least_leaf) (simp_all add: get_slot_def keys_fit_def)
next
  case (Suc l)
  let ?f = "\<lambda>i. case get_slot node i of Some (NodeSlot child) \<Rightarrow> find_first l (child_key p i (Suc l)) child | _ \<Rightarrow> None"
  have "least_from 0 (Suc l) node p (first_some ?f [0..<64])"
  proof (rule least_inner [where q = "\<lambda>i. child_key p i (Suc l)"])
    fix i c assume i: "i < 64" and c: "slots node ! i = Some (NodeSlot c)"
    note least_below [OF Suc.prems i c refl Suc.IH]
    then show "least_from (if i = 0 then 0 mod 64 ^ Suc l else 0) l c (child_key p i (Suc l)) (?f i) \<and>
      (?f i \<noteq> None \<longrightarrow> unat (child_key p i (Suc l)) = unat p + i * 64 ^ Suc l)"
      using c by (auto simp: get_slot_def simp del: power_Suc)
  qed (auto simp: digit_def get_slot_def split: option.splits RSlot.splits)
  then show ?case by (simp add: RADIX_def)
qed

lemma target_digit:
  assumes "keys_fit l p node" "unat target = unat p + a"
  shows "key_index target l = digit a l"
proof -
  have "64 ^ Suc l dvd unat p" using assms(1) by (simp add: keys_fit_def)
  then have "unat target mod 64 ^ Suc l = a mod 64 ^ Suc l" unfolding assms(2) by (simp add: mod_add_left_eq [symmetric])
  then show ?thesis by (simp add: key_index_digit mod_eq_iff del: power_Suc)
qed

lemma target_room:
  assumes "unat (target :: usize) = unat p + a" "a = i * 64 ^ Suc l + b"
  shows "unat p + i * 64 ^ Suc l < 2 ^ 64"
proof -
  have "i * 64 ^ Suc l \<le> a" using assms(2) by linarith
  then show ?thesis using assms(1) unat_less_2p64 [of target] by simp
qed

lemma find_lower_bound_spec:
  "keys_fit l p node \<Longrightarrow> unat target = unat p + a \<Longrightarrow> a < 64 ^ Suc l \<Longrightarrow> least_from a l node p (find_lower_bound l p target node)"
proof (induction l arbitrary: p node a)
  case 0
  have ti: "key_index target 0 = a"
    using 0 by (auto simp: key_index_digit digit_def keys_fit_def elim!: dvdE)
  show ?case
    unfolding find_lower_bound.simps RADIX_def ti
  proof (rule least_leaf)
    fix i assume i: "a \<le> i" "i < 64"
    show "(case get_slot node i of None \<Rightarrow> None | Some (NodeSlot c) \<Rightarrow> None
       | Some (ValueSlot v) \<Rightarrow> let key = child_key p i 0 in if target \<le> key then Some (key, v) else None) =
      (case slots node ! i of None \<Rightarrow> None | Some (NodeSlot c) \<Rightarrow> None | Some (ValueSlot v) \<Rightarrow> Some (child_key p i 0, v))"
    proof (cases "\<exists>v. slots node ! i = Some (ValueSlot v)")
      case True
      then have "unat p + i < 2 ^ 64" using 0(1) i(2) by (auto simp: keys_fit_def digit_lt)
      then have "target \<le> child_key p i 0" using child_key_add [of 0 p i] 0(1,2) i by (simp add: keys_fit_def word_le_nat_alt)
      then show ?thesis by (simp add: get_slot_def Let_def split: option.split RSlot.split)
    qed (auto simp: get_slot_def split: option.splits RSlot.splits)
  qed (use 0(1) in \<open>simp_all add: keys_fit_def\<close>)
next
  case (Suc l)
  let ?d = "digit a (Suc l)" and ?a = "a mod 64 ^ Suc l"
  let ?f = "\<lambda>i. case get_slot node i of
      Some (NodeSlot child) \<Rightarrow>
        let key = child_key p i (Suc l) in if i = ?d then find_lower_bound l key target child else find_first l key child
    | _ \<Rightarrow> None"
  have ti: "key_index target (Suc l) = ?d" by (rule target_digit [OF Suc.prems(1,2)])
  have "least_from a (Suc l) node p (first_some ?f [?d..<64])"
  proof (rule least_inner [OF Suc.prems(3) refl, where q = "\<lambda>i. child_key p i (Suc l)"])
    fix i c assume i: "?d \<le> i" "i < 64" and c: "slots node ! i = Some (NodeSlot c)"
    show "least_from (if i = ?d then ?a else 0) l c (child_key p i (Suc l)) (?f i) \<and>
      (?f i \<noteq> None \<longrightarrow> unat (child_key p i (Suc l)) = unat p + i * 64 ^ Suc l)"
    proof (cases "i = ?d")
      case True
      have sp: "a = i * 64 ^ Suc l + ?a" using digit_split [OF Suc.prems(3)] True by simp
      note cp = child_prefix [OF Suc.prems(1) i(2) c target_room [OF Suc.prems(2) sp]]
      have "least_from ?a l c (child_key p i (Suc l)) (find_lower_bound l (child_key p i (Suc l)) target c)"
        using Suc.prems(2) sp cp(1) by (intro Suc.IH cp(2)) simp_all
      then show ?thesis using True c cp(1) by (simp add: get_slot_def del: power_Suc)
    next
      case False
      note least_below [OF Suc.prems(1) i(2) c refl find_first_spec]
      then show ?thesis using False c by (simp add: get_slot_def del: power_Suc)
    qed
  qed (auto simp: get_slot_def split: option.splits RSlot.splits)
  then show ?case unfolding find_lower_bound.simps ti RADIX_def .
qed

section \<open>The greatest key up to a bound\<close>

definition greatest_to :: "nat \<Rightarrow> nat \<Rightarrow> 'v RNode \<Rightarrow> usize \<Rightarrow> (usize \<times> 'v) option \<Rightarrow> bool" where
  "greatest_to a l node p r = (case r of
     None \<Rightarrow> \<forall>j \<le> a. nget l node j = None
   | Some (key, v) \<Rightarrow> \<exists>k \<le> a. unat key = unat p + k \<and> nget l node k = Some v \<and> (\<forall>j. k < j \<and> j \<le> a \<longrightarrow> nget l node j = None))"

lemma greatest_leaf:
  assumes f: "\<And>i. i \<le> a \<Longrightarrow> f i = (case slots node ! i of Some (ValueSlot v) \<Rightarrow> Some (child_key p i 0, v) | _ \<Rightarrow> None)"
    and a: "a < 64" and fit: "keys_fit 0 p node"
  shows "greatest_to a 0 node p (first_some f (rev [0..<Suc a]))"
proof -
  have get: "map_option snd (f i) = nget 0 node i" if "i \<le> a" for i
    using f [OF that] that a by (auto simp: digit_lt split: option.splits RSlot.splits)
  show ?thesis
  proof (cases "first_some f (rev [0..<Suc a])")
    case None
    then have "\<forall>i \<le> a. f i = None" unfolding first_some_None by (auto simp: le_less)
    then show ?thesis unfolding greatest_to_def None using get by (fastforce simp del: nget.simps)
  next
    case (Some kv)
    then obtain i where i: "i < Suc a" "f i = Some kv" "\<forall>j. i < j \<and> j < Suc a \<longrightarrow> f j = None" unfolding first_some_rev_upt by blast
    obtain v where v: "slots node ! i = Some (ValueSlot v)" "kv = (child_key p i 0, v)"
      using i f [of i] by (auto split: option.splits RSlot.splits)
    have n: "nget 0 node i = Some v" using v i(1) a by (simp add: digit_lt)
    then have "unat (child_key p i 0) = unat p + i" using child_key_add [of 0 p i] fit i(1) a by (simp add: keys_fit_def del: nget.simps)
    moreover have "nget 0 node j = None" if "i < j" "j \<le> a" for j using get [of j] i that by (simp del: nget.simps)
    ultimately show ?thesis unfolding greatest_to_def Some v(2) using i n by (auto simp del: nget.simps)
  qed
qed

lemma greatest_inner:
  assumes a: "a < 64 ^ Suc (Suc l)" "d = digit a (Suc l)"
    and other: "\<And>i. i \<le> d \<Longrightarrow> (\<nexists>c. slots node ! i = Some (NodeSlot c)) \<Longrightarrow> f i = None"
    and child: "\<And>i c. i \<le> d \<Longrightarrow> slots node ! i = Some (NodeSlot c) \<Longrightarrow>
      greatest_to (if i = d then a mod 64 ^ Suc l else 64 ^ Suc l - 1) l c (q i) (f i) \<and>
      (f i \<noteq> None \<longrightarrow> unat (q i) = unat p + i * 64 ^ Suc l)"
  shows "greatest_to a (Suc l) node p (first_some f (rev [0..<Suc d]))"
proof -
  let ?m = "64 ^ Suc l :: nat" and ?b = "\<lambda>i. if i = d then a mod 64 ^ Suc l else 64 ^ Suc l - 1 :: nat"
  have d: "d < 64" using a(2) by simp
  have lt: "j \<le> a \<Longrightarrow> j < 64 ^ Suc (Suc l)" for j using a(1) by linarith
  have mm: "x mod ?m \<le> ?m - 1" for x
  proof -
    have "x mod ?m < ?m" by (rule mod_less_divisor) simp
    then show ?thesis by linarith
  qed
  have below: "digit j (Suc l) \<le> d" "j mod ?m \<le> ?b (digit j (Suc l))" if "j \<le> a" for j
    using lex_le [OF lt [OF that] a(1)] that a(2) mm [of j] by auto
  have gone: "nget (Suc l) node j = None" if j: "j \<le> a" and "f (digit j (Suc l)) = None" for j
  proof (cases "\<exists>c. slots node ! digit j (Suc l) = Some (NodeSlot c)")
    case True
    then obtain c where c: "slots node ! digit j (Suc l) = Some (NodeSlot c)" by blast
    have "nget l c (j mod ?m) = None"
      using child [OF below(1) [OF j] c] below(2) [OF j] that(2) unfolding greatest_to_def by (simp del: power_Suc)
    then show ?thesis using c by (simp only: nget.simps nget_mod) simp
  qed (auto split: option.splits RSlot.splits)
  show ?thesis
  proof (cases "first_some f (rev [0..<Suc d])")
    case None
    then have "f i = None" if "i \<le> d" for i using that unfolding first_some_None by (auto simp: le_less)
    then show ?thesis unfolding greatest_to_def None using gone below(1) by simp
  next
    case (Some kv)
    then obtain i where i: "i < Suc d" "f i = Some kv" "\<forall>j. i < j \<and> j < Suc d \<longrightarrow> f j = None" unfolding first_some_rev_upt by blast
    have id: "i \<le> d" "i < 64" using i(1) d by simp_all
    obtain c where c: "slots node ! i = Some (NodeSlot c)" using other [OF id(1)] i(2) by auto
    have ch: "greatest_to (?b i) l c (q i) (Some kv)" "unat (q i) = unat p + i * ?m" using child [OF id(1) c] i(2) by simp_all
    then obtain key v k where k: "kv = (key, v)" "k \<le> ?b i" "unat key = unat p + i * ?m + k"
      "nget l c k = Some v" "\<And>j. k < j \<Longrightarrow> j \<le> ?b i \<Longrightarrow> nget l c j = None"
      by (cases kv) (auto simp: greatest_to_def simp del: power_Suc)
    have km: "k < ?m"
    proof -
      have "k \<le> ?m - 1" using k(2) mm [of a] by (simp del: power_Suc split: if_splits)
      moreover have "0 < ?m" by simp
      ultimately show ?thesis by linarith
    qed
    let ?k = "i * ?m + k"
    note dc = digit_combine [OF id(2) km]
    have "?k \<le> a" using lex_le [OF dc(3) a(1)] dc(1,2) k(2) id(1) a(2) by (auto split: if_splits)
    moreover have "nget (Suc l) node j = None" if j: "?k < j" "j \<le> a" for j
    proof -
      have "i < digit j (Suc l) \<or> digit j (Suc l) = i \<and> k < j mod ?m"
        using lex_le [OF lt [OF j(2)] dc(3)] dc(1,2) j(1) by (metis leI leD nat_neq_iff)
      then show ?thesis
      proof
        assume "i < digit j (Suc l)"
        then have "f (digit j (Suc l)) = None" using i(3) below(1) [OF j(2)] by simp
        then show ?thesis by (rule gone [OF j(2)])
      next
        assume e: "digit j (Suc l) = i \<and> k < j mod ?m"
        then have "nget l c (j mod ?m) = None" using k(5) [of "j mod ?m"] below(2) [OF j(2)] by (simp del: power_Suc)
        then show ?thesis using c e by (simp only: nget.simps nget_mod) simp
      qed
    qed
    ultimately show ?thesis
      unfolding greatest_to_def Some k(1) using k(3) nget_child [OF id(2) km c] k(4)
      by (auto simp del: power_Suc nget.simps intro!: exI [of _ ?k])
  qed
qed

lemma greatest_below:
  assumes "keys_fit (Suc l) p node" "i < 64" "slots node ! i = Some (NodeSlot c)" "q = child_key p i (Suc l)"
    and spec: "\<And>p (node :: 'v RNode). keys_fit l p node \<Longrightarrow> greatest_to (64 ^ Suc l - 1) l node p (find_last l p node)"
  shows "greatest_to (64 ^ Suc l - 1) l (c :: 'v RNode) q (find_last l q c) \<and>
    (find_last l q c \<noteq> None \<longrightarrow> unat q = unat p + i * 64 ^ Suc l)"
  unfolding assms(4)
proof (rule child_search [OF assms(1-3), where F = "find_last l"])
  assume "\<And>k. nget l c k = None"
  then show "find_last l (child_key p i (Suc l)) c = None \<and> greatest_to (64 ^ Suc l - 1) l c (child_key p i (Suc l)) None"
    using find_empty [of l c] by (simp add: greatest_to_def del: power_Suc)
qed (rule spec)

lemma top_digit: "digit (64 ^ Suc l - 1) l = 63" "(64 ^ Suc l - 1) mod 64 ^ l = (64 ^ l - 1 :: nat)"
proof -
  have e: "(64 :: nat) ^ Suc l - 1 = 63 * 64 ^ l + (64 ^ l - 1)" using zero_less_power [of "64 :: nat" l] by simp
  have l: "(64 :: nat) ^ l - 1 < 64 ^ l" by simp
  show "digit (64 ^ Suc l - 1) l = 63" "(64 ^ Suc l - 1) mod 64 ^ l = (64 ^ l - 1 :: nat)"
    unfolding e using digit_combine [OF _ l, of 63] by simp_all
qed

lemma find_last_spec: "keys_fit l p node \<Longrightarrow> greatest_to (64 ^ Suc l - 1) l node p (find_last l p node)"
proof (induction l arbitrary: p node)
  case 0
  have "greatest_to 63 0 node p (first_some (\<lambda>i. case get_slot node i of
         Some (ValueSlot v) \<Rightarrow> Some (child_key p i 0, v) | _ \<Rightarrow> None) (rev [0..<Suc 63]))"
    using 0 by (intro greatest_leaf) (simp_all add: get_slot_def)
  then show ?case by (simp add: RADIX_def)
next
  case (Suc l)
  let ?f = "\<lambda>i. case get_slot node i of Some (NodeSlot child) \<Rightarrow> find_last l (child_key p i (Suc l)) child | _ \<Rightarrow> None"
  have "greatest_to (64 ^ Suc (Suc l) - 1) (Suc l) node p (first_some ?f (rev [0..<Suc 63]))"
  proof (rule greatest_inner [where q = "\<lambda>i. child_key p i (Suc l)"])
    fix i c assume i: "i \<le> 63" and c: "slots node ! i = Some (NodeSlot c)"
    have "i < 64" using i by simp
    note greatest_below [OF Suc.prems this c refl Suc.IH]
    then show "greatest_to (if i = 63 then (64 ^ Suc (Suc l) - 1) mod 64 ^ Suc l else 64 ^ Suc l - 1) l c (child_key p i (Suc l)) (?f i) \<and>
      (?f i \<noteq> None \<longrightarrow> unat (child_key p i (Suc l)) = unat p + i * 64 ^ Suc l)"
      using c unfolding top_digit(2) by (auto simp: get_slot_def simp del: power_Suc)
  qed (use top_digit(1) [of "Suc l"] in \<open>auto simp: get_slot_def split: option.splits RSlot.splits\<close>)
  then show ?case by (simp add: RADIX_def del: power_Suc)
qed

lemma find_floor_spec:
  "keys_fit l p node \<Longrightarrow> unat target = unat p + a \<Longrightarrow> a < 64 ^ Suc l \<Longrightarrow> greatest_to a l node p (find_floor l p target node)"
proof (induction l arbitrary: p node a)
  case 0
  have ti: "key_index target 0 = a"
    using 0 by (auto simp: key_index_digit digit_def keys_fit_def elim!: dvdE)
  show ?case
    unfolding find_floor.simps RADIX_def ti
  proof (rule greatest_leaf)
    fix i assume i: "i \<le> a"
    show "(case get_slot node i of None \<Rightarrow> None | Some (NodeSlot c) \<Rightarrow> None
       | Some (ValueSlot v) \<Rightarrow> let key = child_key p i 0 in if key \<le> target then Some (key, v) else None) =
      (case slots node ! i of None \<Rightarrow> None | Some (NodeSlot c) \<Rightarrow> None | Some (ValueSlot v) \<Rightarrow> Some (child_key p i 0, v))"
    proof (cases "\<exists>v. slots node ! i = Some (ValueSlot v)")
      case True
      then have "unat p + i < 2 ^ 64" using 0(1,3) i by (auto simp: keys_fit_def digit_lt)
      then have "child_key p i 0 \<le> target" using child_key_add [of 0 p i] 0 i by (simp add: keys_fit_def word_le_nat_alt)
      then show ?thesis by (simp add: get_slot_def Let_def split: option.split RSlot.split)
    qed (auto simp: get_slot_def split: option.splits RSlot.splits)
  qed (use 0 in simp_all)
next
  case (Suc l)
  let ?d = "digit a (Suc l)" and ?a = "a mod 64 ^ Suc l"
  let ?f = "\<lambda>i. case get_slot node i of
      Some (NodeSlot child) \<Rightarrow>
        let key = child_key p i (Suc l) in if i = ?d then find_floor l key target child else find_last l key child
    | _ \<Rightarrow> None"
  have ti: "key_index target (Suc l) = ?d" by (rule target_digit [OF Suc.prems(1,2)])
  have "greatest_to a (Suc l) node p (first_some ?f (rev [0..<Suc ?d]))"
  proof (rule greatest_inner [OF Suc.prems(3) refl, where q = "\<lambda>i. child_key p i (Suc l)"])
    fix i c assume i: "i \<le> ?d" and c: "slots node ! i = Some (NodeSlot c)"
    have i64: "i < 64" using i digit_less(1) [of a "Suc l"] by linarith
    show "greatest_to (if i = ?d then ?a else 64 ^ Suc l - 1) l c (child_key p i (Suc l)) (?f i) \<and>
      (?f i \<noteq> None \<longrightarrow> unat (child_key p i (Suc l)) = unat p + i * 64 ^ Suc l)"
    proof (cases "i = ?d")
      case True
      have sp: "a = i * 64 ^ Suc l + ?a" using digit_split [OF Suc.prems(3)] True by simp
      note cp = child_prefix [OF Suc.prems(1) i64 c target_room [OF Suc.prems(2) sp]]
      have "greatest_to ?a l c (child_key p i (Suc l)) (find_floor l (child_key p i (Suc l)) target c)"
        using Suc.prems(2) sp cp(1) by (intro Suc.IH cp(2)) simp_all
      then show ?thesis using True c cp(1) by (simp add: get_slot_def del: power_Suc)
    next
      case False
      note greatest_below [OF Suc.prems(1) i64 c refl find_last_spec]
      then show ?thesis using False c by (simp add: get_slot_def del: power_Suc)
    qed
  qed (auto simp: get_slot_def split: option.splits RSlot.splits)
  then show ?case unfolding find_floor.simps ti RADIX_def .
qed

section \<open>The order of iteration\<close>

text \<open>The entries below a node from slot \<open>s\<close> on, when the slots of a child start after the index of the child.\<close>

fun visit :: "nat \<Rightarrow> usize \<Rightarrow> nat \<Rightarrow> 'v RNode \<Rightarrow> (usize \<times> 'v) list" where
  "visit 0 p s node =
     concat (map (\<lambda>i. case get_slot node i of Some (ValueSlot v) \<Rightarrow> [(child_key p i 0, v)] | _ \<Rightarrow> []) [s..<RADIX])"
| "visit (Suc l) p s node =
     concat (map (\<lambda>i. case get_slot node i of
         Some (NodeSlot c) \<Rightarrow> visit l (child_key p i (Suc l)) (Suc i) c | _ \<Rightarrow> []) [s..<RADIX])"

definition visit_slot :: "nat \<Rightarrow> usize \<Rightarrow> nat \<Rightarrow> 'v RSlot \<Rightarrow> (usize \<times> 'v) list" where
  "visit_slot l p i slot = (case slot of
     ValueSlot v \<Rightarrow> if l = 0 then [(child_key p i l, v)] else []
   | NodeSlot c \<Rightarrow> if l = 0 then [] else visit (l - 1) (child_key p i l) (Suc i) c)"

lemma visit_eq: "visit l p s node = concat (map (\<lambda>i. case get_slot node i of Some slot \<Rightarrow> visit_slot l p i slot | None \<Rightarrow> []) [s..<RADIX])"
  by (cases l) (auto simp: visit_slot_def intro!: arg_cong [of _ _ concat] split: option.splits RSlot.splits)

lemma visit_unfit: "\<not> fits_at l node i \<Longrightarrow> (case get_slot node i of Some slot \<Rightarrow> visit_slot l p i slot | None \<Rightarrow> []) = []"
  by (auto simp: fits_at_def slot_fits_def visit_slot_def split: option.splits RSlot.splits)

lemma visit_scan:
  "case scan_slots node l s of
     (None, index) \<Rightarrow> visit l p s node = []
   | (Some (i, slot), index) \<Rightarrow> visit l p s node = visit_slot l p i slot @ visit l p index node"
proof (cases "s \<le> RADIX")
  case True
  from scan_slots_spec [OF True, of l node] show ?thesis
  proof
    assume *: "(\<forall>j \<in> {s..<RADIX}. \<not> fits_at l node j) \<and> scan_slots node l s = (None, RADIX)"
    then show ?thesis by (simp add: visit_eq visit_unfit)
  next
    assume "\<exists>i slot. s \<le> i \<and> i < RADIX \<and> (\<forall>j \<in> {s..<i}. \<not> fits_at l node j) \<and> get_slot node i = Some slot \<and>
      slot_fits l slot \<and> scan_slots node l s = (Some (i, slot), Suc i)"
    then obtain i slot where i: "s \<le> i" "i < RADIX" "\<forall>j \<in> {s..<i}. \<not> fits_at l node j" "get_slot node i = Some slot"
      "scan_slots node l s = (Some (i, slot), Suc i)" by blast
    have "[s..<RADIX] = [s..<i] @ i # [Suc i..<RADIX]" using i(1,2) by (metis less_imp_le_nat upt_conv_Cons upt_split)
    then show ?thesis using i by (simp add: visit_eq visit_unfit)
  qed
next
  case False
  then show ?thesis by (simp add: scan_slots.simps [of node l s] visit_eq)
qed

definition visit_stack :: "'v IterState list \<Rightarrow> (usize \<times> 'v) list" where
  "visit_stack stack = concat (map (\<lambda>st. visit (it_level st) (it_prefix st) (it_index st) (it_node st)) stack)"

lemma visit_end: "RADIX \<le> s \<Longrightarrow> visit l p s node = []"
  by (simp add: visit_eq)

lemma visit_settle: "visit_stack (iter_settle index (st # rest)) = visit_stack (st\<lparr>it_index := index\<rparr> # rest)"
  by (simp add: iter_settle_def visit_stack_def visit_end)

lemma iter_loop_visit:
  "visit_stack stack = (case iter_loop stack of (None, _) \<Rightarrow> [] | (Some kv, stack') \<Rightarrow> kv # visit_stack stack')"
proof (induction stack rule: iter_loop.induct)
  case (2 st rest)
  obtain r index where sc: "scan_slots (it_node st) (it_level st) (it_index st) = (r, index)" by force
  note vs = visit_scan [where node = "it_node st" and l = "it_level st" and s = "it_index st" and p = "it_prefix st", unfolded sc]
  show ?case
  proof (cases r)
    case None
    then have "visit_stack (st # rest) = visit_stack (iter_settle index (st\<lparr>it_index := index\<rparr> # rest))"
      using vs scan_slots_result [OF sc] by (simp add: visit_settle) (simp add: visit_stack_def visit_end)
    then show ?thesis using 2(1) [OF sc [symmetric] None] sc None by simp
  next
    case (Some a)
    obtain i slot where a: "a = (i, slot)" by force
    note res = scan_slots_result [OF sc, unfolded Some a]
    show ?thesis
    proof (cases slot)
      case (NodeSlot child)
      have "visit_stack (st # rest) = visit_stack (iter_settle index (iter_push st i child index rest))"
        using vs res Some a NodeSlot unfolding iter_push_def visit_settle
        by (simp add: visit_stack_def visit_slot_def slot_fits_def)
      then show ?thesis using 2(2) [OF sc [symmetric] Some a [symmetric] NodeSlot] sc Some a NodeSlot by simp
    next
      case (ValueSlot v)
      then show ?thesis
        using vs res Some a sc by (simp add: visit_stack_def visit_slot_def slot_fits_def)
    qed
  qed
qed (simp add: visit_stack_def)

lemma iter_collect_visit: "rt_iter_collect stack = visit_stack stack"
proof (induction stack rule: rt_iter_collect.induct)
  case (1 stack)
  obtain r stack' where "iter_loop stack = (r, stack')" by force
  then show ?case
    using 1 iter_loop_visit [of stack] by (subst rt_iter_collect.simps) (cases r; auto)
qed

definition rising :: "nat \<Rightarrow> nat \<Rightarrow> bool" where
  "rising l k \<longleftrightarrow> (\<forall>m < l. digit k (Suc m) < digit k m)"

text \<open>The entries below a node in the order of their keys, those whose digits rise from slot \<open>s\<close> on.\<close>

definition visited :: "nat \<Rightarrow> usize \<Rightarrow> nat \<Rightarrow> 'v RNode \<Rightarrow> (usize \<times> 'v) list \<Rightarrow> bool" where
  "visited l p s node xs \<longleftrightarrow> sorted_wrt (<) (map fst xs) \<and>
     (\<forall>key v. (key, v) \<in> set xs \<longleftrightarrow>
        (\<exists>k < 64 ^ Suc l. unat key = unat p + k \<and> nget l node k = Some v \<and> s \<le> digit k l \<and> rising l k))"

lemma sorted_blocks:
  "(\<And>i. s \<le> i \<Longrightarrow> i < n \<Longrightarrow> sorted_wrt (<) (map fst (B i))) \<Longrightarrow>
   (\<And>i j x y. s \<le> i \<Longrightarrow> i < j \<Longrightarrow> j < n \<Longrightarrow> x \<in> set (B i) \<Longrightarrow> y \<in> set (B j) \<Longrightarrow> fst x < fst y) \<Longrightarrow>
   sorted_wrt (<) (map fst (concat (map B [s..<n])))"
proof (induction n)
  case (Suc n)
  show ?case
  proof (cases "s \<le> n")
    case True
    have "sorted_wrt (<) (map fst (concat (map B [s..<n])))"
    proof (rule Suc.IH)
      show "sorted_wrt (<) (map fst (B i))" if "s \<le> i" "i < n" for i using Suc.prems(1) [of i] that by simp
      show "fst x < fst y" if "s \<le> i" "i < j" "j < n" "x \<in> set (B i)" "y \<in> set (B j)" for i j x y
        using Suc.prems(2) [of i j x y] that by simp
    qed
    then show ?thesis using True Suc.prems(1) [of n] Suc.prems(2) [of _ n] by (auto simp: sorted_wrt_append)
  qed simp
qed simp

lemma visited_leaf:
  assumes "keys_fit 0 p node"
  shows "visited 0 p s node (visit 0 p s node)"
proof -
  let ?B = "\<lambda>i. case get_slot node i of Some (ValueSlot v) \<Rightarrow> [(child_key p i 0, v)] | _ \<Rightarrow> []"
  have key: "unat (child_key p i 0) = unat p + i" if "i < 64" "get_slot node i = Some (ValueSlot v)" for i v
    using child_key_add [of 0 p i] assms that by (auto simp: keys_fit_def get_slot_def digit_lt)
  have mem: "(key, v) \<in> set (?B i) \<longleftrightarrow> get_slot node i = Some (ValueSlot v) \<and> unat key = unat p + i" if "i < 64" for i key v
  proof (cases "\<exists>u. get_slot node i = Some (ValueSlot u)")
    case True
    then show ?thesis using key [OF that] by (auto simp: word_unat_eq_iff)
  qed (auto split: option.splits RSlot.splits dest: sym)
  have "sorted_wrt (<) (map fst (concat (map ?B [s..<64])))"
  proof (rule sorted_blocks)
    fix i j x y assume *: "i < j" "j < 64" "x \<in> set (?B i)" "y \<in> set (?B j)"
    then have "unat (fst x) = unat p + i" "unat (fst y) = unat p + j"
      using mem [of i "fst x" "snd x"] mem [of j "fst y" "snd y"] by simp_all
    then show "fst x < fst y" using *(1) by (simp add: word_less_nat_alt)
  qed (auto split: option.split RSlot.split)
  moreover have "(key, v) \<in> set (visit 0 p s node) \<longleftrightarrow>
      (\<exists>k < 64 ^ Suc 0. unat key = unat p + k \<and> nget 0 node k = Some v \<and> s \<le> digit k 0 \<and> rising 0 k)" for key v
  proof -
    have "(key, v) \<in> set (visit 0 p s node) \<longleftrightarrow> (\<exists>i < 64. s \<le> i \<and> (key, v) \<in> set (?B i))"
      by (auto simp: RADIX_def)
    also have "\<dots> \<longleftrightarrow> (\<exists>i < 64. s \<le> i \<and> get_slot node i = Some (ValueSlot v) \<and> unat key = unat p + i)" using mem by blast
    also have "\<dots> \<longleftrightarrow> (\<exists>k < 64 ^ Suc 0. unat key = unat p + k \<and> nget 0 node k = Some v \<and> s \<le> digit k 0 \<and> rising 0 k)"
      by (intro ex_cong1) (auto simp: rising_def digit_lt get_slot_def split: option.splits RSlot.splits)
    finally show ?thesis .
  qed
  ultimately show ?thesis by (simp add: visited_def RADIX_def)
qed

lemma rising_Suc: "rising (Suc l) k \<longleftrightarrow> digit k (Suc l) < digit k l \<and> rising l k"
  by (auto simp: rising_def less_Suc_eq)

lemma rising_mod: "rising l (k mod 64 ^ Suc l) = rising l k"
  by (simp add: rising_def digit_mod del: power_Suc)

lemma visit_empty: "(\<And>k. nget l node k = None) \<Longrightarrow> visit l p s node = []"
proof (induction l arbitrary: p s node)
  case 0
  have "get_slot node i \<noteq> Some (ValueSlot v)" if "i < 64" for i v using 0 [of i] that by (auto simp: digit_lt get_slot_def)
  then show ?case by (auto simp: RADIX_def split: option.splits RSlot.splits)
next
  case (Suc l)
  have "visit l q s' c = []" if "i < 64" "slots node ! i = Some (NodeSlot c)" for i c q s'
    using Suc.IH [of c] empty_children [OF Suc.prems that] by blast
  then show ?case by (auto simp: RADIX_def get_slot_def split: option.splits RSlot.splits)
qed

text \<open>The block of one child.\<close>

lemma visit_block:
  assumes fit: "keys_fit (Suc l) p node" and i: "i < 64"
    and IH: "\<And>p s (node :: 'v RNode). keys_fit l p node \<Longrightarrow> visited l p s node (visit l p s node)"
    and B: "B = (case get_slot node i of Some (NodeSlot c) \<Rightarrow> visit l (child_key p i (Suc l)) (Suc i) (c :: 'v RNode) | _ \<Rightarrow> [])"
  shows "sorted_wrt (<) (map fst B)"
    "(key, v) \<in> set B \<longleftrightarrow> (\<exists>k < 64 ^ Suc (Suc l). digit k (Suc l) = i \<and> unat key = unat p + k \<and> nget (Suc l) node k = Some v \<and> rising (Suc l) k)"
proof -
  let ?m = "64 ^ Suc l :: nat"
  have "sorted_wrt (<) (map fst B) \<and> ((key, v) \<in> set B \<longleftrightarrow>
    (\<exists>k < 64 ^ Suc (Suc l). digit k (Suc l) = i \<and> unat key = unat p + k \<and> nget (Suc l) node k = Some v \<and> rising (Suc l) k))"
  proof (cases "\<exists>c k. slots node ! i = Some (NodeSlot c) \<and> nget l c k \<noteq> None")
    case True
    then obtain c k0 where c: "slots node ! i = Some (NodeSlot c)" "nget l c k0 \<noteq> None" by blast
    note cp = child_prefix [OF fit i c(1) child_room [OF fit i c]]
    have B': "B = visit l (child_key p i (Suc l)) (Suc i) c" using B c(1) by (simp add: get_slot_def)
    note vis = IH [OF cp(2), of "Suc i", unfolded visited_def B' [symmetric] cp(1)]
    have "(key, v) \<in> set B \<longleftrightarrow> (\<exists>j < ?m. unat key = unat p + i * ?m + j \<and> nget l c j = Some v \<and> Suc i \<le> digit j l \<and> rising l j)"
      using vis by blast
    also have "\<dots> \<longleftrightarrow> (\<exists>k < 64 ^ Suc (Suc l). digit k (Suc l) = i \<and> unat key = unat p + k \<and> nget (Suc l) node k = Some v \<and> rising (Suc l) k)"
    proof
      assume "\<exists>j < ?m. unat key = unat p + i * ?m + j \<and> nget l c j = Some v \<and> Suc i \<le> digit j l \<and> rising l j"
      then obtain j where j: "j < ?m" "unat key = unat p + i * ?m + j" "nget l c j = Some v" "Suc i \<le> digit j l" "rising l j" by blast
      note dc = digit_combine [OF i j(1)]
      have "digit (i * ?m + j) l = digit j l" "rising l (i * ?m + j)"
        using digit_mod [of l "Suc l" "i * ?m + j"] rising_mod [of l "i * ?m + j"] dc(2) j(5) by (simp_all del: power_Suc)
      then show "\<exists>k < 64 ^ Suc (Suc l). digit k (Suc l) = i \<and> unat key = unat p + k \<and> nget (Suc l) node k = Some v \<and> rising (Suc l) k"
        using j dc nget_child [OF i j(1) c(1)] by (intro exI [of _ "i * ?m + j"]) (simp add: rising_Suc del: nget.simps power_Suc)
    next
      assume "\<exists>k < 64 ^ Suc (Suc l). digit k (Suc l) = i \<and> unat key = unat p + k \<and> nget (Suc l) node k = Some v \<and> rising (Suc l) k"
      then obtain k where k: "k < 64 ^ Suc (Suc l)" "digit k (Suc l) = i" "unat key = unat p + k" "nget (Suc l) node k = Some v" "rising (Suc l) k"
        by blast
      have ks: "k = i * ?m + k mod ?m" using digit_split [OF k(1)] k(2) by simp
      have "nget l c (k mod ?m) = Some v" using k(2,4) c(1) by (simp only: nget.simps nget_mod) simp
      moreover have "digit (k mod ?m) l = digit k l" by (simp add: digit_mod del: power_Suc)
      moreover have "unat key = unat p + i * ?m + k mod ?m" using k(3) ks by linarith
      ultimately show "\<exists>j < ?m. unat key = unat p + i * ?m + j \<and> nget l c j = Some v \<and> Suc i \<le> digit j l \<and> rising l j"
        using k(2,5) by (intro exI [of _ "k mod ?m"]) (simp add: rising_Suc rising_mod Suc_leI del: power_Suc)
    qed
    finally show ?thesis using vis by blast
  next
    case False
    then have "B = []" unfolding B using visit_empty by (fastforce simp: get_slot_def split: option.splits RSlot.splits)
    moreover have "nget (Suc l) node k = None" if "digit k (Suc l) = i" for k
      using False that by (auto split: option.splits RSlot.splits)
    ultimately show ?thesis by auto
  qed
  then show "sorted_wrt (<) (map fst B)"
    "(key, v) \<in> set B \<longleftrightarrow> (\<exists>k < 64 ^ Suc (Suc l). digit k (Suc l) = i \<and> unat key = unat p + k \<and> nget (Suc l) node k = Some v \<and> rising (Suc l) k)"
    by blast+
qed

lemma visited_visit: "keys_fit l p node \<Longrightarrow> visited l p s node (visit l p s node)"
proof (induction l arbitrary: p s node)
  case 0
  then show ?case by (rule visited_leaf)
next
  case (Suc l)
  let ?B = "\<lambda>i. case get_slot node i of Some (NodeSlot c) \<Rightarrow> visit l (child_key p i (Suc l)) (Suc i) c | _ \<Rightarrow> []"
  note block = visit_block [OF Suc.prems _ Suc.IH refl]
  have "sorted_wrt (<) (map fst (concat (map ?B [s..<64])))"
  proof (rule sorted_blocks)
    fix i j x y assume *: "i < j" "j < 64" "x \<in> set (?B i)" "y \<in> set (?B j)"
    obtain a where a: "a < 64 ^ Suc (Suc l)" "digit a (Suc l) = i" "unat (fst x) = unat p + a"
      using block(2) [of i "fst x" "snd x"] * by auto
    obtain b where b: "b < 64 ^ Suc (Suc l)" "digit b (Suc l) = j" "unat (fst y) = unat p + b"
      using block(2) [of j "fst y" "snd y"] * by auto
    have "\<not> b \<le> a" using lex_le [OF b(1) a(1)] a(2) b(2) *(1) by simp
    then show "fst x < fst y" using a(3) b(3) by (simp add: word_less_nat_alt)
  qed (rule block(1))
  moreover have "(key, v) \<in> set (visit (Suc l) p s node) \<longleftrightarrow>
      (\<exists>k < 64 ^ Suc (Suc l). unat key = unat p + k \<and> nget (Suc l) node k = Some v \<and> s \<le> digit k (Suc l) \<and> rising (Suc l) k)" for key v
  proof -
    have "(key, v) \<in> set (visit (Suc l) p s node) \<longleftrightarrow> (\<exists>i < 64. s \<le> i \<and> (key, v) \<in> set (?B i))"
      by (auto simp: RADIX_def)
    then show ?thesis using block(2) [where key = key and v = v] digit_less(1) [of _ "Suc l"] by metis
  qed
  ultimately show ?case by (simp add: visited_def RADIX_def del: power_Suc nget.simps)
qed

end
