(* ===== verification/Radix_Map.thy ===== *)
theory Radix_Map
  imports Radix_Order
begin

text \<open>
  The contract of the radix tree for its clients: a map with insertion and removal, the ordered queries, and the
  entries that an iteration visits.
\<close>

section \<open>The map interface\<close>

datatype 'v map_op = Put usize 'v | Take usize

fun map_run :: "(usize \<Rightarrow> 'v \<Rightarrow> 't \<Rightarrow> ('v option \<times> 't) option) \<Rightarrow> (usize \<Rightarrow> 't \<Rightarrow> ('v option \<times> 't) option) \<Rightarrow>
    'v map_op list \<Rightarrow> 't \<Rightarrow> ('v option list \<times> 't) option" where
  "map_run ins del [] t = Some ([], t)"
| "map_run ins del (Put k v # ops) t = do { (r, t) \<leftarrow> ins k v t; (rs, t) \<leftarrow> map_run ins del ops t; Some (r # rs, t) }"
| "map_run ins del (Take k # ops) t = do { (r, t) \<leftarrow> del k t; (rs, t) \<leftarrow> map_run ins del ops t; Some (r # rs, t) }"

text \<open>The same operations on a map: each returns the value that was there.\<close>

fun map_outputs :: "'v map_op list \<Rightarrow> (usize \<rightharpoonup> 'v) \<Rightarrow> 'v option list" where
  "map_outputs [] m = []"
| "map_outputs (Put k v # ops) m = m k # map_outputs ops (m(k \<mapsto> v))"
| "map_outputs (Take k # ops) m = m k # map_outputs ops (m(k := None))"

fun map_result :: "'v map_op list \<Rightarrow> (usize \<rightharpoonup> 'v) \<Rightarrow> (usize \<rightharpoonup> 'v)" where
  "map_result [] m = m"
| "map_result (Put k v # ops) m = map_result ops (m(k \<mapsto> v))"
| "map_result (Take k # ops) m = map_result ops (m(k := None))"

locale index_map =
  fixes ok :: "'t \<Rightarrow> bool"
    and get :: "'t \<Rightarrow> usize \<Rightarrow> 'v option"
    and ins :: "usize \<Rightarrow> 'v \<Rightarrow> 't \<Rightarrow> ('v option \<times> 't) option"
    and del :: "usize \<Rightarrow> 't \<Rightarrow> ('v option \<times> 't) option"
  assumes ins_law: "ok t \<Longrightarrow> \<exists>t'. ins k v t = Some (get t k, t') \<and> ok t' \<and> get t' = (get t)(k \<mapsto> v)"
    and del_law: "ok t \<Longrightarrow> \<exists>t'. del k t = Some (get t k, t') \<and> ok t' \<and> get t' = (get t)(k := None)"
begin

lemma run_refines:
  "ok t \<Longrightarrow> \<exists>t'. map_run ins del ops t = Some (map_outputs ops (get t), t') \<and> ok t' \<and> get t' = map_result ops (get t)"
proof (induction ops arbitrary: t)
  case (Cons op ops)
  show ?case
  proof (cases op)
    case (Put k v)
    obtain t1 where t1: "ins k v t = Some (get t k, t1)" "ok t1" "get t1 = (get t)(k \<mapsto> v)" using ins_law [OF Cons.prems] by blast
    from Cons.IH [OF t1(2)] show ?thesis unfolding Put t1(3) using t1(1) by (auto simp: fun_upd_def)
  next
    case (Take k)
    obtain t1 where t1: "del k t = Some (get t k, t1)" "ok t1" "get t1 = (get t)(k := None)" using del_law [OF Cons.prems] by blast
    from Cons.IH [OF t1(2)] show ?thesis unfolding Take t1(3) using t1(1) by (auto simp: fun_upd_def)
  qed
qed simp

end

interpretation rt: index_map rt_ok rt_get rt_insert rt_remove
proof
  fix t :: "'a RadixTree" and k v
  assume ok: "rt_ok t"
  show "\<exists>t'. rt_insert k v t = Some (rt_get t k, t') \<and> rt_ok t' \<and> rt_get t' = (rt_get t)(k \<mapsto> v)"
    by (rule rt_insert_spec [OF ok, of k v]) blast
  show "\<exists>t'. rt_remove k t = Some (rt_get t k, t') \<and> rt_ok t' \<and> rt_get t' = (rt_get t)(k := None)"
    by (rule rt_remove_spec [OF ok, of k]) blast
qed

text \<open>
  C7: any sequence of insertions and removals on the empty tree runs without a panic, returns for every operation
  the value that was stored under the key, and leaves a well-formed tree that holds exactly the
  resulting map, with \<^verbatim>\<open>len\<close> the number of its keys.
\<close>

theorem radix_refines_map:
  "\<exists>t. map_run rt_insert rt_remove ops rt_new = Some (map_outputs ops Map.empty, t) \<and> rt_ok t \<and>
     rt_get t = map_result ops Map.empty \<and> rt_len t = card (dom (map_result ops Map.empty))"
proof -
  obtain t where t: "map_run rt_insert rt_remove ops rt_new = Some (map_outputs ops (rt_get rt_new), t)" "rt_ok t"
    "rt_get t = map_result ops (rt_get rt_new)"
    using rt.run_refines [OF rt_ok_new(1)] by blast
  then show ?thesis using rt_len_card [OF t(2)] by (auto simp: rt_ok_new(2))
qed

section \<open>Ordered queries\<close>

definition least_entry :: "(usize \<rightharpoonup> 'v) \<Rightarrow> (usize \<Rightarrow> bool) \<Rightarrow> (usize \<times> 'v) option \<Rightarrow> bool" where
  "least_entry m P r = (case r of
     None \<Rightarrow> \<forall>k. P k \<longrightarrow> m k = None
   | Some (k, v) \<Rightarrow> P k \<and> m k = Some v \<and> (\<forall>j. P j \<and> j < k \<longrightarrow> m j = None))"

definition greatest_entry :: "(usize \<rightharpoonup> 'v) \<Rightarrow> (usize \<Rightarrow> bool) \<Rightarrow> (usize \<times> 'v) option \<Rightarrow> bool" where
  "greatest_entry m P r = (case r of
     None \<Rightarrow> \<forall>k. P k \<longrightarrow> m k = None
   | Some (k, v) \<Rightarrow> P k \<and> m k = Some v \<and> (\<forall>j. P j \<and> k < j \<longrightarrow> m j = None))"

lemma root_fits:
  assumes "rt_ok t" "rt_root t = Some r" "rt_height t = Suc l"
  shows "keys_fit l 0 r"
  using assms by (auto simp: rt_ok_def keys_fit_def ndom_def)

lemma least_from_tree:
  assumes "rt_root t = Some r" "rt_height t = Suc l" "least_from (unat x) l r 0 res"
  shows "least_entry (rt_get t) (\<lambda>k. x \<le> k) res"
proof -
  note get = rt_get_node [OF assms(1,2)]
  show ?thesis
  proof (cases res)
    case None
    then show ?thesis using assms(3) by (auto simp: least_from_def least_entry_def get word_le_nat_alt simp del: power_Suc)
  next
    case (Some kv)
    then show ?thesis
      using assms(3) by (cases kv) (auto simp: least_from_def least_entry_def get word_le_nat_alt word_less_nat_alt simp del: power_Suc)
  qed
qed

lemma greatest_to_tree:
  assumes "rt_root t = Some r" "rt_height t = Suc l" "greatest_to a l r 0 res" "a < 64 ^ Suc l"
    and P: "\<And>k. unat k < 64 ^ Suc l \<Longrightarrow> P k \<longleftrightarrow> unat k \<le> a"
  shows "greatest_entry (rt_get t) P res"
proof -
  note get = rt_get_node [OF assms(1,2)]
  show ?thesis
  proof (cases res)
    case None
    then show ?thesis using assms(3) P by (auto simp: greatest_to_def greatest_entry_def get simp del: power_Suc)
  next
    case (Some kv)
    then show ?thesis
      using assms(3,4) P by (cases kv) (auto simp: greatest_to_def greatest_entry_def get word_less_nat_alt simp del: power_Suc)
  qed
qed

lemma rt_first_last:
  assumes "rt_ok t"
  shows "least_entry (rt_get t) (\<lambda>_. True) (rt_first t)" "greatest_entry (rt_get t) (\<lambda>_. True) (rt_last t)"
proof -
  have "least_entry (rt_get t) (\<lambda>_. True) (rt_first t) \<and> greatest_entry (rt_get t) (\<lambda>_. True) (rt_last t)"
    using assms
  proof (cases rule: rt_okE)
    case empty
    then show ?thesis by (simp add: rt_first_def rt_last_def least_entry_def greatest_entry_def rt_get_empty)
  next
    case (node r l)
    note fit = root_fits [OF assms node(1,2)]
    have a: "(64 :: nat) ^ Suc l - 1 < 64 ^ Suc l" by simp
    have "least_entry (rt_get t) (\<lambda>k. 0 \<le> k) (rt_first t)"
      using least_from_tree [OF node(1,2), of 0] find_first_spec [OF fit] node(1,2) by (simp add: rt_first_def)
    moreover have "greatest_entry (rt_get t) (\<lambda>_. True) (rt_last t)"
      using greatest_to_tree [OF node(1,2) find_last_spec [OF fit] a] node(1,2) by (simp add: rt_last_def Suc_le_eq [symmetric])
    ultimately show ?thesis by simp
  qed
  then show "least_entry (rt_get t) (\<lambda>_. True) (rt_first t)" "greatest_entry (rt_get t) (\<lambda>_. True) (rt_last t)" by blast+
qed

lemma rt_neighbours:
  assumes "rt_ok t" "unat x < 64 ^ rt_height t"
  shows "least_entry (rt_get t) (\<lambda>k. x \<le> k) (rt_lower_bound t x)" "greatest_entry (rt_get t) (\<lambda>k. k \<le> x) (rt_floor t x)"
proof -
  have "least_entry (rt_get t) (\<lambda>k. x \<le> k) (rt_lower_bound t x) \<and> greatest_entry (rt_get t) (\<lambda>k. k \<le> x) (rt_floor t x)"
    using assms(1)
  proof (cases rule: rt_okE)
    case empty
    then show ?thesis by (simp add: rt_lower_bound_def rt_floor_def least_entry_def greatest_entry_def rt_get_empty)
  next
    case (node r l)
    note fit = root_fits [OF assms(1) node(1,2)]
    have x: "unat x < 64 ^ Suc l" using assms(2) node(2) by simp
    have "least_entry (rt_get t) (\<lambda>k. x \<le> k) (rt_lower_bound t x)"
      using least_from_tree [OF node(1,2) find_lower_bound_spec [OF fit _ x]] node(1,2) by (simp add: rt_lower_bound_def)
    moreover have "greatest_entry (rt_get t) (\<lambda>k. k \<le> x) (rt_floor t x)"
      using greatest_to_tree [OF node(1,2) find_floor_spec [OF fit _ x] x] node(1,2) by (simp add: rt_floor_def word_le_nat_alt)
    ultimately show ?thesis by simp
  qed
  then show "least_entry (rt_get t) (\<lambda>k. x \<le> k) (rt_lower_bound t x)" "greatest_entry (rt_get t) (\<lambda>k. k \<le> x) (rt_floor t x)" by blast+
qed

lemma rt_gap_spec:
  "case rt_find_first_gap_from t x of
     None \<Rightarrow> \<forall>k. x \<le> k \<longrightarrow> rt_get t k \<noteq> None
   | Some k \<Rightarrow> x \<le> k \<and> rt_get t k = None \<and> (\<forall>j. x \<le> j \<and> j < k \<longrightarrow> rt_get t j \<noteq> None)"
proof (induction t x rule: rt_find_first_gap_from.induct)
  case (1 t x)
  show ?case
  proof (cases "rt_contains t x")
    case False
    then show ?thesis by (subst rt_find_first_gap_from.simps) (auto simp: rt_contains_def)
  next
    case True
    then have x: "rt_get t x \<noteq> None" by (simp add: rt_contains_def)
    show ?thesis
    proof (cases "u64_checked_add x 1")
      case None
      then have "unat x = 2 ^ 64 - 1" using unat_less_2p64 [of x] by (simp add: u64_checked_add_def del: unat_less_2p64 split: if_splits)
      then have "k = x" if "x \<le> k" for k using that unat_less_2p64 [of k] by (simp add: word_le_nat_alt word_unat_eq_iff del: unat_less_2p64)
      then show ?thesis using True None x by (subst rt_find_first_gap_from.simps) auto
    next
      case (Some y)
      then have y: "unat y = Suc (unat x)" by (auto simp: u64_checked_add_eq_Some unat_word_ariths)
      have after: "x \<le> k \<longleftrightarrow> k = x \<or> y \<le> k" for k using y by (auto simp: word_le_nat_alt word_unat_eq_iff)
      have eq: "rt_find_first_gap_from t x = rt_find_first_gap_from t y"
        using True Some by (subst rt_find_first_gap_from.simps) simp
      show ?thesis
        using 1 [OF _ Some] True x unfolding eq after by (cases "rt_find_first_gap_from t y") auto
    qed
  qed
qed

text \<open>
  C39: on a well-formed tree \<^verbatim>\<open>first\<close> and \<^verbatim>\<open>last\<close> return the entries with the smallest and largest key, and the first
  free index from any start on is found, or there is none. For an index below the capacity
  \<open>64 ^ height\<close> of the tree, \<^verbatim>\<open>lower_bound\<close> returns the entry with the smallest key not below it and \<^verbatim>\<open>floor\<close>
  the one with the largest key not above it. (For larger indices both can be wrong.)
\<close>

theorem radix_queries:
  assumes "rt_ok t"
  shows "least_entry (rt_get t) (\<lambda>_. True) (rt_first t) \<and> greatest_entry (rt_get t) (\<lambda>_. True) (rt_last t) \<and>
    (case rt_find_first_gap_from t x of
       None \<Rightarrow> \<forall>k. x \<le> k \<longrightarrow> rt_get t k \<noteq> None
     | Some k \<Rightarrow> x \<le> k \<and> rt_get t k = None \<and> (\<forall>j. x \<le> j \<and> j < k \<longrightarrow> rt_get t j \<noteq> None)) \<and>
    (unat x < 64 ^ rt_height t \<longrightarrow>
       least_entry (rt_get t) (\<lambda>k. x \<le> k) (rt_lower_bound t x) \<and> greatest_entry (rt_get t) (\<lambda>k. k \<le> x) (rt_floor t x))"
  using rt_first_last [OF assms] rt_gap_spec [where t = t and x = x] rt_neighbours [OF assms] by blast

definition demo_tree :: "nat RadixTree" where
  "demo_tree = the (rt_from_iter [(0, 1), (64, 2), (66, 3)])"

lemma demo_tree_shape: "rt_height demo_tree = 2" "rt_get demo_tree 64 = Some 2" "rt_len demo_tree = 3"
  by code_simp+

lemma rt_extend_ok: "rt_ok t \<Longrightarrow> \<exists>t'. rt_extend items t = Some t' \<and> rt_ok t'"
proof (induction items arbitrary: t)
  case (Cons kv items)
  obtain k v where kv: "kv = (k, v)" by force
  show ?case by (rule rt_insert_spec [OF Cons.prems, of k v]) (use Cons.IH kv in auto)
qed simp

lemma demo_tree_ok: "rt_ok demo_tree"
  using rt_extend_ok [OF rt_ok_new(1), of "[(0, 1 :: nat), (64, 2), (66, 3)]"] by (auto simp: demo_tree_def rt_from_iter_def)

theorem radix_queries_witness:
  "rt_ok demo_tree \<and> greatest_entry (rt_get demo_tree) (\<lambda>k. k \<le> 65) (rt_floor demo_tree 65) \<and> rt_floor demo_tree 65 = Some (64, 2)"
proof -
  have "rt_floor demo_tree 65 = Some (64, 2)" by code_simp
  then show ?thesis using radix_queries [OF demo_tree_ok, of 65] demo_tree_ok by (simp add: demo_tree_shape)
qed

text \<open>
  An index beyond the capacity is reduced to its low digits: the lower bound of 4096 in a tree with keys below
  4096 is a smaller key, \<^verbatim>\<open>first_in_range\<close> returns a key outside of the range, and the floor of 4096 is
  not found.
\<close>

lemma radix_beyond_capacity:
  "rt_lower_bound demo_tree 4096 = Some (64, 2)" "rt_first_in_range demo_tree 4096 5000 = Some (64, 2)"
  "rt_floor demo_tree 4096 = Some (0, 1)"
  by code_simp+

section \<open>Iteration\<close>

lemma rt_iter_spec:
  assumes "rt_ok t"
  shows "sorted_wrt (<) (map fst (rt_iter t)) \<and> rt_iter_mut t = rt_iter t \<and>
    (\<forall>k v. (k, v) \<in> set (rt_iter t) \<longleftrightarrow> rt_get t k = Some v \<and> rising (rt_height t - 1) (unat k))"
proof -
  have "iter_mut_collect stack = rt_iter_collect stack" for stack :: "'a IterState list"
  proof (induction stack rule: rt_iter_collect.induct)
    case (1 stack)
    then show ?case by (subst iter_mut_collect.simps, subst rt_iter_collect.simps) (auto simp: iter_mut_loop_eq split: prod.split option.split)
  qed
  then have mut: "rt_iter_mut t = rt_iter t" by (simp add: rt_iter_mut_def rt_iter_def)
  show ?thesis
    using assms
  proof (cases rule: rt_okE)
    case empty
    then show ?thesis unfolding mut by (simp add: rt_iter_def iter_start_def iter_collect_visit visit_stack_def rt_get_empty)
  next
    case (node r l)
    have "rt_iter t = visit l 0 0 r" using node by (simp add: rt_iter_def iter_start_def iter_collect_visit visit_stack_def)
    then have "visited l 0 0 r (rt_iter t)" using visited_visit [OF root_fits [OF assms node(1,2)]] by simp
    then show ?thesis
      unfolding mut using node(2) by (auto simp: visited_def rt_get_node [OF node(1,2)] simp del: power_Suc)
  qed
qed

lemma rt_iter_one_level:
  assumes "rt_ok t" "rt_height t \<le> 1"
  shows "(k, v) \<in> set (rt_iter t) \<longleftrightarrow> rt_get t k = Some v"
  using rt_iter_spec [OF assms(1)] assms(2) by (simp add: rising_def)

text \<open>
  C40: an iteration over a well-formed tree visits entries of the tree in the order of their keys, each once; it visits
  exactly the entries whose key has base-64 digits that rise strictly from the most to the least
  significant one. In a tree of height 1 that is every entry; in a higher tree entries are missed.
\<close>

theorem radix_iter_exact:
  assumes "rt_ok t"
  shows "sorted_wrt (<) (map fst (rt_iter t)) \<and> rt_iter_mut t = rt_iter t \<and>
    (\<forall>k v. (k, v) \<in> set (rt_iter t) \<longleftrightarrow> rt_get t k = Some v \<and> rising (rt_height t - 1) (unat k))"
  using assms by (rule rt_iter_spec)

theorem radix_iter_exact_witness:
  "rt_ok demo_tree \<and> rt_get demo_tree 64 = Some 2 \<and> (64, 2) \<notin> set (rt_iter demo_tree) \<and> rt_iter demo_tree = [(66, 3)]"
proof -
  have "rt_iter demo_tree = [(66, 3)]" by code_simp
  moreover have "\<not> rising 1 (unat (64 :: usize))" by (simp add: rising_def digit_def)
  ultimately show ?thesis
    using radix_iter_exact [OF demo_tree_ok] demo_tree_ok by (simp add: demo_tree_shape)
qed

text \<open>An empty range that ends before 0 still contains the key 0.\<close>

lemma radix_empty_range: "map_option (rt_range (Included 0) (Excluded 0)) (rt_from_iter [(0, 1 :: nat)]) = Some [(0, 1)]"
  by code_simp

end
