(* ===== verification/Process.thy ===== *)
theory Process
  imports Sched Radix_Tree
begin

text \<open>
  Processes: the process record (\<^verbatim>\<open>task/proc/process.rs\<close>), the task manager with spawning, exiting and waiting
  (\<^verbatim>\<open>task/runtime/manager.rs\<close>), signals (\<^verbatim>\<open>task/proc/signal.rs\<close>), the waiting loop (\<^verbatim>\<open>task/proc/wait.rs\<close>) and the
  flag checks of \<^verbatim>\<open>clone\<close> (\<^verbatim>\<open>task/proc/fork.rs\<close>), over the scheduler and the radix tree.
  A shared process is held by the tree of processes only, so the tree stores the record itself. Calls into the
  file system, the address spaces and the page tables are recorded in a list of effects. The CPU a
  call runs on is an argument.
\<close>

section \<open>Processes\<close>

datatype ProcessStatus = PRunning | PStopped | PExiting | PZombie

datatype ExecMappedPageKind = KSegment | KStack

record ExecMappedPage =
  ep_virt :: u64
  ep_phys :: u64
  ep_flags :: u64
  ep_kind :: ExecMappedPageKind

record Process =
  p_pid :: u64
  p_pgid :: u64
  p_mm :: u64
  p_is_clone_child :: bool
  p_name :: string
  p_last_exec_path :: string
  p_last_exec_argc :: nat
  p_last_exec_envc :: nat
  p_exec_request_seq :: u64
  p_status :: ProcessStatus
  p_parent :: "u64 option"
  p_parent_tid :: "u64 option"
  p_children :: "u64 list"
  p_tasks :: "nat list"
  p_exit_code :: "int option"
  p_wait_stop_signal :: "int option"
  p_wait_stop_reported :: bool
  p_wait_continued_pending :: bool
  p_exec_mappings :: "ExecMappedPage list"

definition new_kernel_with_pid :: "u64 \<Rightarrow> string \<Rightarrow> u64 \<Rightarrow> u64 \<Rightarrow> u64 option \<Rightarrow> u64 option \<Rightarrow> Process" where
  "new_kernel_with_pid init_mm name pid pgid parent parent_tid =
     \<lparr>p_pid = pid, p_pgid = pgid, p_mm = init_mm, p_is_clone_child = False, p_name = name, p_last_exec_path = name,
      p_last_exec_argc = 0, p_last_exec_envc = 0, p_exec_request_seq = 0, p_status = PRunning, p_parent = parent,
      p_parent_tid = parent_tid, p_children = [], p_tasks = [], p_exit_code = None, p_wait_stop_signal = None,
      p_wait_stop_reported = False, p_wait_continued_pending = False, p_exec_mappings = []\<rparr>"

definition proc_add_task :: "nat \<Rightarrow> Process \<Rightarrow> Process" where
  "proc_add_task t p = p\<lparr>p_tasks := p_tasks p @ [t]\<rparr>"

definition add_child :: "u64 \<Rightarrow> Process \<Rightarrow> Process" where
  "add_child child p = (if child \<in> set (p_children p) then p else p\<lparr>p_children := p_children p @ [child]\<rparr>)"

definition remove_child :: "u64 \<Rightarrow> Process \<Rightarrow> Process" where
  "remove_child child p =
     (case position (\<lambda>c. c = child) (p_children p) of
        Some i \<Rightarrow> p\<lparr>p_children := take i (p_children p) @ drop (Suc i) (p_children p)\<rparr>
      | None \<Rightarrow> p)"

definition mark_exiting :: "int \<Rightarrow> Process \<Rightarrow> Process" where
  "mark_exiting code p = p\<lparr>p_status := PExiting, p_exit_code := Some code, p_wait_stop_signal := None,
     p_wait_stop_reported := False, p_wait_continued_pending := False\<rparr>"

definition mark_zombie :: "Process \<Rightarrow> Process" where
  "mark_zombie p = p\<lparr>p_status := PZombie, p_wait_stop_signal := None,
     p_wait_stop_reported := False, p_wait_continued_pending := False\<rparr>"

definition mark_stopped :: "int \<Rightarrow> Process \<Rightarrow> Process" where
  "mark_stopped signal p = p\<lparr>p_status := PStopped, p_wait_stop_signal := Some signal,
     p_wait_stop_reported := False, p_wait_continued_pending := False\<rparr>"

definition mark_continued :: "Process \<Rightarrow> Process" where
  "mark_continued p = p\<lparr>p_status := PRunning, p_wait_stop_signal := None,
     p_wait_stop_reported := False, p_wait_continued_pending := True\<rparr>"

definition mark_wait_stopped_reported :: "Process \<Rightarrow> Process" where
  "mark_wait_stopped_reported p = p\<lparr>p_wait_stop_reported := True\<rparr>"

definition clear_wait_continued_pending :: "Process \<Rightarrow> Process" where
  "clear_wait_continued_pending p = p\<lparr>p_wait_continued_pending := False\<rparr>"

definition replace_exec_mappings :: "ExecMappedPage list \<Rightarrow> Process \<Rightarrow> ExecMappedPage list \<times> Process" where
  "replace_exec_mappings mappings p = (p_exec_mappings p, p\<lparr>p_exec_mappings := mappings\<rparr>)"

definition take_exec_mappings :: "Process \<Rightarrow> ExecMappedPage list \<times> Process" where
  "take_exec_mappings p = (p_exec_mappings p, p\<lparr>p_exec_mappings := []\<rparr>)"

definition record_exec_request :: "string \<Rightarrow> nat \<Rightarrow> nat \<Rightarrow> Process \<Rightarrow> Process" where
  "record_exec_request path argc envc p =
     p\<lparr>p_last_exec_path := path, p_last_exec_argc := argc, p_last_exec_envc := envc,
       p_exec_request_seq := u64_saturating_add (p_exec_request_seq p) 1, p_name := path, p_status := PRunning,
       p_wait_stop_signal := None, p_wait_stop_reported := False, p_wait_continued_pending := False\<rparr>"

section \<open>The task manager\<close>

text \<open>Calls into other parts of the kernel. A rollback unmaps the pages in the given address space and frees them.\<close>

datatype Effect =
    DropFds u64
  | MmRetain u64
  | MmClone u64
  | MmRelease u64
  | RollbackMappings u64 "ExecMappedPage list"

record Runtime =
  rm_sched :: Sched
  rm_tasks :: "nat RadixTree"
  rm_procs :: "Process RadixTree"
  rm_next_tid :: u64
  rm_next_pid :: u64
  rm_init_mm :: u64
  rm_effects :: "Effect list"

abbreviation task_of :: "Runtime \<Rightarrow> nat \<Rightarrow> Task" where
  "task_of k t \<equiv> s_tasks (rm_sched k) t"

definition emit :: "Effect \<Rightarrow> Runtime \<Rightarrow> Runtime" where
  "emit e k = k\<lparr>rm_effects := rm_effects k @ [e]\<rparr>"

definition current :: "nat \<Rightarrow> Runtime \<Rightarrow> nat option" where
  "current c k = current_task (rm_sched k) c"

definition current_pid :: "nat \<Rightarrow> Runtime \<Rightarrow> u64 option" where
  "current_pid c k = map_option (\<lambda>t. t_pid (task_of k t)) (current c k)"

definition find_process_by_pid :: "Runtime \<Rightarrow> u64 \<Rightarrow> Process option" where
  "find_process_by_pid k pid = rt_get (rm_procs k) pid"

definition current_pgid :: "nat \<Rightarrow> Runtime \<Rightarrow> u64 option" where
  "current_pgid c k = do { pid \<leftarrow> current_pid c k; map_option p_pgid (find_process_by_pid k pid) }"

text \<open>The address space of the current process, or the initial one.\<close>

definition current_mm_ptr :: "nat \<Rightarrow> Runtime \<Rightarrow> u64" where
  "current_mm_ptr c k =
     (case current_pid c k of
        None \<Rightarrow> rm_init_mm k
      | Some pid \<Rightarrow>
          case find_process_by_pid k pid of
            None \<Rightarrow> rm_init_mm k
          | Some p \<Rightarrow> if p_mm p = 0 then rm_init_mm k else p_mm p)"

text \<open>Writing through the lock of a process; nothing happens when there is no such process.\<close>

definition with_process :: "u64 \<Rightarrow> (Process \<Rightarrow> Process) \<Rightarrow> Runtime \<Rightarrow> Runtime" where
  "with_process pid f k = (case rt_get_mut pid f (rm_procs k) of Some ps \<Rightarrow> k\<lparr>rm_procs := ps\<rparr> | None \<Rightarrow> k)"

definition with_sched :: "(Sched \<Rightarrow> Sched) \<Rightarrow> Runtime \<Rightarrow> Runtime" where
  "with_sched f k = k\<lparr>rm_sched := f (rm_sched k)\<rparr>"

definition find_task_by_pid :: "Runtime \<Rightarrow> u64 \<Rightarrow> nat option" where
  "find_task_by_pid k pid = map_option snd (List.find (\<lambda>(tid, t). t_pid (task_of k t) = pid) (rt_iter (rm_tasks k)))"

definition find_task_by_tid :: "Runtime \<Rightarrow> u64 \<Rightarrow> nat option" where
  "find_task_by_tid k tid = rt_get (rm_tasks k) tid"

definition remove_tasks_by_process :: "u64 \<Rightarrow> Runtime \<Rightarrow> (nat \<times> Runtime) option" where
  "remove_tasks_by_process pid k =
     (let tids = map fst (filter (\<lambda>(tid, t). t_pid (task_of k t) = pid) (rt_iter (rm_tasks k)))
      in do { (_, ts) \<leftarrow> remove_keys tids (rm_tasks k); Some (length tids, k\<lparr>rm_tasks := ts\<rparr>) })"

definition all_process_ids :: "Runtime \<Rightarrow> u64 list" where
  "all_process_ids k = rt_keys (rm_procs k)"

definition process_ids_by_pgid :: "Runtime \<Rightarrow> u64 \<Rightarrow> u64 list" where
  "process_ids_by_pgid k pgid = map fst (filter (\<lambda>(pid, p). p_pgid p = pgid) (rt_iter (rm_procs k)))"

text \<open>Removing a process and its tasks from the manager, as both ways of reaping do it.\<close>

definition forget_process :: "u64 \<Rightarrow> Runtime \<Rightarrow> (Process option \<times> Runtime) option" where
  "forget_process pid k =
     do {
       (removed, ps) \<leftarrow> rt_remove pid (rm_procs k);
       (case removed of
          None \<Rightarrow> Some (None, k)
        | Some p \<Rightarrow>
            do {
              (_, k) \<leftarrow> remove_tasks_by_process pid (k\<lparr>rm_procs := ps\<rparr>);
              let k = emit (MmRelease (p_mm p)) (emit (DropFds pid) k);
              Some (Some p, with_sched (\<lambda>s. snd (remove_tasks_by_pid pid s)) k)
            })
     }"

definition reap_orphan_zombie_process :: "u64 \<Rightarrow> Runtime \<Rightarrow> Runtime option" where
  "reap_orphan_zombie_process pid k =
     (case find_process_by_pid k pid of
        Some p \<Rightarrow>
          if p_parent p = None \<and> p_status p = PZombie then do { (_, k) \<leftarrow> forget_process pid k; Some k } else Some k
      | None \<Rightarrow> Some k)"

section \<open>Spawning\<close>

datatype SpawnMmMode = InheritShared | InheritPrivate | InheritInit | InheritInitPrivate

text \<open>The address space of the child; \<open>cloned\<close> is the result of \<^verbatim>\<open>mm_clone\<close>, null when memory is exhausted.\<close>

definition resolve_child_mm :: "u64 \<Rightarrow> u64 option \<Rightarrow> SpawnMmMode \<Rightarrow> Runtime \<Rightarrow> u64 option \<times> Runtime" where
  "resolve_child_mm cloned parent_pid mm_mode k =
     (let init_mm = rm_init_mm k;
          parent_mm = (case parent_pid of
                         Some pid \<Rightarrow> (case find_process_by_pid k pid of Some p \<Rightarrow> p_mm p | None \<Rightarrow> init_mm)
                       | None \<Rightarrow> init_mm)
      in case mm_mode of
           InheritShared \<Rightarrow> (Some (if parent_mm = 0 then init_mm else parent_mm), emit (MmRetain parent_mm) k)
         | InheritPrivate \<Rightarrow> (if cloned = 0 then None else Some cloned, emit (MmClone parent_mm) k)
         | InheritInit \<Rightarrow> (Some init_mm, emit (MmRetain init_mm) k)
         | InheritInitPrivate \<Rightarrow> (if cloned = 0 then None else Some cloned, emit (MmClone init_mm) k))"

text \<open>
  The outer option is a panic (an exhausted counter), the inner one the failure of the address space. \<open>addr\<close> is the
  address of the new task and \<open>sp\<close> its initial stack pointer.
\<close>

definition spawn_kernel_thread_checked ::
    "nat \<Rightarrow> string \<Rightarrow> SpawnMmMode \<Rightarrow> u64 \<Rightarrow> nat \<Rightarrow> u64 \<Rightarrow> Runtime \<Rightarrow> (nat option \<times> Runtime) option" where
  "spawn_kernel_thread_checked c name mm_mode cloned addr sp k =
     (let parent = map_option (task_of k) (current c k);
          parent_pid = map_option t_pid parent;
          parent_tid = map_option t_id parent
      in do {
        (pid, next_pid) \<leftarrow> next_id (rm_next_pid k);
        let k = k\<lparr>rm_next_pid := next_pid\<rparr>;
        let ppid = (case parent_pid of Some p \<Rightarrow> p | None \<Rightarrow> 0);
        let pgid = (case parent_pid of
                      Some p \<Rightarrow> (case find_process_by_pid k p of Some q \<Rightarrow> p_pgid q | None \<Rightarrow> pid)
                    | None \<Rightarrow> pid);
        (case resolve_child_mm cloned parent_pid mm_mode k of
           (None, k) \<Rightarrow> Some (None, k)
         | (Some mm, k) \<Rightarrow>
             do {
               (tid, next_tid) \<leftarrow> next_id (rm_next_tid k);
               let k = with_sched (set_task addr (task_new_for_process name tid sp pid ppid)) (k\<lparr>rm_next_tid := next_tid\<rparr>);
               let p = proc_add_task addr ((new_kernel_with_pid (rm_init_mm k) name pid pgid parent_pid parent_tid)\<lparr>p_mm := mm\<rparr>);
               (_, ps) \<leftarrow> rt_insert pid p (rm_procs k);
               (_, ts) \<leftarrow> rt_insert tid addr (rm_tasks k);
               let k = k\<lparr>rm_procs := ps, rm_tasks := ts\<rparr>;
               let k = (case parent_pid of Some ppid \<Rightarrow> with_process ppid (add_child pid) k | None \<Rightarrow> k);
               Some (Some addr, with_sched (add_task addr c) k)
             })
      })"

text \<open>Without an address space this version panics.\<close>

definition spawn_kernel_thread_with_mm_mode ::
    "nat \<Rightarrow> string \<Rightarrow> SpawnMmMode \<Rightarrow> u64 \<Rightarrow> nat \<Rightarrow> u64 \<Rightarrow> Runtime \<Rightarrow> (nat \<times> Runtime) option" where
  "spawn_kernel_thread_with_mm_mode c name mm_mode cloned addr sp k =
     do {
       (r, k) \<leftarrow> spawn_kernel_thread_checked c name mm_mode cloned addr sp k;
       map_option (\<lambda>t. (t, k)) r
     }"

section \<open>Exiting\<close>

definition exit_task :: "int \<Rightarrow> nat \<Rightarrow> Sched \<Rightarrow> Sched" where
  "exit_task code t s = set_task t ((s_tasks s t)\<lparr>t_status := Exited, t_exit_code := Some code\<rparr>) s"

definition rollback :: "nat \<Rightarrow> ExecMappedPage list \<Rightarrow> Runtime \<Rightarrow> Runtime" where
  "rollback c pages k = (if pages = [] then k else emit (RollbackMappings (current_mm_ptr c k) pages) k)"

text \<open>A process becomes a zombie: its pages are released, and it is reaped when it has no parent.\<close>

definition become_zombie :: "nat \<Rightarrow> int \<Rightarrow> u64 \<Rightarrow> Runtime \<Rightarrow> (Process \<times> Runtime) option" where
  "become_zombie c code pid k =
     do {
       p \<leftarrow> find_process_by_pid k pid;
       let k = with_process pid (\<lambda>p. snd (take_exec_mappings (mark_zombie (mark_exiting code p)))) k;
       Some (p, rollback c (p_exec_mappings p) k)
     }"

definition exit_current_task :: "nat \<Rightarrow> int \<Rightarrow> Runtime \<Rightarrow> Runtime option" where
  "exit_current_task c code k =
     (case current c k of
        None \<Rightarrow> Some k
      | Some t \<Rightarrow>
          let pid = t_pid (task_of k t);
              k = with_sched (exit_task code t) k
          in case find_process_by_pid k pid of
               None \<Rightarrow> Some k
             | Some p \<Rightarrow>
                 if list_all (\<lambda>u. t_status (task_of k u) = Exited) (p_tasks p) then
                   do {
                     (p, k) \<leftarrow> become_zombie c code pid k;
                     if p_parent p = None then reap_orphan_zombie_process pid k else Some k
                   }
                 else Some k)"

definition exit_current_process :: "nat \<Rightarrow> int \<Rightarrow> Runtime \<Rightarrow> Runtime option" where
  "exit_current_process c code k =
     (case current c k of
        None \<Rightarrow> Some k
      | Some t \<Rightarrow>
          let pid = t_pid (task_of k t)
          in case find_process_by_pid k pid of
               None \<Rightarrow> Some (with_sched (exit_task code t) k)
             | Some p \<Rightarrow>
                 do {
                   let k = with_sched (fold (exit_task code) (p_tasks p)) k;
                   (p, k) \<leftarrow> become_zombie c code pid k;
                   let k = with_sched (\<lambda>s. snd (remove_tasks_by_pid pid s)) k;
                   if p_parent p = None then reap_orphan_zombie_process pid k else Some k
                 })"

section \<open>Waiting\<close>

datatype WaitTarget = AnyChild | TargetPid u64 | TargetPgid u64

datatype WaitCloneFilter = NonCloneOnly | CloneOnly | AllChildren

record WaitChildOptions =
  include_stopped :: bool
  include_continued :: bool
  clone_filter :: WaitCloneFilter
  current_thread_only :: bool

definition default_wait_options :: WaitChildOptions where
  "default_wait_options =
     \<lparr>include_stopped = False, include_continued = False, clone_filter = NonCloneOnly, current_thread_only = False\<rparr>"

datatype WaitChildObserveResult =
    Reapable u64 int
  | ChildStopped u64 int
  | ChildContinued u64
  | NoMatchedChild
  | ChildRunning

definition child_matches_target :: "Runtime \<Rightarrow> u64 \<Rightarrow> WaitTarget \<Rightarrow> bool" where
  "child_matches_target k child target =
     (case target of
        AnyChild \<Rightarrow> True
      | TargetPid pid \<Rightarrow> child = pid
      | TargetPgid pgid \<Rightarrow> (case find_process_by_pid k child of Some p \<Rightarrow> p_pgid p = pgid | None \<Rightarrow> False))"

definition child_matches_clone_filter :: "Runtime \<Rightarrow> u64 \<Rightarrow> WaitCloneFilter \<Rightarrow> bool" where
  "child_matches_clone_filter k child flt =
     (case find_process_by_pid k child of
        None \<Rightarrow> False
      | Some p \<Rightarrow> (case flt of AllChildren \<Rightarrow> True | NonCloneOnly \<Rightarrow> \<not> p_is_clone_child p | CloneOnly \<Rightarrow> p_is_clone_child p))"

definition child_matches_thread_scope :: "Runtime \<Rightarrow> u64 \<Rightarrow> u64 \<Rightarrow> bool \<Rightarrow> bool" where
  "child_matches_thread_scope k child tid only =
     (if \<not> only then True
      else case find_process_by_pid k child of
        None \<Rightarrow> False
      | Some p \<Rightarrow> (case p_parent_tid p of Some parent_tid \<Rightarrow> parent_tid = tid | None \<Rightarrow> True))"

text \<open>What the loop over the candidates returns for one child.\<close>

definition child_event :: "WaitChildOptions \<Rightarrow> Runtime \<Rightarrow> u64 \<Rightarrow> WaitChildObserveResult option" where
  "child_event options k child =
     (case find_process_by_pid k child of
        None \<Rightarrow> None
      | Some p \<Rightarrow>
          if p_status p = PZombie then Some (Reapable child (case p_exit_code p of Some code \<Rightarrow> code | None \<Rightarrow> 0))
          else if include_stopped options \<and> p_status p = PStopped \<and> \<not> p_wait_stop_reported p
          then Some (ChildStopped child (case p_wait_stop_signal p of Some signal \<Rightarrow> signal | None \<Rightarrow> 19))
          else if include_continued options \<and> p_wait_continued_pending p then Some (ChildContinued child)
          else None)"

definition wait_candidates :: "WaitTarget \<Rightarrow> WaitChildOptions \<Rightarrow> Runtime \<Rightarrow> u64 \<Rightarrow> Process \<Rightarrow> u64 list" where
  "wait_candidates target options k tid parent =
     filter (\<lambda>child. child_matches_target k child target \<and> child_matches_clone_filter k child (clone_filter options) \<and>
       child_matches_thread_scope k child tid (current_thread_only options)) (p_children parent)"

definition wait_child_observe :: "nat \<Rightarrow> WaitTarget \<Rightarrow> WaitChildOptions \<Rightarrow> Runtime \<Rightarrow> WaitChildObserveResult" where
  "wait_child_observe c target options k =
     (case current c k of
        None \<Rightarrow> NoMatchedChild
      | Some t \<Rightarrow>
          case find_process_by_pid k (t_pid (task_of k t)) of
            None \<Rightarrow> NoMatchedChild
          | Some parent \<Rightarrow>
              let candidates = wait_candidates target options k (t_id (task_of k t)) parent
              in if candidates = [] then NoMatchedChild
                 else case first_some (child_event options k) candidates of Some r \<Rightarrow> r | None \<Rightarrow> ChildRunning)"

definition parent_owns_child :: "nat \<Rightarrow> Runtime \<Rightarrow> u64 \<Rightarrow> u64 option" where
  "parent_owns_child c k child =
     do {
       parent_pid \<leftarrow> current_pid c k;
       parent \<leftarrow> find_process_by_pid k parent_pid;
       if child \<in> set (p_children parent) then Some parent_pid else None
     }"

definition reap_observed_child :: "nat \<Rightarrow> u64 \<Rightarrow> Runtime \<Rightarrow> ((u64 \<times> int) option \<times> Runtime) option" where
  "reap_observed_child c child k =
     (case (parent_owns_child c k child, find_process_by_pid k child) of
        (Some parent_pid, Some p) \<Rightarrow>
          if p_status p \<noteq> PZombie then Some (None, k)
          else
            let code = (case p_exit_code p of Some code \<Rightarrow> code | None \<Rightarrow> 0);
                k = with_process child (\<lambda>p. snd (take_exec_mappings p)) k;
                k = with_process parent_pid (remove_child child) k
            in do {
              (removed, k) \<leftarrow> forget_process child k;
              Some (case removed of
                      None \<Rightarrow> (None, k)
                    | Some q \<Rightarrow> (Some (child, code), rollback c (p_exec_mappings p) k))
            }
      | _ \<Rightarrow> Some (None, k))"

datatype WaitChildConsumeEvent = ConsumeStopped | ConsumeContinued

definition consume_observed_wait_event :: "nat \<Rightarrow> u64 \<Rightarrow> WaitChildConsumeEvent \<Rightarrow> Runtime \<Rightarrow> bool \<times> Runtime" where
  "consume_observed_wait_event c child event k =
     (case (parent_owns_child c k child, find_process_by_pid k child) of
        (Some parent_pid, Some p) \<Rightarrow>
          (case event of
             ConsumeStopped \<Rightarrow>
               if p_status p \<noteq> PStopped \<or> p_wait_stop_reported p then (False, k)
               else (True, with_process child mark_wait_stopped_reported k)
           | ConsumeContinued \<Rightarrow>
               if \<not> p_wait_continued_pending p then (False, k)
               else (True, with_process child clear_wait_continued_pending k))
      | _ \<Rightarrow> (False, k))"

record WaitRusageSnapshot =
  user_ticks :: u64
  system_ticks :: u64
  minor_faults :: u64
  major_faults :: u64
  inblock :: u64
  oublock :: u64
  signals_delivered :: u64
  voluntary_ctxt_switches :: u64
  involuntary_ctxt_switches :: u64
  max_rss_kb :: int

definition default_rusage :: WaitRusageSnapshot where
  "default_rusage =
     \<lparr>user_ticks = 0, system_ticks = 0, minor_faults = 0, major_faults = 0, inblock = 0, oublock = 0, signals_delivered = 0,
      voluntary_ctxt_switches = 0, involuntary_ctxt_switches = 0, max_rss_kb = 0\<rparr>"

definition add_task_rusage :: "u64 \<Rightarrow> Task \<Rightarrow> WaitRusageSnapshot \<Rightarrow> WaitRusageSnapshot" where
  "add_task_rusage now t r = r\<lparr>
     system_ticks := u64_saturating_add (system_ticks r) (total_runtime_ticks t now),
     voluntary_ctxt_switches := u64_saturating_add (voluntary_ctxt_switches r) (t_voluntary_switches t),
     involuntary_ctxt_switches := u64_saturating_add (involuntary_ctxt_switches r) (t_involuntary_switches t)\<rparr>"

definition snapshot_observed_child_rusage :: "nat \<Rightarrow> u64 \<Rightarrow> u64 \<Rightarrow> Runtime \<Rightarrow> WaitRusageSnapshot option" where
  "snapshot_observed_child_rusage c now child k =
     do {
       _ \<leftarrow> parent_owns_child c k child;
       p \<leftarrow> find_process_by_pid k child;
       Some (fold (\<lambda>t. add_task_rusage now (task_of k t)) (p_tasks p) default_rusage)
     }"

datatype WaitChildResult = Reaped u64 int | WaitNoMatchedChild | WaitChildRunning

definition wait_child_result_by_target :: "nat \<Rightarrow> WaitTarget \<Rightarrow> Runtime \<Rightarrow> (WaitChildResult \<times> Runtime) option" where
  "wait_child_result_by_target c target k =
     (case wait_child_observe c target default_wait_options k of
        Reapable pid code \<Rightarrow>
          do {
            (r, k) \<leftarrow> reap_observed_child c pid k;
            Some (case r of Some (pid, code) \<Rightarrow> Reaped pid code | None \<Rightarrow> WaitChildRunning, k)
          }
      | NoMatchedChild \<Rightarrow> Some (WaitNoMatchedChild, k)
      | _ \<Rightarrow> Some (WaitChildRunning, k))"

definition wait_child_result :: "nat \<Rightarrow> u64 option \<Rightarrow> Runtime \<Rightarrow> (WaitChildResult \<times> Runtime) option" where
  "wait_child_result c target_pid =
     wait_child_result_by_target c (case target_pid of Some pid \<Rightarrow> TargetPid pid | None \<Rightarrow> AnyChild)"

definition wait_child :: "nat \<Rightarrow> u64 option \<Rightarrow> Runtime \<Rightarrow> ((u64 \<times> int) option \<times> Runtime) option" where
  "wait_child c target_pid k =
     do {
       (r, k) \<leftarrow> wait_child_result c target_pid k;
       Some (case r of Reaped pid code \<Rightarrow> Some (pid, code) | _ \<Rightarrow> None, k)
     }"

text \<open>
  One round of the waiting loop. \<open>Inl\<close> is the event it returns; \<open>Inr False\<close> a retry after a lost race and \<open>Inr True\<close> the
  call of \<open>schedule\<close> before the next round.
\<close>

datatype WaitEvent =
    EvExited u64 int WaitRusageSnapshot
  | EvStopped u64 int WaitRusageSnapshot
  | EvContinued u64 WaitRusageSnapshot
  | EvNoMatchedChild
  | EvStillRunning

definition wait_round :: "nat \<Rightarrow> u64 \<Rightarrow> WaitTarget \<Rightarrow> WaitChildOptions \<Rightarrow> bool \<Rightarrow> Runtime \<Rightarrow> ((WaitEvent + bool) \<times> Runtime) option" where
  "wait_round c now target options nohang k =
     (let rusage = (\<lambda>child. case snapshot_observed_child_rusage c now child k of
                      Some r \<Rightarrow> r | None \<Rightarrow> default_rusage)
      in case wait_child_observe c target options k of
           Reapable child _ \<Rightarrow>
             do {
               (r, k) \<leftarrow> reap_observed_child c child k;
               Some (case r of Some (pid, code) \<Rightarrow> Inl (EvExited pid code (rusage child)) | None \<Rightarrow> Inr False, k)
             }
         | ChildStopped child signal \<Rightarrow>
             (case consume_observed_wait_event c child ConsumeStopped k of
                (True, k) \<Rightarrow> Some (Inl (EvStopped child signal (rusage child)), k)
              | (False, k) \<Rightarrow> Some (Inr False, k))
         | ChildContinued child \<Rightarrow>
             (case consume_observed_wait_event c child ConsumeContinued k of
                (True, k) \<Rightarrow> Some (Inl (EvContinued child (rusage child)), k)
              | (False, k) \<Rightarrow> Some (Inr False, k))
         | NoMatchedChild \<Rightarrow> Some (Inl EvNoMatchedChild, k)
         | ChildRunning \<Rightarrow> Some (if nohang then Inl EvStillRunning else Inr True, k))"

section \<open>Signals\<close>

definition EINVAL :: int where
  "EINVAL = 22"

definition ESRCH :: int where
  "ESRCH = 3"

text \<open>\<^verbatim>\<open>isize\<close> is a signed 64-bit number.\<close>

definition collect_kill_targets :: "nat \<Rightarrow> int \<Rightarrow> Runtime \<Rightarrow> int + u64 list" where
  "collect_kill_targets c raw_pid k =
     (if raw_pid > 0 then
        if find_process_by_pid k (of_int raw_pid) \<noteq> None then Inr [of_int raw_pid] else Inl ESRCH
      else if raw_pid = 0 then
        case current_pgid c k of
          None \<Rightarrow> Inl ESRCH
        | Some pgid \<Rightarrow> (let targets = process_ids_by_pgid k pgid in if targets = [] then Inl ESRCH else Inr targets)
      else if raw_pid = - 1 then
        let targets = sort (filter (\<lambda>pid. pid \<noteq> 0) (all_process_ids k)) in if targets = [] then Inl ESRCH else Inr targets
      else if raw_pid = - (2 ^ 63) then Inl EINVAL
      else if - raw_pid \<le> 1 then Inl EINVAL
      else let targets = process_ids_by_pgid k (of_int (- raw_pid)) in if targets = [] then Inl ESRCH else Inr targets)"

definition stop_task :: "nat \<Rightarrow> Sched \<Rightarrow> Sched" where
  "stop_task t s = (if t_status (s_tasks s t) \<noteq> Exited then set_status t Blocked s else s)"

definition continue_task :: "nat \<Rightarrow> nat \<Rightarrow> Sched \<Rightarrow> Sched" where
  "continue_task c t s = (if t_status (s_tasks s t) = Blocked then add_task t c (set_status t Ready s) else s)"

definition send_signal :: "nat \<Rightarrow> u64 \<Rightarrow> int \<Rightarrow> Runtime \<Rightarrow> (int + bool) \<times> Runtime" where
  "send_signal c pid sig k =
     (case find_process_by_pid k pid of
        None \<Rightarrow> (Inl ESRCH, k)
      | Some p \<Rightarrow>
          if sig = 0 \<or> sig = 17 then (Inr False, k)
          else
            let target_is_current = (current_pid c k = Some pid)
            in if sig = 15 \<or> sig = 9 then
                 let k = with_sched (fold (exit_task (128 + sig)) (p_tasks p)) k;
                     k = with_process pid (\<lambda>p. mark_zombie (mark_exiting (128 + sig) p)) k;
                     k = with_sched (\<lambda>s. snd (remove_tasks_by_pid pid s)) k
                 in (Inr target_is_current, k)
               else if sig = 19 then
                 let k = with_process pid (mark_stopped 19) k;
                     k = with_sched (fold stop_task (p_tasks p)) k;
                     k = with_sched (\<lambda>s. snd (remove_tasks_by_pid pid s)) k
                 in (Inr target_is_current, k)
               else if sig = 18 then
                 let k = with_process pid mark_continued k;
                     k = with_sched (fold (continue_task c) (p_tasks p)) k
                 in (Inr False, k)
               else (Inl EINVAL, k))"

section \<open>Executing and cloning\<close>

definition record_current_exec_request :: "nat \<Rightarrow> string \<Rightarrow> nat \<Rightarrow> nat \<Rightarrow> Runtime \<Rightarrow> u64 option \<times> Runtime" where
  "record_current_exec_request c path argc envc k =
     (case current c k of
        None \<Rightarrow> (None, k)
      | Some t \<Rightarrow>
          let pid = t_pid (task_of k t);
              k = with_sched (set_task t ((task_of k t)\<lparr>t_name := path\<rparr>)) k
          in case find_process_by_pid k pid of
               None \<Rightarrow> (None, k)
             | Some p \<Rightarrow> (Some pid, with_process pid (record_exec_request path argc envc) k))"

definition set_current_exec_mappings :: "nat \<Rightarrow> ExecMappedPage list \<Rightarrow> Runtime \<Rightarrow> nat option \<times> Runtime" where
  "set_current_exec_mappings c mappings k =
     (case current_pid c k of
        None \<Rightarrow> (None, rollback c mappings k)
      | Some pid \<Rightarrow>
          case find_process_by_pid k pid of
            None \<Rightarrow> (None, rollback c mappings k)
          | Some p \<Rightarrow>
              let replaced = fst (replace_exec_mappings mappings p);
                  k = with_process pid (\<lambda>p. snd (replace_exec_mappings mappings p)) k
              in (Some (length replaced), rollback c replaced k))"

definition take_current_exec_mappings :: "nat \<Rightarrow> Runtime \<Rightarrow> ExecMappedPage list option \<times> Runtime" where
  "take_current_exec_mappings c k =
     (case current_pid c k of
        None \<Rightarrow> (None, k)
      | Some pid \<Rightarrow>
          case find_process_by_pid k pid of
            None \<Rightarrow> (None, k)
          | Some p \<Rightarrow> (Some (fst (take_exec_mappings p)), with_process pid (\<lambda>p. snd (take_exec_mappings p)) k))"

definition lookup_current_exec_mapping :: "nat \<Rightarrow> u64 \<Rightarrow> Runtime \<Rightarrow> ExecMappedPage option" where
  "lookup_current_exec_mapping c virt k =
     do {
       pid \<leftarrow> current_pid c k;
       p \<leftarrow> find_process_by_pid k pid;
       List.find (\<lambda>page. ep_virt page = virt) (p_exec_mappings p)
     }"

text \<open>
  The new child of \<^verbatim>\<open>fork\<close>, \<^verbatim>\<open>vfork\<close> and \<^verbatim>\<open>clone\<close>. The frame with which the child returns to user mode is machine state and
  left out; \<open>frame\<close> says whether there is one.
\<close>

definition ENOMEM :: int where
  "ENOMEM = 12"

definition spawn_minimal_child ::
    "nat \<Rightarrow> string \<Rightarrow> bool \<Rightarrow> SpawnMmMode \<Rightarrow> u64 \<Rightarrow> nat \<Rightarrow> u64 \<Rightarrow> Runtime \<Rightarrow> ((int + u64) \<times> Runtime) option" where
  "spawn_minimal_child c name is_clone_child mm_mode cloned addr sp k =
     do {
       (r, k) \<leftarrow> spawn_kernel_thread_checked c name mm_mode cloned addr sp k;
       Some (case r of
               None \<Rightarrow> (Inl ENOMEM, k)
             | Some t \<Rightarrow>
                 let child = t_pid (task_of k t)
                 in case find_process_by_pid k child of
                      None \<Rightarrow> (Inl ESRCH, k)
                    | Some p \<Rightarrow> (Inr child, with_process child (\<lambda>p. p\<lparr>p_is_clone_child := is_clone_child\<rparr>) k))
     }"

unbundle bit_operations_syntax

definition CSIGNAL :: usize where
  "CSIGNAL = 0xff"

definition CLONE_VM :: usize where
  "CLONE_VM = 0x100"

definition CLONE_VFORK :: usize where
  "CLONE_VFORK = 0x4000"

text \<open>The flags of threads, of the thread identifiers and of the thread-local storage.\<close>

definition CLONE_REFUSED :: "usize list" where
  "CLONE_REFUSED = [0x10000, 0x100000, 0x1000000, 0x200000, 0x80000, 0x400000]"

text \<open>The result also says whether the parent goes on to wait in \<open>wait_for_vfork_release\<close>.\<close>

definition clone_current ::
    "nat \<Rightarrow> usize \<Rightarrow> usize \<Rightarrow> usize \<Rightarrow> usize \<Rightarrow> usize \<Rightarrow> bool \<Rightarrow> u64 \<Rightarrow> nat \<Rightarrow> u64 \<Rightarrow> Runtime \<Rightarrow> ((int + u64 \<times> bool) \<times> Runtime) option" where
  "clone_current c flags child_stack parent_tid child_tid tls frame cloned addr sp k =
     (let vfork = (flags AND CLONE_VFORK \<noteq> 0);
          vm = (flags AND CLONE_VM \<noteq> 0);
          exit_signal = uint (flags AND CSIGNAL);
          is_clone_child = (exit_signal \<noteq> 0 \<and> exit_signal \<noteq> 17);
          child_name = (if vfork then ''vfork_child'' else if is_clone_child then ''clone_child'' else ''fork_child'')
      in if flags AND NOT (CSIGNAL OR CLONE_VM OR CLONE_VFORK) \<noteq> 0 then Some (Inl EINVAL, k)
         else if vfork \<and> \<not> vm then Some (Inl EINVAL, k)
         else if vm \<and> \<not> vfork then Some (Inl EINVAL, k)
         else if child_stack \<noteq> 0 \<or> parent_tid \<noteq> 0 \<or> child_tid \<noteq> 0 \<or> tls \<noteq> 0 \<or> list_ex (\<lambda>f. flags AND f \<noteq> 0) CLONE_REFUSED
         then Some (Inl EINVAL, k)
         else if exit_signal < 0 \<or> exit_signal > 64 then Some (Inl EINVAL, k)
         else if \<not> frame then Some (Inl EINVAL, k)
         else
           do {
             (r, k) \<leftarrow> spawn_minimal_child c child_name is_clone_child (if vm then InheritShared else InheritPrivate) cloned addr sp k;
             Some (case r of Inl e \<Rightarrow> Inl e | Inr pid \<Rightarrow> Inr (pid, vfork), k)
           })"

text \<open>One look of the parent that waits for its \<^verbatim>\<open>vfork\<close> child: whether the loop ends. Otherwise it calls \<open>schedule\<close>.\<close>

definition vfork_released :: "nat \<Rightarrow> u64 \<Rightarrow> Runtime \<Rightarrow> bool" where
  "vfork_released c child k =
     (case wait_child_observe c (TargetPid child) (default_wait_options\<lparr>clone_filter := AllChildren\<rparr>) k of
        Reapable _ _ \<Rightarrow> True
      | NoMatchedChild \<Rightarrow> True
      | _ \<Rightarrow> False)"

end
