(* ===== verification/Process_Proofs.thy ===== *)
theory Process_Proofs
  imports Process Sched_Proofs Radix_Map
begin

text \<open>
  The invariant of the task manager and the lemmas that its operations keep it: the processes form a
  forest ordered by their identifiers, the lists of children agree with the parents, the wait status
  is consistent and a zombie has an exit code and no live task.
\<close>

section \<open>What the scheduler keeps of the tasks\<close>

text \<open>No task changes its process, and an exited task stays exited.\<close>

definition kept :: "(nat \<Rightarrow> Task) \<Rightarrow> (nat \<Rightarrow> Task) \<Rightarrow> bool" where
  "kept ts ts' \<longleftrightarrow> (\<forall>t. t_pid (ts' t) = t_pid (ts t) \<and> (t_status (ts t) = Exited \<longrightarrow> t_status (ts' t) = Exited))"

lemma kept_refl [simp]: "kept ts ts"
  by (simp add: kept_def)

lemma kept_trans [trans]: "kept a b \<Longrightarrow> kept b c \<Longrightarrow> kept a c"
  by (simp add: kept_def)

lemma kept_set_task:
  "t_pid task = t_pid (s_tasks s t) \<Longrightarrow> (status s t = Exited \<Longrightarrow> t_status task = Exited) \<Longrightarrow> kept (s_tasks s) (s_tasks (set_task t task s))"
  by (simp add: kept_def set_task_def)

lemma kept_set_status: "status s t \<noteq> Exited \<Longrightarrow> kept (s_tasks s) (s_tasks (set_status t st s))"
  unfolding set_status_def by (rule kept_set_task) simp_all

lemma kept_exit_task: "kept (s_tasks s) (s_tasks (exit_task code t s))"
  unfolding exit_task_def by (rule kept_set_task) simp_all

lemma kept_stop_task: "kept (s_tasks s) (s_tasks (stop_task t s))"
  by (simp add: stop_task_def kept_set_status)

lemma kept_mark_ready:
  "mark_task_ready_if_schedulable t s = (b, s') \<Longrightarrow> kept (s_tasks s) (s_tasks s')"
  by (auto simp: mark_task_ready_if_schedulable_def kept_set_status split: if_splits)

lemma kept_enqueue: "kept (s_tasks s) (s_tasks (enqueue_on_cpu t c s))"
proof -
  obtain b s1 where 1: "mark_task_ready_if_schedulable t s = (b, s1)" by force
  obtain b' s2 where 2: "mark_task_ready_if_schedulable t s1 = (b', s2)" by force
  show ?thesis
    using kept_mark_ready [OF 1] kept_trans [OF kept_mark_ready [OF 1] kept_mark_ready [OF 2]]
    by (simp add: enqueue_on_cpu_def 1 2 Let_def split: bool.split)
qed

lemma kept_add_task: "kept (s_tasks s) (s_tasks (add_task t c s))"
  by (simp add: add_task_def kept_enqueue)

lemma kept_continue_task: "kept (s_tasks s) (s_tasks (continue_task c t s))"
  by (auto simp: continue_task_def intro: kept_trans [OF kept_set_status kept_add_task])

lemma kept_fold:
  "(\<And>x s. kept (s_tasks s) (s_tasks (f x s))) \<Longrightarrow> kept (s_tasks s) (s_tasks (fold f xs s))"
  by (induction xs arbitrary: s) (auto intro: kept_trans)

lemma kept_remove_tasks [simp]: "s_tasks (snd (remove_tasks_by_pid pid s)) = s_tasks s"
  by (simp add: remove_tasks_by_pid_def Let_def)

lemma kept_flush: "kept (s_tasks s) (s_tasks (flush_deferred_requeue c s))"
proof -
  have "kept (s_tasks u) (s_tasks (fold (\<lambda>t. sched_push_back t c) ts u))" for u ts
    by (rule kept_fold) (simp add: sched_push_back_def kept_enqueue)
  from this [of "s\<lparr>s_deferred := filter (\<lambda>(d, t). d \<noteq> c) (s_deferred s)\<rparr>"] show ?thesis
    by (simp add: flush_deferred_requeue_def Let_def)
qed

lemma kept_pick: "pick_next c now s = (r, s') \<Longrightarrow> kept (s_tasks s) (s_tasks s')"
  using pick_next_spec [of c now s r s', OF _ refl]
  by (auto simp: picked_def stolen_def kept_def switch_in_def on_switch_in_def split: option.splits)

lemma kept_switch_out: "kept (s_tasks s) (s_tasks (switch_out prev c now sp s))"
  by (cases "status s prev") (simp_all add: switch_out_def Let_def kept_def set_task_def set_status_def enqueue_deferred_requeue_def)

lemma kept_schedule: "kept (s_tasks s) (s_tasks (snd (schedule c now now' sp s)))"
proof -
  obtain r s1 where pick: "pick_next c now (flush_deferred_requeue c s) = (r, s1)" by force
  have "kept (s_tasks s) (s_tasks s1)" using kept_trans [OF kept_flush kept_pick [OF pick]] .
  moreover have "kept (s_tasks s1) (s_tasks (snd (schedule c now now' sp s)))"
    using kept_switch_out [where s = "s1\<lparr>s_idle_fallbacks := x, s_current := y\<rparr>" for x y]
      kept_switch_out [where s = "s1\<lparr>s_current := y\<rparr>" for y]
    by (simp add: schedule_def pick take_current_task_def replace_current_task_def Let_def split: option.split)
  ultimately show ?thesis by (rule kept_trans)
qed

section \<open>The invariant\<close>

definition wait_status_ok :: "Process \<Rightarrow> bool" where
  "wait_status_ok p \<longleftrightarrow>
     (p_status p = PStopped \<longleftrightarrow> p_wait_stop_signal p \<noteq> None) \<and> (p_wait_stop_reported p \<longrightarrow> p_status p = PStopped) \<and>
     (p_wait_continued_pending p \<longrightarrow> p_status p = PRunning) \<and> (p_status p = PZombie \<longrightarrow> p_exit_code p \<noteq> None) \<and>
     p_status p \<noteq> PExiting"

definition proc_ok :: "(nat \<Rightarrow> Task) \<Rightarrow> u64 \<Rightarrow> u64 \<Rightarrow> Process \<Rightarrow> bool" where
  "proc_ok ts np pid p \<longleftrightarrow>
     p_pid p = pid \<and> pid < np \<and> distinct (p_children p) \<and> wait_status_ok p \<and> (\<forall>pp. p_parent p = Some pp \<longrightarrow> pp < pid) \<and>
     (\<forall>t \<in> set (p_tasks p). t_pid (ts t) = pid \<and> (p_status p = PZombie \<longrightarrow> t_status (ts t) = Exited))"

definition family :: "(u64 \<Rightarrow> Process option) \<Rightarrow> (nat \<Rightarrow> Task) \<Rightarrow> u64 \<Rightarrow> bool" where
  "family M ts np \<longleftrightarrow>
     (\<forall>pid p. M pid = Some p \<longrightarrow> proc_ok ts np pid p) \<and> (\<forall>t. t_pid (ts t) < np) \<and>
     (\<forall>pid p child. M pid = Some p \<longrightarrow>
        (child \<in> set (p_children p) \<longleftrightarrow> (\<exists>q. M child = Some q \<and> p_parent q = Some pid)))"

definition runtime_ok :: "Runtime \<Rightarrow> bool" where
  "runtime_ok k \<longleftrightarrow> rt_ok (rm_procs k) \<and> rt_ok (rm_tasks k) \<and> family (rt_get (rm_procs k)) (s_tasks (rm_sched k)) (rm_next_pid k)"

lemma family_kept: "family M ts np \<Longrightarrow> kept ts ts' \<Longrightarrow> family M ts' np"
  unfolding family_def proc_ok_def kept_def by simp

lemma family_update:
  assumes "family M ts np" "M pid = Some p" "proc_ok ts np pid p'" "p_children p' = p_children p" "p_parent p' = p_parent p"
  shows "family (M(pid \<mapsto> p')) ts np"
  using assms unfolding family_def by simp

text \<open>The identifier of a new process is free, and no process has it as its parent.\<close>

lemma family_fresh:
  assumes "family M ts np"
  shows "M np = None" "M q = Some p \<Longrightarrow> p_parent p \<noteq> Some np"
proof -
  show "M np = None" using assms by (cases "M np") (auto simp: family_def proc_ok_def)
  show "M q = Some p \<Longrightarrow> p_parent p \<noteq> Some np"
    using assms unfolding family_def proc_ok_def by (meson less_trans less_irrefl)
qed

lemma family_later: "family M ts np \<Longrightarrow> np \<le> np' \<Longrightarrow> family M ts np'"
  unfolding family_def proc_ok_def by (meson less_le_trans)

text \<open>A process without a parent is in no list of children, so it can be removed.\<close>

lemma family_remove_orphan:
  assumes "family M ts np" "M pid = Some p" "p_parent p = None"
  shows "family (M(pid := None)) ts np"
  using assms unfolding family_def by (simp split: if_splits)

lemma remove_child_children: "distinct (p_children p) \<Longrightarrow> set (p_children (remove_child child p)) = set (p_children p) - {child} \<and> distinct (p_children (remove_child child p))"
proof -
  assume d: "distinct (p_children p)"
  show ?thesis
  proof (cases "position (\<lambda>c. c = child) (p_children p)")
    case None
    then have "remove_child child p = p" by (simp add: remove_child_def)
    moreover have "child \<notin> set (p_children p)" using None by (auto simp: position_None_iff)
    ultimately show ?thesis using d by simp
  next
    case (Some i)
    then have i: "i < length (p_children p)" "p_children p ! i = child" using position_SomeD [OF Some] by simp_all
    have "p_children p = take i (p_children p) @ child # drop (Suc i) (p_children p)"
      using id_take_nth_drop [OF i(1)] i(2) by simp
    then obtain xs ys where eq: "p_children p = xs @ child # ys" "take i (p_children p) = xs" "drop (Suc i) (p_children p) = ys" by blast
    have "p_children (remove_child child p) = xs @ ys" using Some by (simp add: remove_child_def eq(2,3))
    then show ?thesis using d unfolding eq(1) by auto
  qed
qed

lemma remove_child_frame [simp]:
  "p_pid (remove_child c p) = p_pid p" "p_parent (remove_child c p) = p_parent p" "p_tasks (remove_child c p) = p_tasks p"
  "p_status (remove_child c p) = p_status p" "wait_status_ok (remove_child c p) = wait_status_ok p"
  by (simp_all add: remove_child_def wait_status_ok_def split: option.split)

text \<open>A child leaves the list of its parent and the processes together.\<close>

lemma family_reap:
  assumes fam: "family M ts np" and p: "M pid = Some p" "child \<in> set (p_children p)"
  shows "family ((M(pid \<mapsto> remove_child child p))(child := None)) ts np"
proof -
  obtain q where q: "M child = Some q" "p_parent q = Some pid" using fam p unfolding family_def by blast
  have ok: "proc_ok ts np pid p" "proc_ok ts np child q" using fam p(1) q(1) unfolding family_def by blast+
  have ne: "pid < child" using ok(2) q(2) unfolding proc_ok_def by blast
  have d: "distinct (p_children p)" using ok(1) unfolding proc_ok_def by blast
  note rc = remove_child_children [OF d, of child]
  have "proc_ok ts np pid (remove_child child p)" using ok(1) rc unfolding proc_ok_def by simp
  moreover have "child' \<in> set (p_children r) \<longleftrightarrow> (\<exists>q. M child' = Some q \<and> p_parent q = Some i)" if "M i = Some r" for i r child'
    using fam that unfolding family_def by blast
  ultimately show ?thesis
    using fam p(1) q ne rc unfolding family_def by (simp split: if_splits)
qed

section \<open>Writing the process table\<close>

lemma with_process_frame [simp]:
  "rm_sched (with_process pid f k) = rm_sched k" "rm_tasks (with_process pid f k) = rm_tasks k"
  "rm_next_pid (with_process pid f k) = rm_next_pid k" "rm_next_tid (with_process pid f k) = rm_next_tid k"
  "rm_init_mm (with_process pid f k) = rm_init_mm k" "rm_effects (with_process pid f k) = rm_effects k"
  by (simp_all add: with_process_def split: option.split)

lemma with_sched_frame [simp]:
  "rm_sched (with_sched g k) = g (rm_sched k)" "rm_tasks (with_sched g k) = rm_tasks k" "rm_procs (with_sched g k) = rm_procs k"
  "rm_next_pid (with_sched g k) = rm_next_pid k" "rm_next_tid (with_sched g k) = rm_next_tid k"
  "rm_init_mm (with_sched g k) = rm_init_mm k" "rm_effects (with_sched g k) = rm_effects k"
  by (simp_all add: with_sched_def)

lemma emit_frame [simp]:
  "rm_sched (emit e k) = rm_sched k" "rm_tasks (emit e k) = rm_tasks k" "rm_procs (emit e k) = rm_procs k"
  "rm_next_pid (emit e k) = rm_next_pid k" "rm_next_tid (emit e k) = rm_next_tid k" "rm_init_mm (emit e k) = rm_init_mm k"
  "rm_effects (emit e k) = rm_effects k @ [e]"
  by (simp_all add: emit_def)

lemma rollback_frame [simp]:
  "rm_sched (rollback c ps k) = rm_sched k" "rm_tasks (rollback c ps k) = rm_tasks k" "rm_procs (rollback c ps k) = rm_procs k"
  "rm_next_pid (rollback c ps k) = rm_next_pid k" "rm_next_tid (rollback c ps k) = rm_next_tid k" "rm_init_mm (rollback c ps k) = rm_init_mm k"
  by (simp_all add: rollback_def)

lemma rollback_effects:
  "rm_effects (rollback c ps k) = rm_effects k @ (if ps = [] then [] else [RollbackMappings (current_mm_ptr c k) ps])"
  by (simp add: rollback_def)

lemma with_process_get:
  assumes "rt_ok (rm_procs k)"
  shows "rt_ok (rm_procs (with_process pid f k))"
    "rt_get (rm_procs (with_process pid f k)) =
       (case rt_get (rm_procs k) pid of None \<Rightarrow> rt_get (rm_procs k) | Some p \<Rightarrow> (rt_get (rm_procs k))(pid \<mapsto> f p))"
  using rt_get_mut_spec [OF assms, of pid f] assms by (auto simp: with_process_def split: option.splits)

lemma runtime_ok_same:
  "runtime_ok k \<Longrightarrow> rm_procs k' = rm_procs k \<Longrightarrow> rm_tasks k' = rm_tasks k \<Longrightarrow> rm_next_pid k' = rm_next_pid k \<Longrightarrow>
   kept (s_tasks (rm_sched k)) (s_tasks (rm_sched k')) \<Longrightarrow> runtime_ok k'"
  by (auto simp: runtime_ok_def intro: family_kept)

lemma emit_ok [simp]: "runtime_ok (emit e k) = runtime_ok k" "runtime_ok (rollback c ps k) = runtime_ok k"
  by (simp_all add: runtime_ok_def)

lemma with_sched_ok: "runtime_ok k \<Longrightarrow> kept (s_tasks (rm_sched k)) (s_tasks (g (rm_sched k))) \<Longrightarrow> runtime_ok (with_sched g k)"
  by (rule runtime_ok_same [of k]) simp_all

lemma with_process_ok:
  assumes "runtime_ok k"
    and "\<And>p. find_process_by_pid k pid = Some p \<Longrightarrow> proc_ok (s_tasks (rm_sched k)) (rm_next_pid k) pid p \<Longrightarrow>
      proc_ok (s_tasks (rm_sched k)) (rm_next_pid k) pid (f p) \<and> p_children (f p) = p_children p \<and> p_parent (f p) = p_parent p"
  shows "runtime_ok (with_process pid f k)"
proof -
  let ?M = "rt_get (rm_procs k)" and ?ts = "s_tasks (rm_sched k)"
  have k: "rt_ok (rm_procs k)" "rt_ok (rm_tasks k)" "family ?M ?ts (rm_next_pid k)" using assms(1) by (simp_all add: runtime_ok_def)
  show ?thesis
  proof (cases "?M pid")
    case None
    then show ?thesis using k with_process_get [OF k(1), of pid f] by (simp add: runtime_ok_def)
  next
    case (Some p)
    then have "proc_ok ?ts (rm_next_pid k) pid p" using k(3) by (simp add: family_def)
    then have "family (?M(pid \<mapsto> f p)) ?ts (rm_next_pid k)"
      using family_update [OF k(3) Some] assms(2) [of p] Some by (simp add: find_process_by_pid_def)
    then show ?thesis using k with_process_get [OF k(1), of pid f] Some by (simp add: runtime_ok_def)
  qed
qed

lemma remove_keys_ok: "rt_ok t \<Longrightarrow> \<exists>r t'. remove_keys ks t = Some (r, t') \<and> rt_ok t'"
proof (induction ks arbitrary: t)
  case (Cons key ks)
  obtain t1 where 1: "rt_remove key t = Some (rt_get t key, t1)" "rt_ok t1" by (rule rt_remove_spec [OF Cons.prems, of key])
  obtain r t' where "remove_keys ks t1 = Some (r, t')" "rt_ok t'" using Cons.IH [OF 1(2)] by blast
  then show ?case using 1(1) by simp
qed simp

lemma forget_process_spec:
  assumes "rt_ok (rm_procs k)" "rt_ok (rm_tasks k)" "rt_get (rm_procs k) pid = Some p"
  obtains k' where "forget_process pid k = Some (Some p, k')" "rt_ok (rm_procs k')" "rt_ok (rm_tasks k')"
    "rt_get (rm_procs k') = (rt_get (rm_procs k))(pid := None)" "rm_sched k' = snd (remove_tasks_by_pid pid (rm_sched k))"
    "rm_next_pid k' = rm_next_pid k" "rm_next_tid k' = rm_next_tid k" "rm_init_mm k' = rm_init_mm k"
    "rm_effects k' = rm_effects k @ [DropFds pid, MmRelease (p_mm p)]"
proof -
  obtain ps where ps: "rt_remove pid (rm_procs k) = Some (Some p, ps)" "rt_ok ps" "rt_get ps = (rt_get (rm_procs k))(pid := None)"
    using assms(3) by (auto intro: rt_remove_spec [OF assms(1), of pid])
  define tids where "tids = map fst (filter (\<lambda>(tid, t). t_pid (task_of k t) = pid) (rt_iter (rm_tasks k)))"
  obtain r ts where ts: "remove_keys tids (rm_tasks k) = Some (r, ts)" "rt_ok ts" using remove_keys_ok [OF assms(2)] by blast
  show thesis
    by (rule that [of "with_sched (\<lambda>s. snd (remove_tasks_by_pid pid s))
          (emit (MmRelease (p_mm p)) (emit (DropFds pid) (k\<lparr>rm_procs := ps, rm_tasks := ts\<rparr>)))"])
      (simp_all add: forget_process_def remove_tasks_by_process_def ps ts tids_def [symmetric] Let_def)
qed

section \<open>The operations\<close>

text \<open>What an operation may do to the state: keep the invariant and the tasks. A panic has no such state.\<close>

definition step_ok :: "Runtime \<Rightarrow> Runtime option \<Rightarrow> bool" where
  "step_ok k r \<longleftrightarrow> (\<exists>k'. r = Some k' \<and> runtime_ok k' \<and> rm_next_pid k' = rm_next_pid k \<and>
     active_cpu_slots (rm_sched k') = active_cpu_slots (rm_sched k) \<and> kept (s_tasks (rm_sched k)) (s_tasks (rm_sched k')))"

lemma step_okI:
  "r = Some k' \<Longrightarrow> runtime_ok k' \<Longrightarrow> rm_next_pid k' = rm_next_pid k \<Longrightarrow> active_cpu_slots (rm_sched k') = active_cpu_slots (rm_sched k) \<Longrightarrow>
   kept (s_tasks (rm_sched k)) (s_tasks (rm_sched k')) \<Longrightarrow> step_ok k r"
  by (auto simp: step_ok_def)

lemma step_ok_same: "runtime_ok k \<Longrightarrow> step_ok k (Some k)"
  by (rule step_okI [OF refl]) simp_all

lemma step_ok_trans:
  "runtime_ok k1 \<Longrightarrow> rm_next_pid k1 = rm_next_pid k \<Longrightarrow> active_cpu_slots (rm_sched k1) = active_cpu_slots (rm_sched k) \<Longrightarrow>
   kept (s_tasks (rm_sched k)) (s_tasks (rm_sched k1)) \<Longrightarrow> step_ok k1 r \<Longrightarrow> step_ok k r"
  unfolding step_ok_def by (metis kept_trans)

lemma remove_tasks_slots [simp]: "active_cpu_slots (snd (remove_tasks_by_pid pid s)) = active_cpu_slots s"
  by (simp add: remove_tasks_by_pid_def Let_def active_cpu_slots_def)

lemma set_task_slots [simp]: "active_cpu_slots (set_task t task s) = active_cpu_slots s"
  by (simp add: set_task_def active_cpu_slots_def)

lemma enqueue_slots [simp]: "active_cpu_slots (enqueue_on_cpu t c s) = active_cpu_slots s" "active_cpu_slots (add_task t c s) = active_cpu_slots s"
  by (simp_all add: add_task_def enqueue_on_cpu_def mark_task_ready_if_schedulable_def Let_def active_cpu_slots_def set_status_def set_task_def)

lemma fold_slots: "(\<And>x s. active_cpu_slots (f x s) = active_cpu_slots s) \<Longrightarrow> active_cpu_slots (fold f xs s) = active_cpu_slots s"
  by (induction xs arbitrary: s) simp_all

lemma exit_tasks [simp]:
  "active_cpu_slots (fold (exit_task code) us s) = active_cpu_slots s"
  "status (fold (exit_task code) us s) t = (if t \<in> set us then Exited else status s t)"
  "t_pid (s_tasks (fold (exit_task code) us s) t) = t_pid (s_tasks s t)"
  by (induction us arbitrary: s) (auto simp: exit_task_def set_task_def active_cpu_slots_def)

lemma kept_exit_tasks: "kept (s_tasks s) (s_tasks (fold (exit_task code) us s))"
  by (rule kept_fold) (rule kept_exit_task)

lemma proc_ok_zombie:
  "proc_ok ts np pid p \<Longrightarrow> \<forall>t \<in> set (p_tasks p). t_status (ts t) = Exited \<Longrightarrow>
   proc_ok ts np pid (mark_zombie (mark_exiting code p)) \<and> proc_ok ts np pid (snd (take_exec_mappings (mark_zombie (mark_exiting code p))))"
  by (simp add: proc_ok_def wait_status_ok_def mark_zombie_def mark_exiting_def take_exec_mappings_def)

lemma proc_ok_running:
  "proc_ok ts np pid p \<Longrightarrow> proc_ok ts np pid (mark_stopped sig p) \<and> proc_ok ts np pid (mark_continued p) \<and>
     proc_ok ts np pid (record_exec_request path argc envc p) \<and> proc_ok ts np pid (clear_wait_continued_pending p) \<and>
     proc_ok ts np pid (snd (take_exec_mappings p)) \<and> proc_ok ts np pid (snd (replace_exec_mappings pages p)) \<and>
     proc_ok ts np pid (p\<lparr>p_is_clone_child := b\<rparr>)"
  "proc_ok ts np pid p \<Longrightarrow> p_status p = PStopped \<Longrightarrow> proc_ok ts np pid (mark_wait_stopped_reported p)"
  by (auto simp: proc_ok_def wait_status_ok_def mark_stopped_def mark_continued_def record_exec_request_def clear_wait_continued_pending_def
      take_exec_mappings_def replace_exec_mappings_def mark_wait_stopped_reported_def)

lemma relatives_same [simp]:
  "p_children (mark_zombie p) = p_children p" "p_parent (mark_zombie p) = p_parent p"
  "p_children (mark_exiting code p) = p_children p" "p_parent (mark_exiting code p) = p_parent p"
  "p_children (mark_stopped sig p) = p_children p" "p_parent (mark_stopped sig p) = p_parent p"
  "p_children (mark_continued p) = p_children p" "p_parent (mark_continued p) = p_parent p"
  "p_children (record_exec_request path argc envc p) = p_children p" "p_parent (record_exec_request path argc envc p) = p_parent p"
  "p_children (clear_wait_continued_pending p) = p_children p" "p_parent (clear_wait_continued_pending p) = p_parent p"
  "p_children (mark_wait_stopped_reported p) = p_children p" "p_parent (mark_wait_stopped_reported p) = p_parent p"
  "p_children (snd (take_exec_mappings p)) = p_children p" "p_parent (snd (take_exec_mappings p)) = p_parent p"
  "p_children (snd (replace_exec_mappings pages p)) = p_children p" "p_parent (snd (replace_exec_mappings pages p)) = p_parent p"
  by (simp_all add: mark_zombie_def mark_exiting_def mark_stopped_def mark_continued_def record_exec_request_def
      clear_wait_continued_pending_def take_exec_mappings_def replace_exec_mappings_def mark_wait_stopped_reported_def)

lemma reap_orphan_ok:
  assumes "runtime_ok k"
  shows "step_ok k (reap_orphan_zombie_process pid k)"
proof (cases "find_process_by_pid k pid")
  case None
  then show ?thesis using step_ok_same [OF assms] by (simp add: reap_orphan_zombie_process_def)
next
  case (Some p)
  have k: "rt_ok (rm_procs k)" "rt_ok (rm_tasks k)" "family (rt_get (rm_procs k)) (s_tasks (rm_sched k)) (rm_next_pid k)"
    using assms by (simp_all add: runtime_ok_def)
  have p: "rt_get (rm_procs k) pid = Some p" using Some by (simp add: find_process_by_pid_def)
  show ?thesis
  proof (cases "p_parent p = None \<and> p_status p = PZombie")
    case True
    obtain k' where k': "forget_process pid k = Some (Some p, k')" "rt_ok (rm_procs k')" "rt_ok (rm_tasks k')"
      "rt_get (rm_procs k') = (rt_get (rm_procs k))(pid := None)" "rm_sched k' = snd (remove_tasks_by_pid pid (rm_sched k))"
      "rm_next_pid k' = rm_next_pid k"
      by (rule forget_process_spec [OF k(1,2) p])
    have "runtime_ok k'" using family_remove_orphan [OF k(3) p] True k' by (simp add: runtime_ok_def)
    then show ?thesis using True Some k' by (intro step_okI [of _ k']) (simp_all add: reap_orphan_zombie_process_def)
  next
    case False
    then show ?thesis using Some step_ok_same [OF assms] by (auto simp: reap_orphan_zombie_process_def)
  qed
qed

lemma become_zombie_ok:
  assumes "runtime_ok k" "find_process_by_pid k pid = Some p" "\<forall>t \<in> set (p_tasks p). t_status (task_of k t) = Exited"
  obtains k' where "become_zombie c code pid k = Some (p, k')" "runtime_ok k'" "rm_next_pid k' = rm_next_pid k" "rm_sched k' = rm_sched k"
proof (rule that)
  let ?f = "\<lambda>p. snd (take_exec_mappings (mark_zombie (mark_exiting code p)))"
  show "become_zombie c code pid k = Some (p, rollback c (p_exec_mappings p) (with_process pid ?f k))"
    by (simp add: become_zombie_def assms(2))
  show "runtime_ok (rollback c (p_exec_mappings p) (with_process pid ?f k))"
    using with_process_ok [OF assms(1), of pid ?f] assms(2,3) proc_ok_zombie by simp
qed simp_all

lemma exit_current_task_ok:
  assumes "runtime_ok k"
  shows "step_ok k (exit_current_task c code k)"
proof (cases "current c k")
  case None
  then show ?thesis using step_ok_same [OF assms] by (simp add: exit_current_task_def)
next
  case (Some t)
  define k1 where "k1 = with_sched (exit_task code t) k"
  define pid where "pid = t_pid (task_of k t)"
  have k1: "runtime_ok k1" "rm_next_pid k1 = rm_next_pid k" "active_cpu_slots (rm_sched k1) = active_cpu_slots (rm_sched k)"
    "kept (s_tasks (rm_sched k)) (s_tasks (rm_sched k1))"
    using with_sched_ok [OF assms, of "exit_task code t"] kept_exit_task by (simp_all add: k1_def exit_task_def)
  have "step_ok k1 (exit_current_task c code k)"
  proof (cases "\<exists>p. find_process_by_pid k1 pid = Some p \<and> (\<forall>u \<in> set (p_tasks p). t_status (task_of k1 u) = Exited)")
    case True
    then obtain p where p: "find_process_by_pid k1 pid = Some p" "\<forall>u \<in> set (p_tasks p). t_status (task_of k1 u) = Exited" by blast
    obtain k2 where k2: "become_zombie c code pid k1 = Some (p, k2)" "runtime_ok k2" "rm_next_pid k2 = rm_next_pid k1" "rm_sched k2 = rm_sched k1"
      by (rule become_zombie_ok [OF k1(1) p])
    have "exit_current_task c code k = (if p_parent p = None then reap_orphan_zombie_process pid k2 else Some k2)"
      using p k2(1) by (simp add: exit_current_task_def Some Let_def k1_def pid_def list_all_iff)
    then show ?thesis
      using step_ok_trans [of k2 k1, OF k2(2,3)] reap_orphan_ok [OF k2(2)] step_ok_same [OF k2(2)] k2(4) by simp
  next
    case False
    then have "exit_current_task c code k = Some k1"
      by (auto simp: exit_current_task_def Some Let_def k1_def pid_def list_all_iff split: option.split)
    then show ?thesis using step_ok_same [OF k1(1)] by simp
  qed
  then show ?thesis by (rule step_ok_trans [OF k1])
qed

lemma exit_current_process_ok:
  assumes "runtime_ok k"
  shows "step_ok k (exit_current_process c code k)"
proof (cases "current c k")
  case None
  then show ?thesis using step_ok_same [OF assms] by (simp add: exit_current_process_def)
next
  case (Some t)
  define pid where "pid = t_pid (task_of k t)"
  show ?thesis
  proof (cases "find_process_by_pid k pid")
    case None
    have "exit_current_process c code k = Some (with_sched (exit_task code t) k)"
      using None by (simp add: exit_current_process_def Some Let_def pid_def)
    then show ?thesis
      using with_sched_ok [OF assms, of "exit_task code t"] kept_exit_task by (intro step_okI [of _ "with_sched (exit_task code t) k"]) (simp_all add: exit_task_def)
  next
    case p: (Some p)
    define k1 where "k1 = with_sched (fold (exit_task code) (p_tasks p)) k"
    have k1: "runtime_ok k1" "rm_next_pid k1 = rm_next_pid k" "active_cpu_slots (rm_sched k1) = active_cpu_slots (rm_sched k)"
      "kept (s_tasks (rm_sched k)) (s_tasks (rm_sched k1))"
      using with_sched_ok [OF assms, of "fold (exit_task code) (p_tasks p)"] kept_exit_tasks by (simp_all add: k1_def)
    have p1: "find_process_by_pid k1 pid = Some p" "\<forall>u \<in> set (p_tasks p). t_status (task_of k1 u) = Exited"
      using p by (simp_all add: k1_def find_process_by_pid_def)
    obtain k2 where k2: "become_zombie c code pid k1 = Some (p, k2)" "runtime_ok k2" "rm_next_pid k2 = rm_next_pid k1" "rm_sched k2 = rm_sched k1"
      by (rule become_zombie_ok [OF k1(1) p1])
    define k3 where "k3 = with_sched (\<lambda>s. snd (remove_tasks_by_pid pid s)) k2"
    have k3: "runtime_ok k3" "rm_next_pid k3 = rm_next_pid k1" "active_cpu_slots (rm_sched k3) = active_cpu_slots (rm_sched k1)"
      "kept (s_tasks (rm_sched k1)) (s_tasks (rm_sched k3))"
      using with_sched_ok [OF k2(2)] k2(3,4) by (simp_all add: k3_def)
    have "exit_current_process c code k = (if p_parent p = None then reap_orphan_zombie_process pid k3 else Some k3)"
      using p k2(1) by (simp add: exit_current_process_def Some Let_def k1_def pid_def k3_def)
    then have "step_ok k1 (exit_current_process c code k)"
      using step_ok_trans [OF k3] reap_orphan_ok [OF k3(1)] step_ok_same [OF k3(1)] by simp
    then show ?thesis by (rule step_ok_trans [OF k1])
  qed
qed

section \<open>Signals\<close>

lemma kept_stop_tasks:
  "kept (s_tasks s) (s_tasks (fold stop_task us s))" "active_cpu_slots (fold stop_task us s) = active_cpu_slots s"
  by (rule kept_fold, rule kept_stop_task) (rule fold_slots, simp add: stop_task_def)

lemma kept_continue_tasks:
  "kept (s_tasks s) (s_tasks (fold (continue_task c) us s))" "active_cpu_slots (fold (continue_task c) us s) = active_cpu_slots s"
  by (rule kept_fold, rule kept_continue_task) (rule fold_slots, simp add: continue_task_def)

lemma step_ok_sched:
  "runtime_ok k \<Longrightarrow> kept (s_tasks (rm_sched k)) (s_tasks (g (rm_sched k))) \<Longrightarrow>
   active_cpu_slots (g (rm_sched k)) = active_cpu_slots (rm_sched k) \<Longrightarrow> step_ok k (Some (with_sched g k))"
  by (rule step_okI [OF refl]) (simp_all add: with_sched_ok)

lemma step_ok_process:
  "runtime_ok (with_process pid f k) \<Longrightarrow> step_ok k (Some (with_process pid f k))"
  by (rule step_okI [OF refl]) simp_all

lemma step_ok_then: "step_ok k (Some k1) \<Longrightarrow> step_ok k1 r \<Longrightarrow> step_ok k r"
  by (rule step_ok_trans [of k1]) (simp_all add: step_ok_def)

lemma step_ok_runtime: "step_ok k (Some k1) \<Longrightarrow> runtime_ok k1"
  by (simp add: step_ok_def)

lemma terminate_ok:
  assumes "runtime_ok k" "find_process_by_pid k pid = Some p"
  shows "step_ok k (Some (with_sched (\<lambda>s. snd (remove_tasks_by_pid pid s))
    (with_process pid (\<lambda>p. mark_zombie (mark_exiting code p)) (with_sched (fold (exit_task code) (p_tasks p)) k))))"
proof -
  define k1 where "k1 = with_sched (fold (exit_task code) (p_tasks p)) k"
  have 1: "step_ok k (Some k1)" unfolding k1_def by (rule step_ok_sched [OF assms(1)]) (simp_all add: kept_exit_tasks)
  have "step_ok k1 (Some (with_process pid (\<lambda>p. mark_zombie (mark_exiting code p)) k1))"
  proof (rule step_ok_process, rule with_process_ok [OF step_ok_runtime [OF 1]])
    fix q
    assume "find_process_by_pid k1 pid = Some q" and q: "proc_ok (task_of k1) (rm_next_pid k1) pid q"
    then have "q = p" using assms(2) by (simp add: k1_def find_process_by_pid_def)
    then have "\<forall>t \<in> set (p_tasks q). t_status (task_of k1 t) = Exited" by (simp add: k1_def)
    then show "proc_ok (task_of k1) (rm_next_pid k1) pid (mark_zombie (mark_exiting code q)) \<and>
        p_children (mark_zombie (mark_exiting code q)) = p_children q \<and> p_parent (mark_zombie (mark_exiting code q)) = p_parent q"
      using proc_ok_zombie [OF q] by simp
  qed
  then have 2: "step_ok k (Some (with_process pid (\<lambda>p. mark_zombie (mark_exiting code p)) k1))" by (rule step_ok_then [OF 1])
  show ?thesis
    unfolding k1_def [symmetric] by (rule step_ok_then [OF 2 step_ok_sched [OF step_ok_runtime [OF 2]]]) simp_all
qed

lemma send_signal_ok:
  assumes "runtime_ok k"
  shows "step_ok k (Some (snd (send_signal c pid sig k)))"
proof (cases "find_process_by_pid k pid")
  case (Some p)
  have mark: "step_ok k (Some (with_process pid (mark_stopped 19) k))" "step_ok k (Some (with_process pid mark_continued k))"
    by (rule step_ok_process, rule with_process_ok [OF assms], use proc_ok_running in simp)+
  note ok = mark [THEN step_ok_runtime]
  have stop: "step_ok k (Some (with_sched (fold stop_task us) (with_process pid (mark_stopped 19) k)))" for us
    by (rule step_ok_then [OF mark(1) step_ok_sched [OF ok(1)]]) (simp_all add: kept_stop_tasks)
  have "step_ok k (Some (with_sched (\<lambda>s. snd (remove_tasks_by_pid pid s)) (with_sched (fold stop_task us) (with_process pid (mark_stopped 19) k))))" for us
    by (rule step_ok_then [OF stop step_ok_sched [OF step_ok_runtime [OF stop]]]) simp_all
  moreover have "step_ok k (Some (with_sched (fold (continue_task c) us) (with_process pid mark_continued k)))" for us
    by (rule step_ok_then [OF mark(2) step_ok_sched [OF ok(2)]]) (simp_all add: kept_continue_tasks)
  ultimately show ?thesis
    using terminate_ok [OF assms Some] step_ok_same [OF assms] by (simp add: send_signal_def Some Let_def)
qed (simp add: send_signal_def step_ok_same [OF assms])

section \<open>Waiting\<close>

lemma parent_owns_childE:
  assumes "parent_owns_child c k child = Some ppid"
  obtains t p where "current c k = Some t" "t_pid (task_of k t) = ppid" "find_process_by_pid k ppid = Some p" "child \<in> set (p_children p)"
  using assms by (auto simp: parent_owns_child_def current_pid_def split: Option.bind_splits if_splits)

lemma reap_spec:
  assumes k: "runtime_ok k" and own: "parent_owns_child c k child = Some ppid" and p: "find_process_by_pid k ppid = Some p"
    and q: "find_process_by_pid k child = Some q" "p_status q = PZombie"
  obtains k' code where "p_exit_code q = Some code" "reap_observed_child c child k = Some (Some (child, code), k')"
    "runtime_ok k'" "find_process_by_pid k' = (find_process_by_pid k)(ppid \<mapsto> remove_child child p, child := None)"
    "rm_sched k' = snd (remove_tasks_by_pid child (rm_sched k))" "rm_next_pid k' = rm_next_pid k"
    "rm_effects k' = rm_effects k @ [DropFds child, MmRelease (p_mm q)] @
       (if p_exec_mappings q = [] then [] else [RollbackMappings (current_mm_ptr c k) (p_exec_mappings q)])"
proof -
  define M where "M = rt_get (rm_procs k)"
  have M: "find_process_by_pid k = M" by (simp add: find_process_by_pid_def M_def fun_eq_iff)
  have ok: "rt_ok (rm_procs k)" "rt_ok (rm_tasks k)" "family M (task_of k) (rm_next_pid k)"
    using k by (simp_all add: runtime_ok_def M_def)
  obtain t where t: "current c k = Some t" "t_pid (task_of k t) = ppid" "child \<in> set (p_children p)"
    using own p by (auto elim!: parent_owns_childE)
  have pq: "M ppid = Some p" "M child = Some q" using p q(1) by (simp_all add: M)
  have "p_parent q = Some ppid" using ok(3) pq t(3) unfolding family_def by fastforce
  moreover have okq: "proc_ok (task_of k) (rm_next_pid k) child q" using ok(3) pq(2) unfolding family_def by blast
  ultimately have ne: "ppid \<noteq> child" by (auto simp: proc_ok_def)
  obtain code where code: "p_exit_code q = Some code" using okq q(2) by (auto simp: proc_ok_def wait_status_ok_def)
  define k2 where "k2 = with_process ppid (remove_child child) (with_process child (\<lambda>p. snd (take_exec_mappings p)) k)"
  have k2: "rt_ok (rm_procs k2)" "rt_get (rm_procs k2) = M(child \<mapsto> snd (take_exec_mappings q), ppid \<mapsto> remove_child child p)"
    using with_process_get [OF with_process_get(1) [OF ok(1)]] with_process_get(2) [OF ok(1)] pq ne by (simp_all add: k2_def M_def)
  obtain k3 where k3: "forget_process child k2 = Some (Some (snd (take_exec_mappings q)), k3)" "rt_ok (rm_procs k3)" "rt_ok (rm_tasks k3)"
    "rt_get (rm_procs k3) = (rt_get (rm_procs k2))(child := None)" "rm_sched k3 = snd (remove_tasks_by_pid child (rm_sched k2))"
    "rm_next_pid k3 = rm_next_pid k2" "rm_init_mm k3 = rm_init_mm k2"
    "rm_effects k3 = rm_effects k2 @ [DropFds child, MmRelease (p_mm (snd (take_exec_mappings q)))]"
    by (rule forget_process_spec [OF k2(1), of child "snd (take_exec_mappings q)"]) (use ok(2) k2(2) ne in \<open>simp_all add: k2_def\<close>)
  have get: "rt_get (rm_procs k3) = M(ppid \<mapsto> remove_child child p, child := None)" using k3(4) k2(2) ne by (auto simp: fun_eq_iff)
  have sched: "rm_sched k3 = snd (remove_tasks_by_pid child (rm_sched k))" using k3(5) by (simp add: k2_def)
  have mm: "current_mm_ptr c k3 = current_mm_ptr c k"
    using t(1,2) pq(1) ne
    by (simp add: current_mm_ptr_def current_pid_def current_def sched remove_tasks_by_pid_def Let_def current_task_def find_process_by_pid_def
        get M_def [symmetric] k3(7) k2_def) (simp add: remove_child_def split: option.split)
  have fam: "runtime_ok k3"
    using family_reap [OF ok(3) pq(1) t(3)] get k3(2,3,6) sched by (simp add: runtime_ok_def k2_def)
  have run: "reap_observed_child c child k = Some (Some (child, code), rollback c (p_exec_mappings q) k3)"
    using k3(1) by (simp add: reap_observed_child_def own q code Let_def k2_def [symmetric])
  show thesis
    by (rule that [OF code run])
      (use fam get sched k3(6,8) mm in \<open>simp_all add: find_process_by_pid_def fun_eq_iff M_def k2_def rollback_effects take_exec_mappings_def\<close>)
qed

lemma reap_observed_child_ok:
  assumes "runtime_ok k" "reap_observed_child c child k = r"
  shows "\<exists>x k'. r = Some (x, k') \<and> step_ok k (Some k')"
proof (cases "\<exists>ppid q. parent_owns_child c k child = Some ppid \<and> find_process_by_pid k child = Some q \<and> p_status q = PZombie")
  case True
  then obtain ppid q where pq: "parent_owns_child c k child = Some ppid" "find_process_by_pid k child = Some q" "p_status q = PZombie" by blast
  obtain p where "find_process_by_pid k ppid = Some p" by (rule parent_owns_childE [OF pq(1)])
  note own = pq(1) this pq(2,3)
  obtain k' code where k': "reap_observed_child c child k = Some (Some (child, code), k')" "runtime_ok k'"
    "rm_sched k' = snd (remove_tasks_by_pid child (rm_sched k))" "rm_next_pid k' = rm_next_pid k"
    by (rule reap_spec [OF assms(1) own])
  have "step_ok k (Some k')" by (rule step_okI [OF refl k'(2,4)]) (simp_all add: k'(3))
  then show ?thesis using k'(1) assms(2) by auto
next
  case False
  then have "reap_observed_child c child k = Some (None, k)"
    by (auto simp: reap_observed_child_def split: option.split)
  then show ?thesis using assms step_ok_same [OF assms(1)] by auto
qed

lemma consume_event_ok:
  assumes "runtime_ok k"
  shows "step_ok k (Some (snd (consume_observed_wait_event c child ev k)))"
proof -
  have cont: "step_ok k (Some (with_process child clear_wait_continued_pending k))"
    by (rule step_ok_process, rule with_process_ok [OF assms]) (use proc_ok_running in simp)
  have "step_ok k (Some (with_process child mark_wait_stopped_reported k))" if "find_process_by_pid k child = Some q" "p_status q = PStopped" for q
    by (rule step_ok_process, rule with_process_ok [OF assms]) (use proc_ok_running that in auto)
  then show ?thesis
    using cont step_ok_same [OF assms]
    by (simp add: consume_observed_wait_event_def split: option.split WaitChildConsumeEvent.split)
qed

lemma wait_round_ok:
  assumes "runtime_ok k"
  shows "\<exists>r k'. wait_round c now target options nohang k = Some (r, k') \<and> step_ok k (Some k')"
proof (cases "wait_child_observe c target options k")
  case (Reapable child code)
  then show ?thesis using reap_observed_child_ok [OF assms refl, of c child] by (auto simp: wait_round_def Let_def)
next
  case (ChildStopped child sig)
  then show ?thesis
    using consume_event_ok [OF assms, of c child ConsumeStopped]
    by (cases "consume_observed_wait_event c child ConsumeStopped k") (auto simp: wait_round_def Let_def split: bool.split)
next
  case (ChildContinued child)
  then show ?thesis
    using consume_event_ok [OF assms, of c child ConsumeContinued]
    by (cases "consume_observed_wait_event c child ConsumeContinued k") (auto simp: wait_round_def Let_def split: bool.split)
qed (use step_ok_same [OF assms] in \<open>simp_all add: wait_round_def Let_def\<close>)

section \<open>Spawning\<close>

text \<open>The new process is added to the table and to the children of its parent, when that is still there.\<close>

definition joined :: "u64 \<Rightarrow> Process \<Rightarrow> (u64 \<Rightarrow> Process option) \<Rightarrow> u64 \<Rightarrow> Process option" where
  "joined pid p M =
     (case p_parent p of
        None \<Rightarrow> M(pid \<mapsto> p)
      | Some ppid \<Rightarrow> (case M ppid of None \<Rightarrow> M(pid \<mapsto> p) | Some q \<Rightarrow> M(pid \<mapsto> p, ppid \<mapsto> add_child pid q)))"

definition newborn :: "(nat \<Rightarrow> Task) \<Rightarrow> u64 \<Rightarrow> nat \<Rightarrow> Process \<Rightarrow> bool" where
  "newborn ts pid addr p \<longleftrightarrow>
     p_pid p = pid \<and> p_children p = [] \<and> p_tasks p = [addr] \<and> p_status p = PRunning \<and> wait_status_ok p \<and> t_pid (ts addr) = pid \<and>
     (\<forall>pp. p_parent p = Some pp \<longrightarrow> pp < pid)"

text \<open>The tasks other than the new one are kept.\<close>

definition kept_but :: "nat \<Rightarrow> (nat \<Rightarrow> Task) \<Rightarrow> (nat \<Rightarrow> Task) \<Rightarrow> bool" where
  "kept_but addr ts ts' \<longleftrightarrow> (\<forall>t. t \<noteq> addr \<longrightarrow> t_pid (ts' t) = t_pid (ts t) \<and> (t_status (ts t) = Exited \<longrightarrow> t_status (ts' t) = Exited))"

lemma kept_but_trans: "kept_but addr a b \<Longrightarrow> kept b c \<Longrightarrow> kept_but addr a c"
  by (simp add: kept_but_def kept_def)

lemma add_child_frame [simp]:
  "p_pid (add_child c p) = p_pid p" "p_parent (add_child c p) = p_parent p" "p_tasks (add_child c p) = p_tasks p"
  "p_status (add_child c p) = p_status p" "wait_status_ok (add_child c p) = wait_status_ok p"
  "set (p_children (add_child c p)) = insert c (set (p_children p))" "distinct (p_children (add_child c p)) = distinct (p_children p)"
  by (auto simp: add_child_def wait_status_ok_def)

lemma proc_ok_spawn:
  assumes "proc_ok ts np pid q" "np < np'" "kept_but addr ts ts'" "addr \<notin> set (p_tasks q)"
  shows "proc_ok ts' np' pid q" "proc_ok ts' np' pid (add_child child q)"
proof -
  have "\<forall>t \<in> set (p_tasks q). t_pid (ts' t) = t_pid (ts t) \<and> (t_status (ts t) = Exited \<longrightarrow> t_status (ts' t) = Exited)"
    using assms(3,4) by (auto simp: kept_but_def)
  then show "proc_ok ts' np' pid q" "proc_ok ts' np' pid (add_child child q)"
    using assms(1,2) less_trans [of pid np np'] by (auto simp: proc_ok_def)
qed

lemma family_spawn:
  assumes fam: "family M ts np" and np: "np < np'" and ts': "kept_but addr ts ts'" and fresh: "\<forall>pid q. M pid = Some q \<longrightarrow> addr \<notin> set (p_tasks q)"
    and p: "newborn ts' np addr p"
  shows "family (joined np p M) ts' np'"
proof -
  note nil = family_fresh [OF fam]
  have old: "proc_ok ts' np' i q" "proc_ok ts' np' i (add_child np q)" if "M i = Some q" for i q
    using proc_ok_spawn [OF _ np ts'] fam fresh that unfolding family_def by blast+
  have new: "proc_ok ts' np' np p" using p np by (simp add: newborn_def proc_ok_def)
  have pids: "t_pid (ts' t) < np'" for t
    using fam p np ts' less_trans [of "t_pid (ts t)" np np'] by (cases "t = addr") (auto simp: family_def newborn_def kept_but_def)
  have kids: "child \<in> set (p_children q) \<longleftrightarrow> (\<exists>r. M child = Some r \<and> p_parent r = Some i)" if "M i = Some q" for i q child
    using fam that unfolding family_def by blast
  have nonp: "p_children p = []" "p_parent p \<noteq> Some np" using p by (auto simp: newborn_def)
  show ?thesis
  proof (cases "\<exists>pp q. p_parent p = Some pp \<and> M pp = Some q")
    case True
    then obtain pp q where pp: "p_parent p = Some pp" "M pp = Some q" by blast
    then have ne: "pp \<noteq> np" using nil(1) by auto
    have J: "joined np p M = M(np \<mapsto> p, pp \<mapsto> add_child np q)" using pp by (simp add: joined_def)
    have "child \<in> set (p_children r) \<longleftrightarrow> (\<exists>r. joined np p M child = Some r \<and> p_parent r = Some i)" if "joined np p M i = Some r" for i r child
      using that kids [of i r child] kids [OF pp(2), of child] nil pp ne nonp unfolding J by (auto split: if_splits)
    moreover have "proc_ok ts' np' i r" if "joined np p M i = Some r" for i r
      using that old new pp(2) unfolding J by (auto split: if_splits)
    ultimately show ?thesis unfolding family_def using pids by blast
  next
    case False
    then have J: "joined np p M = M(np \<mapsto> p)" by (auto simp: joined_def split: option.split)
    have "child \<in> set (p_children r) \<longleftrightarrow> (\<exists>r. joined np p M child = Some r \<and> p_parent r = Some i)" if "joined np p M i = Some r" for i r child
      using that kids [of i r child] nil False nonp unfolding J by (auto split: if_splits)
    moreover have "proc_ok ts' np' i r" if "joined np p M i = Some r" for i r
      using that old new unfolding J by (auto split: if_splits)
    ultimately show ?thesis unfolding family_def using pids by blast
  qed
qed

lemma next_id_Some: "next_id n = Some (i, n') \<Longrightarrow> i = n \<and> n' = n + 1 \<and> n < n'"
proof -
  assume "next_id n = Some (i, n')"
  then have "i = n" "n' = n + 1" "unat n + 1 < 2 ^ 64" by (auto simp: next_id_def u64_checked_add_eq_Some split: Option.bind_splits)
  moreover from this have "unat (n + 1) = unat n + 1" by (simp add: unat_word_ariths)
  ultimately show ?thesis by (simp add: word_less_nat_alt)
qed

lemma resolve_child_mm_frame:
  "resolve_child_mm cloned pp m k = (r, k') \<Longrightarrow> rm_sched k' = rm_sched k \<and> rm_tasks k' = rm_tasks k \<and> rm_procs k' = rm_procs k \<and>
     rm_next_pid k' = rm_next_pid k \<and> rm_next_tid k' = rm_next_tid k \<and> rm_init_mm k' = rm_init_mm k"
  by (auto simp: resolve_child_mm_def Let_def split: SpawnMmMode.splits if_splits)

text \<open>No process has a task at the address of the new one.\<close>

definition unused :: "nat \<Rightarrow> Runtime \<Rightarrow> bool" where
  "unused addr k \<longleftrightarrow> (\<forall>pid q. find_process_by_pid k pid = Some q \<longrightarrow> addr \<notin> set (p_tasks q))"

lemma join_spec:
  assumes "rt_ok (rm_procs k)" "rt_get (rm_procs k) pid = None" "pp = p_parent p" "pp \<noteq> Some pid" "rt_insert pid p (rm_procs k) = Some (x, ps)"
    and k': "k' = (case pp of Some ppid \<Rightarrow> with_process ppid (add_child pid) (k\<lparr>rm_procs := ps, rm_tasks := tt\<rparr>) | None \<Rightarrow> k\<lparr>rm_procs := ps, rm_tasks := tt\<rparr>)"
  shows "rt_ok (rm_procs k')" "rt_get (rm_procs k') = joined pid p (rt_get (rm_procs k))" "rm_tasks k' = tt" "rm_sched k' = rm_sched k"
    "rm_next_pid k' = rm_next_pid k"
proof -
  obtain ps' where "rt_insert pid p (rm_procs k) = Some (rt_get (rm_procs k) pid, ps')" "rt_ok ps'" "rt_get ps' = (rt_get (rm_procs k))(pid \<mapsto> p)"
    by (rule rt_insert_spec [OF assms(1)])
  then have ps: "rt_ok ps" "rt_get ps = (rt_get (rm_procs k))(pid \<mapsto> p)" using assms(5) by simp_all
  note w = with_process_get [where k = "k\<lparr>rm_procs := ps, rm_tasks := tt\<rparr>" and f = "add_child pid"]
  show "rt_ok (rm_procs k')" "rt_get (rm_procs k') = joined pid p (rt_get (rm_procs k))"
    using w ps assms(3,4) unfolding k' by (auto simp: joined_def split: option.splits)
  show "rm_tasks k' = tt" "rm_sched k' = rm_sched k" "rm_next_pid k' = rm_next_pid k" unfolding k' by (simp_all split: option.split)
qed

lemma joined_ok:
  assumes k: "runtime_ok k" "unused addr k" and pid: "pid = rm_next_pid k" "pid < np"
    and k2: "rm_procs k2 = rm_procs k" "rm_next_pid k2 = np" "rm_sched k2 = set_task addr task (rm_sched k)"
    and p: "newborn (s_tasks (rm_sched k2)) pid addr p" and ins: "rt_insert pid p (rm_procs k2) = Some (x, ps)" "rt_ok tt"
    and k3: "k3 = (case p_parent p of Some ppid \<Rightarrow> with_process ppid (add_child pid) (k2\<lparr>rm_procs := ps, rm_tasks := tt\<rparr>) | None \<Rightarrow> k2\<lparr>rm_procs := ps, rm_tasks := tt\<rparr>)"
  shows "runtime_ok k3" "kept_but addr (task_of k) (task_of k3)" "rm_sched k3 = rm_sched k2"
proof -
  have ok: "rt_ok (rm_procs k2)" "family (rt_get (rm_procs k2)) (task_of k) pid" using k(1) pid(1) k2(1) by (simp_all add: runtime_ok_def)
  have "p_parent p \<noteq> Some pid" using p by (auto simp: newborn_def)
  note j = join_spec [OF ok(1) family_fresh(1) [OF ok(2)] refl this ins(1) k3]
  show kb: "kept_but addr (task_of k) (task_of k3)" using j(4) k2(3) by (simp add: kept_but_def set_task_def)
  have "newborn (task_of k3) pid addr p" using p j(4) by simp
  with kb have "family (joined pid p (rt_get (rm_procs k2))) (task_of k3) np"
    using family_spawn [OF ok(2) pid(2)] k(2) k2(1) by (simp add: unused_def find_process_by_pid_def)
  then show "runtime_ok k3" using j k2(2) ins(2) by (simp add: runtime_ok_def)
  show "rm_sched k3 = rm_sched k2" by (rule j(4))
qed

lemma spawn_ok:
  assumes k: "runtime_ok k" and fresh: "unused addr k" and r: "spawn_kernel_thread_checked c name m cloned addr sp k = r"
  shows "case r of
      None \<Rightarrow> next_id (rm_next_pid k) = None \<or> next_id (rm_next_tid k) = None
    | Some (x, k') \<Rightarrow> runtime_ok k' \<and> kept_but addr (task_of k) (task_of k') \<and> active_cpu_slots (rm_sched k') = active_cpu_slots (rm_sched k)"
proof (cases "next_id (rm_next_pid k)")
  case None
  then show ?thesis using r by (auto simp: spawn_kernel_thread_checked_def Let_def)
next
  case (Some ids)
  obtain np where np: "next_id (rm_next_pid k) = Some (rm_next_pid k, np)" "rm_next_pid k < np"
    using Some next_id_Some [of "rm_next_pid k" "fst ids" "snd ids"] by (cases ids) auto
  define pid where "pid = rm_next_pid k"
  define pp where "pp = map_option t_pid (map_option (task_of k) (current c k))"
  obtain mm k1 where k1: "resolve_child_mm cloned pp m (k\<lparr>rm_next_pid := np\<rparr>) = (mm, k1)" by force
  note f1 = resolve_child_mm_frame [OF k1]
  have ok: "rt_ok (rm_procs k)" "rt_ok (rm_tasks k)" "family (rt_get (rm_procs k)) (task_of k) pid" using k by (simp_all add: runtime_ok_def pid_def)
  have ppl: "x < pid" if "pp = Some x" for x using that ok(3) by (auto simp: pp_def family_def)
  show ?thesis
  proof (cases "mm = None \<or> next_id (rm_next_tid k) = None")
    case True
    have "runtime_ok k1" using ok family_later [OF ok(3), of np] np(2) f1 by (simp add: runtime_ok_def pid_def)
    then show ?thesis
      using True r np k1 f1 by (auto simp: spawn_kernel_thread_checked_def Let_def pp_def [symmetric] kept_but_def active_cpu_slots_def split: option.splits)
  next
    case False
    then obtain a tid nt where a: "mm = Some a" and nt: "next_id (rm_next_tid k) = Some (tid, nt)" by auto
    define task where "task = task_new_for_process name tid sp pid (case pp of Some p \<Rightarrow> p | None \<Rightarrow> 0)"
    define k2 where "k2 = with_sched (set_task addr task) (k1\<lparr>rm_next_tid := nt\<rparr>)"
    define pgid where "pgid = (case pp of Some p \<Rightarrow> (case find_process_by_pid (k\<lparr>rm_next_pid := np\<rparr>) p of Some q \<Rightarrow> p_pgid q | None \<Rightarrow> pid) | None \<Rightarrow> pid)"
    define p where "p = proc_add_task addr ((new_kernel_with_pid (rm_init_mm k) name pid pgid pp (map_option t_id (map_option (task_of k) (current c k))))\<lparr>p_mm := a\<rparr>)"
    have k2: "rm_procs k2 = rm_procs k" "rm_tasks k2 = rm_tasks k" "rm_next_pid k2 = np" "rm_sched k2 = set_task addr task (rm_sched k)"
      using f1 by (simp_all add: k2_def)
    have par: "p_parent p = pp" by (simp add: p_def proc_add_task_def new_kernel_with_pid_def)
    obtain ps where ps: "rt_insert pid p (rm_procs k2) = Some (rt_get (rm_procs k2) pid, ps)" using rt_insert_spec [OF ok(1), of pid p] k2(1) by metis
    obtain tt where tt: "rt_insert tid addr (rm_tasks k2) = Some (rt_get (rm_tasks k2) tid, tt)" "rt_ok tt" using rt_insert_spec [OF ok(2), of tid addr] k2(2) by metis
    define k3 where "k3 = (case pp of Some ppid \<Rightarrow> with_process ppid (add_child pid) (k2\<lparr>rm_procs := ps, rm_tasks := tt\<rparr>) | None \<Rightarrow> k2\<lparr>rm_procs := ps, rm_tasks := tt\<rparr>)"
    have run: "r = Some (Some addr, with_sched (add_task addr c) k3)"
      unfolding r [symmetric] k3_def k2_def task_def using np(1) k1 a nt ps [unfolded k2(1)] tt(1) [unfolded k2(2)] f1
      by (simp add: spawn_kernel_thread_checked_def Let_def pp_def [symmetric] pid_def [symmetric] pgid_def [symmetric] p_def [symmetric])
    have "newborn (s_tasks (rm_sched k2)) pid addr p"
      using k2(4) ppl by (auto simp: newborn_def set_task_def p_def proc_add_task_def new_kernel_with_pid_def wait_status_ok_def task_def task_new_for_process_def)
    note j = joined_ok [OF k fresh pid_def np(2) [folded pid_def] k2(1,3,4) this ps tt(2) k3_def [folded par]]
    have "runtime_ok (with_sched (add_task addr c) k3)" using j(1) by (rule with_sched_ok) (rule kept_add_task)
    then show ?thesis
      using run kept_but_trans [OF j(2) kept_add_task] j(3) k2(4) by simp
  qed
qed

end
