(* ===== verification/Process_Props.thy ===== *)
theory Process_Props
  imports Process_Proofs
begin

text \<open>
  The processes as a state machine: the events are the calls into the task manager, the signals and
  the scheduler, from the state the kernel boots with. The properties are the invariant of the
  process table with the safety of every event, and what waiting for an exited child does.
\<close>

section \<open>Events\<close>

datatype run_event =
    RSpawn nat string SpawnMmMode u64 nat u64
  | RClone nat usize usize usize usize usize bool u64 nat u64
  | RExitTask nat int
  | RExitProcess nat int
  | RSignal nat u64 int
  | RWait nat u64 WaitTarget WaitChildOptions bool
  | RExec nat string nat nat
  | RSetMappings nat "ExecMappedPage list"
  | RTakeMappings nat
  | RSchedule nat u64 u64 u64

fun run_exec :: "run_event \<Rightarrow> Runtime \<Rightarrow> Runtime option" where
  "run_exec (RSpawn c name m cloned addr sp) k = map_option snd (spawn_kernel_thread_checked c name m cloned addr sp k)"
| "run_exec (RClone c flags stack ptid ctid tls frame cloned addr sp) k =
     map_option snd (clone_current c flags stack ptid ctid tls frame cloned addr sp k)"
| "run_exec (RExitTask c code) k = exit_current_task c code k"
| "run_exec (RExitProcess c code) k = exit_current_process c code k"
| "run_exec (RSignal c pid sig) k = Some (snd (send_signal c pid sig k))"
| "run_exec (RWait c now target options nohang) k = map_option snd (wait_round c now target options nohang k)"
| "run_exec (RExec c path argc envc) k = Some (snd (record_current_exec_request c path argc envc k))"
| "run_exec (RSetMappings c pages) k = Some (snd (set_current_exec_mappings c pages k))"
| "run_exec (RTakeMappings c) k = Some (snd (take_current_exec_mappings c k))"
| "run_exec (RSchedule c now now' sp) k = Some (with_sched (\<lambda>s. snd (schedule c now now' sp s)) k)"

text \<open>The address an event allocates for a new task; it is not the address of a task of a process.\<close>

fun spawned :: "run_event \<Rightarrow> nat option" where
  "spawned (RSpawn c name m cloned addr sp) = Some addr"
| "spawned (RClone c flags stack ptid ctid tls frame cloned addr sp) = Some addr"
| "spawned _ = None"

definition run_ok :: "Runtime \<Rightarrow> run_event \<Rightarrow> bool" where
  "run_ok k e \<longleftrightarrow> (case spawned e of Some addr \<Rightarrow> unused addr k | None \<Rightarrow> True)"

inductive runtime_reach :: "Runtime \<Rightarrow> Runtime \<Rightarrow> bool" where
  run_start: "runtime_reach k k"
| run_event: "runtime_reach k0 k \<Longrightarrow> run_ok k e \<Longrightarrow> run_exec e k = Some k' \<Longrightarrow> runtime_reach k0 k'"

definition blank_task :: Task where
  "blank_task = task_new_for_process '''' 0 0 0 0"

definition runtime_start :: "nat \<Rightarrow> u64 \<Rightarrow> Runtime" where
  "runtime_start cpus init_mm =
     \<lparr>rm_sched = sched_statics cpus (\<lambda>_. blank_task), rm_tasks = rt_new, rm_procs = rt_new, rm_next_tid = 1, rm_next_pid = 1,
      rm_init_mm = init_mm, rm_effects = []\<rparr>"

lemma runtime_start_ok: "runtime_ok (runtime_start cpus init_mm)"
  by (simp add: runtime_ok_def runtime_start_def rt_ok_new family_def sched_statics_def blank_task_def task_new_for_process_def)

section \<open>Every event keeps the invariant\<close>

text \<open>What an event may do: panic only for an exhausted counter, keep the invariant, and keep every task but a new one.\<close>

definition event_safe :: "run_event \<Rightarrow> Runtime \<Rightarrow> bool" where
  "event_safe e k \<longleftrightarrow> (case run_exec e k of
      None \<Rightarrow> spawned e \<noteq> None \<and> (next_id (rm_next_pid k) = None \<or> next_id (rm_next_tid k) = None)
    | Some k' \<Rightarrow> runtime_ok k' \<and>
        (\<forall>t. spawned e \<noteq> Some t \<longrightarrow> t_pid (task_of k' t) = t_pid (task_of k t) \<and>
           (t_status (task_of k t) = Exited \<longrightarrow> t_status (task_of k' t) = Exited)))"

lemma step_ok_safe: "step_ok k (run_exec e k) \<Longrightarrow> event_safe e k"
  by (auto simp: step_ok_def event_safe_def kept_def)

lemma exec_mappings_ok:
  assumes "runtime_ok k"
  shows "step_ok k (Some (snd (record_current_exec_request c path argc envc k)))"
    "step_ok k (Some (snd (set_current_exec_mappings c pages k)))" "step_ok k (Some (snd (take_current_exec_mappings c k)))"
proof -
  have proc: "step_ok k1 (Some (with_process pid (record_exec_request path argc envc) k1))"
    "step_ok k1 (Some (with_process pid (\<lambda>p. snd (replace_exec_mappings pages p)) k1))"
    "step_ok k1 (Some (with_process pid (\<lambda>p. snd (take_exec_mappings p)) k1))" if "runtime_ok k1" for pid k1
    by (rule step_ok_process, rule with_process_ok [OF that], use proc_ok_running in simp)+
  have undo: "step_ok k (Some (rollback c ps k1))" if "step_ok k (Some k1)" for ps k1
    using that by (simp add: step_ok_def)
  have name: "step_ok k (Some (with_sched (set_task t ((task_of k t)\<lparr>t_name := path\<rparr>)) k))" for t
    by (rule step_ok_sched [OF assms]) (rule kept_set_task, simp_all)
  show "step_ok k (Some (snd (record_current_exec_request c path argc envc k)))"
    using step_ok_same [OF assms] name step_ok_then [OF name proc(1) [OF step_ok_runtime [OF name]]]
    by (simp add: record_current_exec_request_def Let_def split: option.split)
  show "step_ok k (Some (snd (set_current_exec_mappings c pages k)))"
    using undo [OF step_ok_same [OF assms]] undo [OF proc(2) [OF assms]] by (simp add: set_current_exec_mappings_def Let_def split: option.split)
  show "step_ok k (Some (snd (take_current_exec_mappings c k)))"
    using step_ok_same [OF assms] proc(3) [OF assms] by (simp add: take_current_exec_mappings_def split: option.split)
qed

lemma spawn_safe:
  assumes "runtime_ok k" "unused addr k" "spawn_minimal_child c name b m cloned addr sp k = r"
  shows "case r of
      None \<Rightarrow> next_id (rm_next_pid k) = None \<or> next_id (rm_next_tid k) = None
    | Some (x, k') \<Rightarrow> runtime_ok k' \<and> kept_but addr (task_of k) (task_of k')"
proof (cases "spawn_kernel_thread_checked c name m cloned addr sp k")
  case None
  then show ?thesis using spawn_ok [OF assms(1,2) None] assms(3) by (auto simp: spawn_minimal_child_def)
next
  case (Some xk)
  obtain x k1 where xk: "xk = (x, k1)" by force
  have k1: "runtime_ok k1" "kept_but addr (task_of k) (task_of k1)" using spawn_ok [OF assms(1,2) Some] by (simp_all add: xk)
  have "runtime_ok (with_process pid (\<lambda>p. p\<lparr>p_is_clone_child := b\<rparr>) k1)" for pid
    by (rule with_process_ok [OF k1(1)]) (use proc_ok_running in simp)
  then show ?thesis
    using Some xk k1 assms(3) by (auto simp: spawn_minimal_child_def Let_def split: option.splits)
qed

lemma clone_cases:
  "clone_current c flags stack ptid ctid tls frame cloned addr sp k = Some (Inl EINVAL, k) \<or>
   (\<exists>name b m. map_option snd (clone_current c flags stack ptid ctid tls frame cloned addr sp k) =
      map_option snd (spawn_minimal_child c name b m cloned addr sp k))"
proof -
  define P where "P x \<longleftrightarrow> x = Some (Inl EINVAL, k) \<or>
    (\<exists>name b m. map_option snd x = map_option snd (spawn_minimal_child c name b m cloned addr sp k))" for x :: "((int + u64 \<times> bool) \<times> Runtime) option"
  have refused: "P (Some (Inl EINVAL, k))" by (simp add: P_def)
  have "map_option snd (x \<bind> (\<lambda>(r, k). Some (f r, k))) = map_option snd x" for x :: "('a \<times> Runtime) option" and f :: "'a \<Rightarrow> 'b"
    by (cases x) auto
  then have made: "P (spawn_minimal_child c name b m cloned addr sp k \<bind> (\<lambda>(r, k). Some (f r, k)))" for name b m f
    unfolding P_def by blast
  have "P (clone_current c flags stack ptid ctid tls frame cloned addr sp k)"
    unfolding clone_current_def Let_def by (simp only: refused made if_True if_False simp_thms split: if_split)
  then show ?thesis by (simp add: P_def)
qed

lemma clone_safe:
  assumes "runtime_ok k" "unused addr k"
  shows "event_safe (RClone c flags stack ptid ctid tls frame cloned addr sp) k"
proof -
  consider "clone_current c flags stack ptid ctid tls frame cloned addr sp k = Some (Inl EINVAL, k)"
    | name b m where "map_option snd (clone_current c flags stack ptid ctid tls frame cloned addr sp k) =
        map_option snd (spawn_minimal_child c name b m cloned addr sp k)"
    using clone_cases by blast
  then show ?thesis
  proof cases
    case 1
    then show ?thesis using assms(1) by (simp add: event_safe_def)
  next
    case 2
    then show ?thesis
      using spawn_safe [OF assms refl, of c name b m cloned sp] by (auto simp: event_safe_def kept_but_def split: option.splits prod.splits)
  qed
qed

lemma run_exec_safe:
  assumes "runtime_ok k" "run_ok k e"
  shows "event_safe e k"
proof (cases e)
  case (RSpawn c name m cloned addr sp)
  then show ?thesis
    using spawn_ok [OF assms(1) _ refl, of addr c name m cloned sp] assms(2)
    by (auto simp: event_safe_def run_ok_def kept_but_def split: option.splits prod.splits)
next
  case RClone
  then show ?thesis using clone_safe [OF assms(1)] assms(2) by (simp add: run_ok_def)
next
  case (RWait c now target options nohang)
  then show ?thesis using wait_round_ok [OF assms(1), of c now target options nohang] by (intro step_ok_safe) auto
next
  case (RSchedule c now now' sp)
  then show ?thesis
    using with_sched_ok [OF assms(1), of "\<lambda>s. snd (schedule c now now' sp s)"] kept_schedule [of "rm_sched k" c now now' sp]
    by (simp add: event_safe_def kept_def)
qed (use assms(1) in \<open>simp_all add: step_ok_safe exit_current_task_ok exit_current_process_ok send_signal_ok exec_mappings_ok\<close>)

lemma runtime_reach_ok: "runtime_reach k0 k \<Longrightarrow> runtime_ok k0 \<Longrightarrow> runtime_ok k"
proof (induction rule: runtime_reach.induct)
  case (run_event k0 k e k')
  then show ?case using run_exec_safe [of k e] by (simp add: event_safe_def)
qed simp

section \<open>The process table\<close>

text \<open>
  C2: in every state the kernel can reach from boot, the process table is consistent: a process is filed under its
  identifier, and a process is in the list of children of another one, once, exactly when it is in the
  table with that one as its parent. The wait status is consistent: a stop signal is recorded exactly for a
  stopped process, a reported stop or a pending continue only for a stopped or running one, and a zombie has an
  exit code and only exited tasks. Every further event panics only when an identifier counter is exhausted, moves
  no existing task to another process and never revives an exited task.
\<close>

theorem process_table_invariant:
  assumes "runtime_reach (runtime_start cpus init_mm) k"
  shows "(\<forall>pid p. find_process_by_pid k pid = Some p \<longrightarrow> p_pid p = pid \<and> distinct (p_children p) \<and>
        (p_status p = PStopped \<longleftrightarrow> p_wait_stop_signal p \<noteq> None) \<and> (p_wait_stop_reported p \<longrightarrow> p_status p = PStopped) \<and>
        (p_wait_continued_pending p \<longrightarrow> p_status p = PRunning) \<and>
        (p_status p = PZombie \<longrightarrow> p_exit_code p \<noteq> None \<and> (\<forall>t \<in> set (p_tasks p). t_status (task_of k t) = Exited))) \<and>
    (\<forall>pid p child. find_process_by_pid k pid = Some p \<longrightarrow>
        (child \<in> set (p_children p) \<longleftrightarrow> (\<exists>q. find_process_by_pid k child = Some q \<and> p_parent q = Some pid))) \<and>
    (\<forall>e. run_ok k e \<longrightarrow> (case run_exec e k of
        None \<Rightarrow> spawned e \<noteq> None \<and> (next_id (rm_next_pid k) = None \<or> next_id (rm_next_tid k) = None)
      | Some k' \<Rightarrow> \<forall>t. spawned e \<noteq> Some t \<longrightarrow> t_pid (task_of k' t) = t_pid (task_of k t) \<and>
          (t_status (task_of k t) = Exited \<longrightarrow> t_status (task_of k' t) = Exited)))"
proof (intro conjI)
  have ok: "runtime_ok k" using runtime_reach_ok [OF assms runtime_start_ok] .
  then have fam: "family (find_process_by_pid k) (task_of k) (rm_next_pid k)" by (simp add: runtime_ok_def find_process_by_pid_def [abs_def])
  then show "\<forall>pid p. find_process_by_pid k pid = Some p \<longrightarrow> p_pid p = pid \<and> distinct (p_children p) \<and>
        (p_status p = PStopped \<longleftrightarrow> p_wait_stop_signal p \<noteq> None) \<and> (p_wait_stop_reported p \<longrightarrow> p_status p = PStopped) \<and>
        (p_wait_continued_pending p \<longrightarrow> p_status p = PRunning) \<and>
        (p_status p = PZombie \<longrightarrow> p_exit_code p \<noteq> None \<and> (\<forall>t \<in> set (p_tasks p). t_status (task_of k t) = Exited))"
    by (simp add: family_def proc_ok_def wait_status_ok_def)
  show "\<forall>pid p child. find_process_by_pid k pid = Some p \<longrightarrow>
        (child \<in> set (p_children p) \<longleftrightarrow> (\<exists>q. find_process_by_pid k child = Some q \<and> p_parent q = Some pid))"
    using fam by (simp add: family_def)
  have "case run_exec e k of
        None \<Rightarrow> spawned e \<noteq> None \<and> (next_id (rm_next_pid k) = None \<or> next_id (rm_next_tid k) = None)
      | Some k' \<Rightarrow> \<forall>t. spawned e \<noteq> Some t \<longrightarrow> t_pid (task_of k' t) = t_pid (task_of k t) \<and>
          (t_status (task_of k t) = Exited \<longrightarrow> t_status (task_of k' t) = Exited)" if "run_ok k e" for e
    using run_exec_safe [OF ok that] by (simp add: event_safe_def split: option.splits)
  then show "\<forall>e. run_ok k e \<longrightarrow> (case run_exec e k of
        None \<Rightarrow> spawned e \<noteq> None \<and> (next_id (rm_next_pid k) = None \<or> next_id (rm_next_tid k) = None)
      | Some k' \<Rightarrow> \<forall>t. spawned e \<noteq> Some t \<longrightarrow> t_pid (task_of k' t) = t_pid (task_of k t) \<and>
          (t_status (task_of k t) = Exited \<longrightarrow> t_status (task_of k' t) = Exited))"
    by blast
qed

section \<open>Waiting for an exited child\<close>

lemma first_some_Some: "first_some f xs = Some y \<Longrightarrow> \<exists>x \<in> set xs. f x = Some y"
  by (induction xs) (auto split: option.splits)

lemma observe_reapable:
  assumes "wait_child_observe c target options k = Reapable child code"
  obtains ppid p q where "current_pid c k = Some ppid" "parent_owns_child c k child = Some ppid" "find_process_by_pid k ppid = Some p"
    "child \<in> set (p_children p)" "find_process_by_pid k child = Some q" "p_status q = PZombie" "code = (case p_exit_code q of Some x \<Rightarrow> x | None \<Rightarrow> 0)"
proof -
  obtain t p where t: "current c k = Some t" "find_process_by_pid k (t_pid (task_of k t)) = Some p"
    using assms by (auto simp: wait_child_observe_def split: option.splits)
  define cs where "cs = wait_candidates target options k (t_id (task_of k t)) p"
  have "first_some (child_event options k) cs = Some (Reapable child code)"
    using assms t by (simp add: wait_child_observe_def Let_def cs_def split: if_splits option.splits)
  then obtain x where "x \<in> set cs" "child_event options k x = Some (Reapable child code)" using first_some_Some by metis
  then show thesis
    using t that [of "t_pid (task_of k t)" p]
    by (auto simp: cs_def wait_candidates_def child_event_def parent_owns_child_def current_pid_def split: option.splits if_splits)
qed

text \<open>
  C11: when the current process observes an exited child in a reachable state, the same round of waiting returns that
  child with its exit code and its resource usage. The child is a zombie of the current process; it leaves the
  process table and the list of children together, and no other process changes. None of its tasks is left on a
  run queue, no task and no current task changes, its files are closed, its address space is released, and the
  pages it still has mapped are unmapped in the address space of the parent.
\<close>

theorem wait_reaps_zombie:
  assumes "runtime_reach (runtime_start cpus init_mm) k" "wait_child_observe c target options k = Reapable child code"
  shows "\<exists>k' ppid p q r. wait_round c now target options nohang k = Some (Inl (EvExited child code r), k') \<and>
    snapshot_observed_child_rusage c now child k = Some r \<and>
    current_pid c k = Some ppid \<and> find_process_by_pid k ppid = Some p \<and> child \<in> set (p_children p) \<and>
    find_process_by_pid k child = Some q \<and> p_status q = PZombie \<and> p_exit_code q = Some code \<and>
    find_process_by_pid k' = (find_process_by_pid k)(ppid \<mapsto> remove_child child p, child := None) \<and>
    child \<notin> set (p_children (remove_child child p)) \<and>
    (\<forall>slot < active_cpu_slots (rm_sched k). \<forall>t \<in> set (s_runqueues (rm_sched k') slot). t_pid (task_of k t) \<noteq> child) \<and>
    s_tasks (rm_sched k') = s_tasks (rm_sched k) \<and> s_current (rm_sched k') = s_current (rm_sched k) \<and>
    rm_effects k' = rm_effects k @ [DropFds child, MmRelease (p_mm q)] @
      (if p_exec_mappings q = [] then [] else [RollbackMappings (current_mm_ptr c k) (p_exec_mappings q)])"
proof -
  have ok: "runtime_ok k" using runtime_reach_ok [OF assms(1) runtime_start_ok] .
  obtain ppid p q where own: "current_pid c k = Some ppid" "parent_owns_child c k child = Some ppid" "find_process_by_pid k ppid = Some p"
    "child \<in> set (p_children p)" and q: "find_process_by_pid k child = Some q" "p_status q = PZombie"
    "code = (case p_exit_code q of Some x \<Rightarrow> x | None \<Rightarrow> 0)"
    by (rule observe_reapable [OF assms(2)])
  obtain k' code' where k': "p_exit_code q = Some code'" "reap_observed_child c child k = Some (Some (child, code'), k')"
    "runtime_ok k'" "find_process_by_pid k' = (find_process_by_pid k)(ppid \<mapsto> remove_child child p, child := None)"
    "rm_sched k' = snd (remove_tasks_by_pid child (rm_sched k))" "rm_next_pid k' = rm_next_pid k"
    "rm_effects k' = rm_effects k @ [DropFds child, MmRelease (p_mm q)] @
       (if p_exec_mappings q = [] then [] else [RollbackMappings (current_mm_ptr c k) (p_exec_mappings q)])"
    by (rule reap_spec [OF ok own(2,3) q(1,2)])
  have code: "code' = code" using k'(1) q(3) by simp
  obtain r where r: "snapshot_observed_child_rusage c now child k = Some r"
    using own(2) q(1) by (simp add: snapshot_observed_child_rusage_def)
  have "wait_round c now target options nohang k = Some (Inl (EvExited child code r), k')"
    using assms(2) k'(2) r code by (simp add: wait_round_def Let_def)
  moreover have "distinct (p_children p)" using ok own(3) by (simp add: runtime_ok_def family_def proc_ok_def find_process_by_pid_def)
  then have "child \<notin> set (p_children (remove_child child p))" using remove_child_children by blast
  moreover have "\<forall>slot < active_cpu_slots (rm_sched k). \<forall>t \<in> set (s_runqueues (rm_sched k') slot). t_pid (task_of k t) \<noteq> child"
    "s_tasks (rm_sched k') = s_tasks (rm_sched k)" "s_current (rm_sched k') = s_current (rm_sched k)"
    by (simp_all add: k'(5) remove_tasks_by_pid_def Let_def)
  ultimately show ?thesis using r own q(1,2) k'(1,4,7) code by blast
qed

section \<open>A run\<close>

text \<open>The kernel spawns a first process, which forks a child and kills it.\<close>

fun runtime_run :: "run_event list \<Rightarrow> Runtime \<Rightarrow> Runtime option" where
  "runtime_run [] k = Some k"
| "runtime_run (e # es) k = do { k \<leftarrow> run_exec e k; runtime_run es k }"

definition demo_boot :: "run_event list" where
  "demo_boot = [RSpawn 0 ''init'' InheritShared 0 10 4096, RSchedule 0 1 1 4096]"

definition demo_kill :: "run_event list" where
  "demo_kill = [RClone 0 17 0 0 0 0 True 77 11 8192, RSignal 0 2 9]"

definition demo_zombie :: Runtime where
  "demo_zombie = the (runtime_run (demo_boot @ demo_kill) (runtime_start 1 42))"

text \<open>While the process table has one level, a free address can be checked by iterating over it.\<close>

definition free_address :: "nat \<Rightarrow> Runtime \<Rightarrow> bool" where
  "free_address addr k \<longleftrightarrow> rt_height (rm_procs k) \<le> 1 \<and> list_all (\<lambda>(pid, q). addr \<notin> set (p_tasks q)) (rt_iter (rm_procs k))"

lemma free_address_unused: "runtime_ok k \<Longrightarrow> free_address addr k \<Longrightarrow> unused addr k"
  using rt_iter_one_level [of "rm_procs k"]
  by (fastforce simp: runtime_ok_def free_address_def unused_def find_process_by_pid_def list_all_iff)

fun run_checked :: "run_event list \<Rightarrow> Runtime \<Rightarrow> bool" where
  "run_checked [] k \<longleftrightarrow> True"
| "run_checked (e # es) k \<longleftrightarrow>
     (case spawned e of Some addr \<Rightarrow> free_address addr k | None \<Rightarrow> True) \<and>
     (case run_exec e k of Some k' \<Rightarrow> run_checked es k' | None \<Rightarrow> False)"

lemma run_checked_reach:
  "run_checked es k \<Longrightarrow> runtime_reach k0 k \<Longrightarrow> runtime_ok k0 \<Longrightarrow> runtime_reach k0 (the (runtime_run es k))"
proof (induction es arbitrary: k)
  case (Cons e es)
  obtain k1 where k1: "run_exec e k = Some k1" "run_checked es k1" using Cons.prems(1) by (auto split: option.splits)
  have "run_ok k e"
    using Cons.prems(1) free_address_unused [OF runtime_reach_ok [OF Cons.prems(2,3)]] by (auto simp: run_ok_def split: option.splits)
  then have "runtime_reach k0 k1" using run_event [OF Cons.prems(2) _ k1(1)] by blast
  then show ?case using Cons.IH [OF k1(2) _ Cons.prems(3)] k1(1) by simp
qed simp

text \<open>The sums of 64-bit numbers in a form that evaluates without natural numbers.\<close>

lemma unat_sum_code: "unat a + unat b < 2 ^ 64 \<longleftrightarrow> b \<le> - 1 - (a :: u64)"
proof -
  have "unat (- 1 - a) = 2 ^ 64 - 1 - unat a" by (subst unat_sub_no_wrap) simp_all
  moreover have "x + y < n \<longleftrightarrow> y \<le> n - 1 - x" if "x < n" for x y n :: nat using that by linarith
  moreover have "unat a < 2 ^ 64" by simp
  ultimately show ?thesis by (simp only: word_le_nat_alt)
qed

lemma u64_checked_add_code [code]: "u64_checked_add a b = (if b \<le> - 1 - a then Some (a + b) else None)"
  by (simp only: u64_checked_add_def unat_sum_code)

lemma u64_saturating_add_code [code]: "u64_saturating_add a b = (if b \<le> - 1 - a then a + b else - 1)"
  by (simp only: u64_saturating_add_def unat_sum_code)

lemma demo_zombie_facts:
  "wait_child_observe 0 AnyChild default_wait_options demo_zombie = Reapable 2 137"
  "map_option p_status (find_process_by_pid demo_zombie 2) = Some PZombie"
  "map_option p_children (find_process_by_pid demo_zombie 1) = Some [2]"
  by code_simp+

lemma demo_zombie_reach: "runtime_reach (runtime_start 1 42) demo_zombie"
  unfolding demo_zombie_def
proof (rule run_checked_reach)
  show "run_checked (demo_boot @ demo_kill) (runtime_start 1 42)" by code_simp
qed (simp_all add: runtime_start_ok run_start)

theorem process_table_invariant_witness:
  "\<exists>p q. find_process_by_pid demo_zombie 1 = Some p \<and> p_children p = [2] \<and> find_process_by_pid demo_zombie 2 = Some q \<and>
    p_parent q = Some 1 \<and> p_status q = PZombie \<and> p_exit_code q \<noteq> None"
proof -
  obtain p q where pq: "find_process_by_pid demo_zombie 1 = Some p" "p_children p = [2]"
    "find_process_by_pid demo_zombie 2 = Some q" "p_status q = PZombie"
    using demo_zombie_facts(2,3) by auto
  note inv = process_table_invariant [OF demo_zombie_reach]
  have "p_exit_code q \<noteq> None" using inv [THEN conjunct1] pq by blast
  moreover have "2 \<in> set (p_children p) \<longleftrightarrow> (\<exists>q. find_process_by_pid demo_zombie 2 = Some q \<and> p_parent q = Some 1)"
    using inv [THEN conjunct2, THEN conjunct1] pq(1) by blast
  ultimately have "p_exit_code q \<noteq> None" "p_parent q = Some 1" using pq by simp_all
  then show ?thesis using pq by blast
qed

theorem wait_reaps_zombie_witness:
  "\<exists>k' r. wait_round 0 5 AnyChild default_wait_options False demo_zombie = Some (Inl (EvExited 2 137 r), k') \<and>
    find_process_by_pid k' 2 = None"
  using wait_reaps_zombie [OF demo_zombie_reach demo_zombie_facts(1), of 5 False] by auto

section \<open>Signals for a zombie\<close>

text \<open>
  A signal does not look at the status of the process. \<^verbatim>\<open>SIGCONT\<close> for a zombie makes it a running process again,
  although all its tasks have exited, so that no later wait reports its exit.
\<close>

lemma continued_zombie:
  assumes "runtime_ok k" "find_process_by_pid k pid = Some p" "p_status p = PZombie" "k' = snd (send_signal c pid 18 k)"
  shows "\<exists>p'. find_process_by_pid k' pid = Some p' \<and> p_status p' = PRunning \<and> (\<forall>t \<in> set (p_tasks p'). t_status (task_of k' t) = Exited)"
proof -
  have ok: "rt_ok (rm_procs k)" "proc_ok (task_of k) (rm_next_pid k) pid p"
    using assms(1,2) by (simp_all add: runtime_ok_def family_def find_process_by_pid_def)
  have k': "k' = with_sched (fold (continue_task c) (p_tasks p)) (with_process pid mark_continued k)"
    using assms(2,4) by (simp add: send_signal_def Let_def)
  have "find_process_by_pid k' pid = Some (mark_continued p)"
    using with_process_get(2) [OF ok(1), of pid mark_continued] assms(2) by (simp add: k' find_process_by_pid_def)
  moreover have "\<forall>t \<in> set (p_tasks p). t_status (task_of k' t) = Exited"
    using ok(2) assms(3) kept_continue_tasks(1) [of "rm_sched k" c "p_tasks p"] by (simp add: k' proc_ok_def kept_def)
  ultimately show ?thesis by (simp add: mark_continued_def)
qed

end
