(* ===== verification/Spec2Isabelle.thy ===== *)
theory Spec2Isabelle
  imports Ring_Buffer Id_Allocator Wait_Queue Maple_Map Memblock_Map Addresses Vma_Props Sched_Props Radix_Map Process_Props
begin

text \<open>
  Verification of the January OS kernel (\<^verbatim>\<open>kernel/src\<close>, paths below are relative to it).

  \<^bold>\<open>The program.\<close> January OS is a kernel in Rust for x86-64. A library of data structures (\<^verbatim>\<open>libs\<close>) carries the
  subsystems. The boot loader hands over a memory map; \<^verbatim>\<open>mm/phys/memblock.rs\<close> records it and serves the allocations
  of the start-up. Each process has an address space (\<^verbatim>\<open>mm/virt/vma.rs\<close>) whose areas are the ranges of a maple tree,
  which in turn is a B-tree. The task manager (\<^verbatim>\<open>task/runtime/manager.rs\<close>) keeps the tasks and the processes in two
  radix trees, and the scheduler (\<^verbatim>\<open>task/sched/mod.rs\<close>) keeps one run queue per CPU and steals from the others.

  \<^bold>\<open>Conventions.\<close> The release profile is modelled: unsigned arithmetic wraps and \<^verbatim>\<open>debug_assert!\<close> is absent. A panic
  is \<open>None\<close> of an outermost option; Rust's \<^verbatim>\<open>Option\<close> is an option inside of it and \<^verbatim>\<open>Result\<close> a sum with the error on the left.
  Machine words that carry addresses, keys and identifiers are \<open>64 word\<close>; lengths and indices are natural numbers.
  A mutable reference handed to the caller is a function applied to the value. A call made under a lock is one step.

  \<^bold>\<open>Theories.\<close>
  \<^item> \<open>Prelude\<close>: machine integers, vectors with bounds checks, searches, shared list lemmas.
  \<^item> \<open>Ring_Buffer\<close> (\<^verbatim>\<open>libs/ring_buffer\<close>, \<^verbatim>\<open>libs/kfifo\<close>): any sequence of operations behaves as on a bounded list; slices
    written to the FIFO are read back. Contract \<open>bounded_fifo\<close>, met by both.
  \<^item> \<open>Bitmap\<close>, \<open>Id_Allocator\<close> (\<^verbatim>\<open>libs/bitmap\<close>, \<^verbatim>\<open>libs/id_allocator\<close>): the scans by words equal the scans by bits, first-fit
    windows and range updates are exact; the allocator refines a set of identifiers. Contract \<open>bitset\<close>.
  \<^item> \<open>Wait_Queue\<close> (\<^verbatim>\<open>libs/wait_queue\<close>): an invariant of the reachable queues, and waking all as iterated waking of one.
  \<^item> \<open>BTree\<close> (model of \<^verbatim>\<open>libs/btree/tree.rs\<close>), \<open>BTree_Proofs\<close>, \<open>BTree_Fill\<close>, \<open>BTree_Map\<close>: search-tree order, equal depth
    and fill of the nodes; insertion of a new key, removal, iteration. Contract \<open>ordered_map\<close>.
  \<^item> \<open>Maple_Tree\<close> (\<^verbatim>\<open>libs/mptree/tree.rs\<close>), \<open>Maple_Proofs\<close>, \<open>Maple_Map\<close>: disjoint ranges; every branch of insertion, the lowest
    and the highest gap, replacement that leaves the tree alone when it fails, splitting and merging. Contract \<open>range_map\<close>.
  \<^item> \<open>Radix_Tree\<close> (\<^verbatim>\<open>libs/rdtree/tree.rs\<close>), \<open>Radix_Proofs\<close>, \<open>Radix_Order\<close>, \<open>Radix_Map\<close>: a map from words; ordered queries and
    gaps; exactly which entries an iteration visits. Contract \<open>index_map\<close>.
  \<^item> \<open>Kernel_Error\<close> (\<^verbatim>\<open>error.rs\<close>), \<open>Memblock\<close> (\<^verbatim>\<open>mm/phys/memblock.rs\<close>), \<open>Memblock_Proofs\<close>, \<open>Word_Align\<close>, \<open>Memblock_Alloc\<close>,
    \<open>Memblock_Map\<close>: the two tables as sets of addresses, allocation of memory that is free, aligned and in range, and
    the walk over the free regions. Contract \<open>area_search\<close>, met by the search in each direction.
  \<^item> \<open>Layout\<close>, \<open>Addresses\<close> (\<^verbatim>\<open>mm/api/layout.rs\<close>, \<^verbatim>\<open>mm/virt/address.rs\<close>, \<^verbatim>\<open>mm/virt/layout_runtime.rs\<close>, constants of \<^verbatim>\<open>os_cfg.toml\<close>):
    canonical addresses, page-table indices, frames, rounding, the order of the kernel's windows, the direct map.
  \<^item> \<open>Vma\<close>, \<open>Vma_Proofs\<close>, \<open>Vma_Props\<close> (\<^verbatim>\<open>mm/virt/vma.rs\<close>): placement of mappings, accounting, the heap, stack growth, flags and
    page permissions. The proofs use the maple tree through its contract.
  \<^item> \<open>Sched\<close>, \<open>Sched_Proofs\<close>, \<open>Sched_Props\<close> (\<^verbatim>\<open>task/sched/mod.rs\<close>, \<^verbatim>\<open>task/thread\<close>, \<^verbatim>\<open>task/api/id.rs\<close>): tasks are addresses into a
    store; events of the CPUs as a step relation. A running task is current on exactly one CPU, no ready task is
    overlooked, and a waiting task runs after at most as many dispatches as there are tasks before it, and one.
  \<^item> \<open>Process\<close>, \<open>Process_Proofs\<close>, \<open>Process_Props\<close> (\<^verbatim>\<open>task/proc/process.rs\<close>, \<^verbatim>\<open>signal.rs\<close>, \<^verbatim>\<open>wait.rs\<close>, \<^verbatim>\<open>fork.rs\<close> and
    \<^verbatim>\<open>task/runtime/manager.rs\<close>): the process table over the radix tree and the scheduler. The table is consistent in
    every reachable state, an exited task is never revived, only exhausted identifier counters panic, and waiting
    for an exited child removes exactly that child.

  \<^bold>\<open>Bounds and termination.\<close> Loops are recursive functions with termination proofs; measures are the candidate address
  (downward search), the weight of the pending frames (\<open>frame_weight\<close>, iteration of the B-tree) and of the pending
  states (\<open>iter_weight\<close>, radix tree). The upward search of the boot allocator may run for ever because its alignment
  can wrap; it is a partial function, and the allocation theorem proves that it returns when the regions leave room
  for the alignment (\<open>align_room\<close>). The merging loop of the maple tree is a partial function too, proved to return. No
  model uses fuel. Radix trees have at most 11 levels, since 11 digits in base 64
  hold a 64-bit key. Removal from a B-tree is proved below 127 entries (\<open>btree_bound\<close>): from there on a tree may have
  three levels, and a removal may then empty a leaf and make a later one panic (\<open>btree_remove_panics\<close>); the maple tree
  and the address space inherit the bound. The waiting loop of \<^verbatim>\<open>wait.rs\<close> is one round (\<open>wait_round\<close>) between two calls of
  \<open>schedule\<close>, because it ends only when another task lets it.

  \<^bold>\<open>Hypotheses on the environment.\<close> The scheduler is given the number of CPUs, the CPU of each call, the clock and the
  saved stack pointer, which is not 0. The address of a new task is not that of a task of a process. The result of
  cloning an address space is an argument, and calls into the file system, the address spaces and the page tables are
  recorded as effects in the order in which they are made. The scheduler theorems cover the events of
  \<open>sched_event\<close>; a stop signal for a task that runs on another CPU is not one of them and breaks exclusive ownership
  (\<open>stopped_task_on_two_cpus\<close>). The process theorems include the signals and do not rely on exclusive ownership.

  \<^bold>\<open>Not modelled.\<close>
  \<^item> Code on physical memory, device registers or privileged instructions: page tables and TLB, page-frame allocators,
    kernel heap and vmalloc, DMA, interrupts, start of the CPUs, context switch, drivers, boot loader.
  \<^item> Data structures of raw pointers (red-black tree, intrusive lists, LRU cache), which need a heap with aliasing.
  \<^item> Lock-free code and locks (\<^verbatim>\<open>sync\<close>, \<^verbatim>\<open>libs/rcu\<close>): their correctness is about memory orderings.
  \<^item> File systems, program loading, page faults, the decoding of system calls, the shell and the user programs: input and output
    and copies from and to user memory around the operations that are modelled.
  \<^item> The network, security and virtualisation parts, which are skeletons so far.
  \<^item> Of the modelled files: formatting, diagnostics, the switch of the address space in the scheduler, and the frame with
    which a forked child returns to user mode.
\<close>

end
